(* ===== verification/XC_Prelude.thy ===== *)
theory XC_Prelude
  imports Main "HOL-Library.Word" "HOL-Library.Monad_Syntax"
begin

text \<open>
  Shared ground of the exchange-core development.

  The C++ containers are modelled in the option monad: \<open>None\<close> stands for an execution that
  goes wrong, that is, an out-of-range vector access, a failed \<open>assert\<close> or a loop that never
  ends.  A theorem that an operation returns \<open>Some\<close> is therefore at once a statement of memory
  safety, of the truth of the assertions in the source and of termination.

  The theory holds the fixed-width integer types, checked vector access, the monadic fold,
  and the locale of state machines with an invariant, which the components interpret.
\<close>

unbundle bit_operations_syntax

section \<open>Machine integers\<close>

type_synonym u8 = "8 word"
type_synonym u16 = "16 word"
type_synonym u32 = "32 word"
type_synonym u64 = "64 word"

section \<open>Executions that can go wrong\<close>

definition assert_that :: "bool \<Rightarrow> unit option" where
  "assert_that b = (if b then Some () else None)"

definition vget :: "'a list \<Rightarrow> nat \<Rightarrow> 'a option" where
  "vget xs i = (if i < length xs then Some (xs ! i) else None)"

definition vset :: "'a list \<Rightarrow> nat \<Rightarrow> 'a \<Rightarrow> 'a list option" where
  "vset xs i x = (if i < length xs then Some (xs[i := x]) else None)"

primrec foldM :: "('x \<Rightarrow> 's \<Rightarrow> 's option) \<Rightarrow> 'x list \<Rightarrow> 's \<Rightarrow> 's option" where
  "foldM f [] s = Some s"
| "foldM f (x # xs) s = do { s' \<leftarrow> f x s; foldM f xs s' }"

named_theorems xc_defs \<open>definitions of the small accessors\<close>
named_theorems xc_inv \<open>facts that an operation keeps an invariant\<close>

lemma assert_that_True [simp]: "assert_that True = Some ()"
  by (simp add: assert_that_def)

lemma assert_that_eq [simp]: "b \<Longrightarrow> assert_that b = Some ()"
  by (simp add: assert_that_def)

lemma assert_that_Some_iff: "assert_that b = Some u \<longleftrightarrow> b"
  by (simp add: assert_that_def)

lemma vget_eq [simp]: "i < length xs \<Longrightarrow> vget xs i = Some (xs ! i)"
  by (simp add: vget_def)

lemma vset_eq [simp]: "i < length xs \<Longrightarrow> vset xs i x = Some (xs[i := x])"
  by (simp add: vset_def)

lemma vget_Some_iff: "vget xs i = Some x \<longleftrightarrow> i < length xs \<and> xs ! i = x"
  by (auto simp: vget_def)

lemma vset_Some_iff: "vset xs i x = Some ys \<longleftrightarrow> i < length xs \<and> ys = xs[i := x]"
  by (auto simp: vset_def)

lemma foldM_append: "foldM f (xs @ ys) s = do { s' \<leftarrow> foldM f xs s; foldM f ys s' }"
  by (induction xs arbitrary: s) auto

lemma foldM_cong [fundef_cong]:
  assumes "xs = ys" and "s = t" and "\<And>x a. x \<in> set ys \<Longrightarrow> f x a = g x a"
  shows "foldM f xs s = foldM g ys t"
proof -
  have "foldM f ys a = foldM g ys a" for a
    using assms(3) by (induction ys arbitrary: a) (auto intro!: Option.bind_cong)
  then show ?thesis using assms(1,2) by simp
qed

lemma foldM_mono [partial_function_mono]:
  assumes "\<And>x a. mono_option (\<lambda>F. f F x a)"
  shows "mono_option (\<lambda>F. foldM (f F) xs s)"
proof (induction xs arbitrary: s)
  case Nil
  show ?case by (simp add: option.const_mono)
next
  case (Cons x xs)
  show ?case
    by (simp only: foldM.simps) (intro bind_mono assms Cons.IH)
qed

text \<open>The invariant rule for a fold: the step keeps it and never goes wrong.\<close>

lemma foldM_invariant:
  assumes "\<And>x s. x \<in> set xs \<Longrightarrow> I s \<Longrightarrow> \<exists>s'. f x s = Some s' \<and> I s'" and "I s"
  shows "\<exists>s'. foldM f xs s = Some s' \<and> I s'"
  using assms
proof (induction xs arbitrary: s)
  case Nil
  then show ?case by simp
next
  case (Cons x xs)
  then obtain s1 where "f x s = Some s1" "I s1" by (metis list.set_intros(1))
  with Cons show ?case by (metis Option.bind.bind_lunit foldM.simps(2) list.set_intros(2))
qed

section \<open>State machines and their invariants\<close>

text \<open>
  The interface every stateful component offers its client: a step function that may go
  wrong, and an invariant under which it does not.  Runs of commands then never go wrong.
\<close>

locale safe_machine =
  fixes step :: "'c \<Rightarrow> 's \<Rightarrow> 's option"
    and admissible :: "'c \<Rightarrow> 's \<Rightarrow> bool"
    and invar :: "'s \<Rightarrow> bool"
  assumes step_safe: "invar s \<Longrightarrow> admissible c s \<Longrightarrow> \<exists>s'. step c s = Some s' \<and> invar s'"
begin

fun admissible_run :: "'c list \<Rightarrow> 's \<Rightarrow> bool" where
  "admissible_run [] s = True"
| "admissible_run (c # cs) s =
     (admissible c s \<and> (case step c s of None \<Rightarrow> True | Some s' \<Rightarrow> admissible_run cs s'))"

lemma run_safe:
  assumes "invar s" and "admissible_run cs s"
  shows "\<exists>s'. foldM step cs s = Some s' \<and> invar s'"
  using assms
proof (induction cs arbitrary: s)
  case Nil
  then show ?case by simp
next
  case (Cons c cs)
  then obtain s1 where "step c s = Some s1" "invar s1" "admissible_run cs s1"
    using step_safe by fastforce
  with Cons.IH show ?case by simp
qed

lemma run_safe_total:
  assumes "invar s" and "\<And>c s. invar s \<Longrightarrow> admissible c s"
  shows "\<exists>s'. foldM step cs s = Some s' \<and> invar s'"
  by (rule foldM_invariant) (auto intro: step_safe assms)

end

end
