(* ===== verification/XC_Types.thy ===== *)
theory XC_Types
  imports XC_Prelude "HOL-Library.Signed_Division"
begin

text \<open>
  The vocabulary of the engine: \<open>include/xc/core/types.hpp\<close>, \<open>ids.hpp\<close>, \<open>order.hpp\<close>,
  \<open>fill.hpp\<close>, \<open>withdrawal.hpp\<close>, \<open>commands.hpp\<close>, \<open>instrument.hpp\<close> and \<open>depth.hpp\<close>.

  Quantities, identifiers and sequence numbers are 64-bit words, so that their sums wrap as
  they do in the code.  Prices and timestamps are signed 64-bit in the source, where signed
  overflow is undefined; they are integers here, and \<open>i64_range\<close> names the interval they live in.
  Field names carry the struct they belong to, because record selectors are global constants.
\<close>

section \<open>Scalars and identifiers\<close>

type_synonym Price = int
type_synonym Quantity = u64
type_synonym Nanos = int
type_synonym SeqNum = u64
type_synonym OrderId = u64
type_synonym AccountId = u64
type_synonym TradeId = u64
type_synonym InstrumentId = u64

definition i64_range :: "int set" where
  "i64_range = {- (2 ^ 63) ..< 2 ^ 63}"

definition kNoPrice :: Price where
  "kNoPrice = 0"

definition id_valid :: "u64 \<Rightarrow> bool" where
  "id_valid i \<longleftrightarrow> i \<noteq> 0"

section \<open>Enumerations\<close>

datatype Side = Buy | Sell

fun opposite :: "Side \<Rightarrow> Side" where
  "opposite Buy = Sell"
| "opposite Sell = Buy"

datatype OrderType = Limit | Market

datatype TimeInForce = Day | ImmediateOrCancel | FillOrKill | GoodTilCancelled

datatype SelfTradePolicy = Allow | CancelIncoming | CancelResting | CancelBoth | DecrementBoth

datatype RejectReason =
    RejectNone | UnknownInstrument | UnknownOrder | DuplicateOrderId | InvalidPrice
  | InvalidQuantity | InvalidSide | FillOrKillUnfillable | PostOnlyWouldCross | SelfTrade
  | RiskLimit | PriceCollar | Halted | RateLimit

section \<open>Orders, fills and withdrawals\<close>

record Order =
  ord_id :: OrderId
  ord_account :: AccountId
  ord_instrument :: InstrumentId
  ord_price :: Price
  ord_quantity :: Quantity
  ord_remaining :: Quantity
  ord_side :: Side
  ord_type :: OrderType
  ord_tif :: TimeInForce
  ord_accepted_at :: Nanos
  ord_sequence :: SeqNum
  ord_post_only :: bool

definition Order_default :: Order where
  "Order_default = \<lparr>ord_id = 0, ord_account = 0, ord_instrument = 0, ord_price = kNoPrice,
     ord_quantity = 0, ord_remaining = 0, ord_side = Buy, ord_type = Limit, ord_tif = Day,
     ord_accepted_at = 0, ord_sequence = 0, ord_post_only = False\<rparr>"

definition filled :: "Order \<Rightarrow> Quantity" where
  "filled ord = ord_quantity ord - ord_remaining ord"

definition is_filled :: "Order \<Rightarrow> bool" where
  "is_filled ord \<longleftrightarrow> ord_remaining ord = 0"

definition is_buy :: "Order \<Rightarrow> bool" where
  "is_buy ord \<longleftrightarrow> ord_side ord = Buy"

record Fill =
  fill_id :: TradeId
  fill_instrument :: InstrumentId
  fill_price :: Price
  fill_quantity :: Quantity
  fill_aggressor_order :: OrderId
  fill_resting_order :: OrderId
  fill_aggressor_account :: AccountId
  fill_resting_account :: AccountId
  fill_aggressor_side :: Side
  fill_resting_filled :: bool
  fill_timestamp :: Nanos

record Withdrawal =
  wd_order :: OrderId
  wd_account :: AccountId
  wd_instrument :: InstrumentId
  wd_side :: Side
  wd_quantity :: Quantity
  wd_fully_removed :: bool
  wd_reason :: RejectReason

section \<open>Commands\<close>

record NewOrder =
  no_id :: OrderId
  no_account :: AccountId
  no_instrument :: InstrumentId
  no_side :: Side
  no_type :: OrderType
  no_tif :: TimeInForce
  no_price :: Price
  no_quantity :: Quantity
  no_post_only :: bool

record CancelOrder =
  co_id :: OrderId
  co_account :: AccountId
  co_instrument :: InstrumentId

record ReplaceOrder =
  ro_id :: OrderId
  ro_account :: AccountId
  ro_instrument :: InstrumentId
  ro_new_price :: Price
  ro_new_quantity :: Quantity

section \<open>Instruments\<close>

record Instrument =
  ins_id :: InstrumentId
  ins_symbol :: string
  ins_tick_size :: Price
  ins_lot_size :: Quantity
  ins_min_quantity :: Quantity
  ins_display_exponent :: u8
  ins_self_trade_policy :: SelfTradePolicy
  ins_min_price :: Price
  ins_max_price :: Price
  ins_expected_resting_orders :: nat

text \<open>\<open>%\<close> and \<open>/\<close> on signed operands truncate towards zero: \<open>smod\<close> and \<open>sdiv\<close>.\<close>

definition is_valid_price :: "Instrument \<Rightarrow> Price \<Rightarrow> bool" where
  "is_valid_price ins price \<longleftrightarrow>
     0 < price \<and> price smod ins_tick_size ins = 0 \<and>
     ins_min_price ins \<le> price \<and> price \<le> ins_max_price ins"

definition ladder_base :: "Instrument \<Rightarrow> Price" where
  "ladder_base ins = (ins_min_price ins sdiv ins_tick_size ins) * ins_tick_size ins"

definition tick_count :: "Instrument \<Rightarrow> nat" where
  "tick_count ins = nat ((ins_max_price ins - ladder_base ins) sdiv ins_tick_size ins) + 1"

definition is_valid_quantity :: "Instrument \<Rightarrow> Quantity \<Rightarrow> bool" where
  "is_valid_quantity ins q \<longleftrightarrow> ins_min_quantity ins \<le> q \<and> q mod ins_lot_size ins = 0"

section \<open>Market data views\<close>

record TopOfBook =
  top_instrument :: InstrumentId
  top_sequence :: SeqNum
  top_bid_price :: Price
  top_ask_price :: Price
  top_bid_quantity :: Quantity
  top_ask_quantity :: Quantity

definition has_bid :: "TopOfBook \<Rightarrow> bool" where
  "has_bid t \<longleftrightarrow> top_bid_price t \<noteq> kNoPrice"

definition has_ask :: "TopOfBook \<Rightarrow> bool" where
  "has_ask t \<longleftrightarrow> top_ask_price t \<noteq> kNoPrice"

definition spread :: "TopOfBook \<Rightarrow> Price option" where
  "spread t = (if \<not> has_bid t \<or> \<not> has_ask t then None
               else Some (top_ask_price t - top_bid_price t))"

definition mid_price_x2 :: "TopOfBook \<Rightarrow> Price option" where
  "mid_price_x2 t = (if \<not> has_bid t \<or> \<not> has_ask t then None
                     else Some (top_bid_price t + top_ask_price t))"

record DepthLevel =
  dl_price :: Price
  dl_quantity :: Quantity
  dl_order_count :: u32

record DepthSnapshot =
  ds_instrument :: InstrumentId
  ds_sequence :: SeqNum
  ds_bids :: "DepthLevel list"
  ds_asks :: "DepthLevel list"

lemma opposite_opposite [simp]: "opposite (opposite s) = s"
  by (cases s) simp_all

lemma opposite_neq [simp]: "opposite s \<noteq> s" "s \<noteq> opposite s"
  by (cases s; simp)+

end
