(* ===== verification/Order_Pool.thy ===== *)
theory Order_Pool
  imports XC_Types
begin

text \<open>
  The order slab: \<open>include/xc/core/order_pool.hpp\<close> and \<open>src/core/order_pool.cpp\<close>.

  Nodes live in a vector; released nodes are threaded onto a free list through their \<open>next\<close>
  field.  The contract offered to the rest of the book is the locale \<open>slab\<close>: a set of live
  handles, of which \<open>acquire\<close> adds a fresh one and \<open>release\<close> removes one, and every operation
  leaves the nodes of the other live handles alone.
\<close>

section \<open>Model\<close>

type_synonym OrderHandle = u32

definition kNullHandle :: OrderHandle where
  "kNullHandle = - 1"

record OrderNode =
  node_order :: Order
  node_prev :: OrderHandle
  node_next :: OrderHandle

record OrderPool =
  pool_nodes :: "OrderNode list"
  pool_capacity :: nat
  pool_free_head :: OrderHandle
  pool_live :: nat
  pool_high_water_mark :: nat
  pool_growth_events :: nat

definition OrderPool_new :: "nat \<Rightarrow> OrderPool" where
  "OrderPool_new initial_capacity =
     \<lparr>pool_nodes = [], pool_capacity = initial_capacity, pool_free_head = kNullHandle,
      pool_live = 0, pool_high_water_mark = 0, pool_growth_events = 0\<rparr>"

definition pool_node :: "OrderPool \<Rightarrow> OrderHandle \<Rightarrow> OrderNode option" where
  "pool_node p h = vget (pool_nodes p) (unat h)"

definition pool_set_node :: "OrderPool \<Rightarrow> OrderHandle \<Rightarrow> OrderNode \<Rightarrow> OrderPool option" where
  "pool_set_node p h n =
     do { ns \<leftarrow> vset (pool_nodes p) (unat h) n; Some (p\<lparr>pool_nodes := ns\<rparr>) }"

definition pool_order :: "OrderPool \<Rightarrow> OrderHandle \<Rightarrow> Order option" where
  "pool_order p h = do { n \<leftarrow> pool_node p h; Some (node_order n) }"

definition pool_set_order :: "OrderPool \<Rightarrow> OrderHandle \<Rightarrow> Order \<Rightarrow> OrderPool option" where
  "pool_set_order p h ord =
     do { n \<leftarrow> pool_node p h; pool_set_node p h (n\<lparr>node_order := ord\<rparr>) }"

text \<open>
  A vector that is full doubles when it grows; only \<open>growth_events\<close> and \<open>capacity\<close> observe it.
\<close>

definition grown_capacity :: "nat \<Rightarrow> nat" where
  "grown_capacity c = max 1 (2 * c)"

definition acquire :: "OrderPool \<Rightarrow> Order \<Rightarrow> (OrderHandle \<times> OrderPool) option" where
  "acquire p ord = do {
     (handle, p1) \<leftarrow>
       (if pool_free_head p \<noteq> kNullHandle then do {
          let handle = pool_free_head p;
          n \<leftarrow> pool_node p (pool_free_head p);
          p0 \<leftarrow> pool_set_node p handle
                 \<lparr>node_order = ord, node_prev = kNullHandle, node_next = kNullHandle\<rparr>;
          Some (handle, p0\<lparr>pool_free_head := node_next n\<rparr>)
        } else do {
          let index = length (pool_nodes p);
          assert_that (index < unat kNullHandle);
          let will_grow = (length (pool_nodes p) = pool_capacity p);
          Some (of_nat index,
            p\<lparr>pool_nodes := pool_nodes p @
                 [\<lparr>node_order = ord, node_prev = kNullHandle, node_next = kNullHandle\<rparr>],
              pool_capacity := (if will_grow then grown_capacity (pool_capacity p)
                                else pool_capacity p),
              pool_growth_events := (if will_grow then pool_growth_events p + 1
                                     else pool_growth_events p)\<rparr>)
        });
     let live = pool_live p1 + 1;
     Some (handle,
       p1\<lparr>pool_live := live,
          pool_high_water_mark := (if live > pool_high_water_mark p1 then live
                                   else pool_high_water_mark p1)\<rparr>)
   }"

definition release :: "OrderPool \<Rightarrow> OrderHandle \<Rightarrow> OrderPool option" where
  "release p handle = do {
     assert_that (unat handle < length (pool_nodes p));
     assert_that (pool_live p > 0);
     n \<leftarrow> pool_node p handle;
     p1 \<leftarrow> pool_set_node p handle
            (n\<lparr>node_prev := kNullHandle, node_next := pool_free_head p\<rparr>);
     Some (p1\<lparr>pool_free_head := handle, pool_live := pool_live p1 - 1\<rparr>)
   }"

text \<open>The free list as a path through \<open>next\<close>, and the live handles it leaves.\<close>

fun free_chain :: "OrderNode list \<Rightarrow> OrderHandle \<Rightarrow> OrderHandle list \<Rightarrow> bool" where
  "free_chain ns h [] = (h = kNullHandle)"
| "free_chain ns h (x # xs) =
     (h = x \<and> unat x < length ns \<and> free_chain ns (node_next (ns ! unat x)) xs)"

definition issued :: "OrderPool \<Rightarrow> OrderHandle set" where
  "issued p = {h. unat h < length (pool_nodes p)}"

definition pool_rep :: "OrderPool \<Rightarrow> OrderHandle set \<Rightarrow> bool" where
  "pool_rep p L \<longleftrightarrow> (\<exists>fs. free_chain (pool_nodes p) (pool_free_head p) fs \<and> distinct fs \<and>
      L = issued p - set fs \<and>
      length (pool_nodes p) \<le> unat kNullHandle \<and> pool_live p = card L \<and>
      pool_live p \<le> pool_high_water_mark p \<and> pool_high_water_mark p \<le> length (pool_nodes p))"

definition nd :: "OrderPool \<Rightarrow> OrderHandle \<Rightarrow> OrderNode" where
  "nd p h = pool_nodes p ! unat h"

abbreviation ordr :: "OrderPool \<Rightarrow> OrderHandle \<Rightarrow> Order" where
  "ordr p h \<equiv> node_order (nd p h)"

definition pool_has_room :: "OrderPool \<Rightarrow> bool" where
  "pool_has_room p \<longleftrightarrow> pool_live p < unat kNullHandle"

section \<open>The contract of a slab\<close>

text \<open>
  What the price levels and the book rely on: \<open>rep p L\<close> says that exactly the handles of \<open>L\<close>
  are live in \<open>p\<close>.
\<close>

locale slab =
  fixes rep :: "'p \<Rightarrow> 'h set \<Rightarrow> bool"
    and get :: "'p \<Rightarrow> 'h \<Rightarrow> 'n option"
    and put :: "'p \<Rightarrow> 'h \<Rightarrow> 'n \<Rightarrow> 'p option"
    and alloc :: "'p \<Rightarrow> 'x \<Rightarrow> ('h \<times> 'p) option"
    and free :: "'p \<Rightarrow> 'h \<Rightarrow> 'p option"
    and fresh :: "'x \<Rightarrow> 'n"
    and room :: "'p \<Rightarrow> bool"
  assumes get_live: "rep p L \<Longrightarrow> h \<in> L \<Longrightarrow> \<exists>n. get p h = Some n"
    and put_live: "rep p L \<Longrightarrow> h \<in> L \<Longrightarrow>
      \<exists>p'. put p h n = Some p' \<and> rep p' L \<and> get p' h = Some n \<and>
           (\<forall>k\<in>L - {h}. get p' k = get p k)"
    and alloc_fresh: "rep p L \<Longrightarrow> room p \<Longrightarrow>
      \<exists>h p'. alloc p x = Some (h, p') \<and> h \<notin> L \<and> rep p' (insert h L) \<and>
             get p' h = Some (fresh x) \<and> (\<forall>k\<in>L. get p' k = get p k)"
    and free_live: "rep p L \<Longrightarrow> h \<in> L \<Longrightarrow>
      \<exists>p'. free p h = Some p' \<and> rep p' (L - {h}) \<and> (\<forall>k\<in>L - {h}. get p' k = get p k)"
    and rep_finite: "rep p L \<Longrightarrow> finite L"
begin

text \<open>An order taken out of the slab at once leaves every live node as it was.\<close>

lemma alloc_free:
  assumes "rep p L" and "room p"
  shows "\<exists>h p' p''. alloc p x = Some (h, p') \<and> free p' h = Some p'' \<and> rep p'' L \<and>
           (\<forall>k\<in>L. get p'' k = get p k)"
proof -
  obtain h p' where a: "alloc p x = Some (h, p')" "h \<notin> L" "rep p' (insert h L)"
      "\<forall>k\<in>L. get p' k = get p k"
    using alloc_fresh[OF assms, of x] by (elim exE conjE) (rule that)
  obtain p'' where f: "free p' h = Some p''" "rep p'' (insert h L - {h})"
      "\<forall>k\<in>insert h L - {h}. get p'' k = get p' k"
    using free_live[OF a(3) insertI1] by (elim exE conjE) (rule that)
  have L: "insert h L - {h} = L" using a(2) by (rule Diff_insert_absorb)
  have "\<forall>k\<in>L. get p'' k = get p k" using f(3) a(4) unfolding L by simp
  then show ?thesis using a(1) f(1,2) unfolding L by (intro exI conjI)
qed

end

section \<open>The slab keeps its contract\<close>

lemma unat_kNullHandle [simp]: "unat kNullHandle = 4294967295"
  by (simp add: kNullHandle_def unsigned_minus_1_eq_mask mask_eq_exp_minus_1)

lemma handle_neq_null: "unat h < n \<Longrightarrow> n \<le> 4294967295 \<Longrightarrow> h \<noteq> kNullHandle"
  by auto

lemma unat_of_nat_handle: "n < 4294967295 \<Longrightarrow> unat (of_nat n :: OrderHandle) = n"
  by (simp add: unat_of_nat)

lemma issued_finite [simp]: "finite (issued p)"
  by (rule finite)

lemma issued_card:
  assumes "length (pool_nodes p) \<le> 4294967295"
  shows "card (issued p) = length (pool_nodes p)"
proof -
  have "bij_betw unat (issued p) {..<length (pool_nodes p)}"
  proof (rule bij_betwI')
    fix x y :: OrderHandle
    show "(unat x = unat y) = (x = y)" by (simp add: word_unat_eq_iff)
  next
    fix x assume "x \<in> issued p"
    then show "unat x \<in> {..<length (pool_nodes p)}" by (simp add: issued_def)
  next
    fix n assume "n \<in> {..<length (pool_nodes p)}"
    then have "n < length (pool_nodes p)" by simp
    with assms have "unat (of_nat n :: OrderHandle) = n"
      by (intro unat_of_nat_handle) simp
    with \<open>n < _\<close> show "\<exists>x\<in>issued p. n = unat x"
      by (intro bexI[of _ "of_nat n"]) (simp_all add: issued_def)
  qed
  then show ?thesis using bij_betw_same_card by fastforce
qed

lemma free_chain_issued: "free_chain ns h fs \<Longrightarrow> x \<in> set fs \<Longrightarrow> unat x < length ns"
  by (induction fs arbitrary: h) auto

lemma free_chain_frame:
  "free_chain ns h fs \<Longrightarrow> length ns \<le> length ns' \<Longrightarrow>
   (\<And>x. x \<in> set fs \<Longrightarrow> ns' ! unat x = ns ! unat x) \<Longrightarrow> free_chain ns' h fs"
  by (induction fs arbitrary: h) auto

lemma pool_rep_issued: "pool_rep p L \<Longrightarrow> h \<in> L \<Longrightarrow> unat h < length (pool_nodes p)"
  by (auto simp: pool_rep_def issued_def)

lemma pool_rep_notnull: "pool_rep p L \<Longrightarrow> kNullHandle \<notin> L"
  by (auto simp: pool_rep_def issued_def)

lemma pool_node_live: "pool_rep p L \<Longrightarrow> h \<in> L \<Longrightarrow> pool_node p h = Some (nd p h)"
  by (simp add: pool_node_def pool_rep_issued nd_def)

lemma pool_order_live: "pool_rep p L \<Longrightarrow> h \<in> L \<Longrightarrow> pool_order p h = Some (ordr p h)"
  by (simp add: pool_order_def pool_node_live)

lemma pool_live_card: "pool_rep p L \<Longrightarrow> pool_live p = card L"
  by (auto simp: pool_rep_def)

text \<open>Writing a live node touches neither the free list nor the other nodes.\<close>

lemma pool_set_node_live:
  assumes "pool_rep p L" and "h \<in> L"
  shows "pool_set_node p h n = Some (p\<lparr>pool_nodes := (pool_nodes p)[unat h := n]\<rparr>)"
    and "pool_rep (p\<lparr>pool_nodes := (pool_nodes p)[unat h := n]\<rparr>) L"
proof -
  have h: "unat h < length (pool_nodes p)" by (rule pool_rep_issued[OF assms])
  then show "pool_set_node p h n = Some (p\<lparr>pool_nodes := (pool_nodes p)[unat h := n]\<rparr>)"
    by (simp add: pool_set_node_def)
  from assms(1) obtain fs where fs: "free_chain (pool_nodes p) (pool_free_head p) fs"
      "distinct fs" "L = issued p - set fs" "length (pool_nodes p) \<le> unat kNullHandle"
      "pool_live p = card L" "pool_live p \<le> pool_high_water_mark p"
      "pool_high_water_mark p \<le> length (pool_nodes p)"
    by (auto simp: pool_rep_def)
  have "free_chain ((pool_nodes p)[unat h := n]) (pool_free_head p) fs"
  proof (rule free_chain_frame[OF fs(1)])
    fix x assume "x \<in> set fs"
    with fs(3) assms(2) have "x \<noteq> h" by auto
    then show "(pool_nodes p)[unat h := n] ! unat x = pool_nodes p ! unat x"
      by (metis nth_list_update_neq word_unat_eq_iff)
  qed simp
  then show "pool_rep (p\<lparr>pool_nodes := (pool_nodes p)[unat h := n]\<rparr>) L"
    using fs by (auto simp: pool_rep_def issued_def)
qed

lemma nd_update [simp]:
  "unat h < length ns \<Longrightarrow> ns[unat h := n] ! unat k = (if k = h then n else ns ! unat k)"
  for h k :: OrderHandle
  by (metis nth_list_update_eq nth_list_update_neq word_unat_eq_iff)

lemma OrderPool_new_rep: "pool_rep (OrderPool_new c) {}"
  by (auto simp: pool_rep_def OrderPool_new_def issued_def intro!: exI[of _ "[]"])

text \<open>Acquiring reuses the head of the free list, or appends a node.\<close>

definition fresh_node :: "Order \<Rightarrow> OrderNode" where
  "fresh_node ord = \<lparr>node_order = ord, node_prev = kNullHandle, node_next = kNullHandle\<rparr>"

lemma acquire_reuse:
  assumes "pool_rep p L" and "pool_free_head p \<noteq> kNullHandle"
  shows "\<exists>h p'. acquire p ord = Some (h, p') \<and> h \<notin> L \<and> pool_rep p' (insert h L) \<and>
           nd p' h = fresh_node ord \<and> (\<forall>k\<in>L. nd p' k = nd p k)"
proof -
  let ?h = "pool_free_head p"
  let ?ns = "(pool_nodes p)[unat ?h := fresh_node ord]"
  let ?p' = "p\<lparr>pool_nodes := ?ns, pool_free_head := node_next (nd p ?h),
               pool_live := pool_live p + 1,
               pool_high_water_mark := max (pool_live p + 1) (pool_high_water_mark p)\<rparr>"
  from assms(1) obtain fs where fs: "free_chain (pool_nodes p) (pool_free_head p) fs"
      "distinct fs" "L = issued p - set fs" "length (pool_nodes p) \<le> unat kNullHandle"
      "pool_live p = card L" "pool_live p \<le> pool_high_water_mark p"
      "pool_high_water_mark p \<le> length (pool_nodes p)"
    by (auto simp: pool_rep_def)
  with assms(2) obtain xs where xs: "fs = ?h # xs"
    by (cases fs) auto
  with fs have h: "unat ?h < length (pool_nodes p)" "?h \<notin> set xs" "?h \<notin> L"
      and tl: "free_chain (pool_nodes p) (node_next (nd p ?h)) xs" by (auto simp: nd_def)
  have eq: "acquire p ord = Some (?h, ?p')"
    using assms(2) h(1)
    by (simp add: acquire_def pool_node_def pool_set_node_def fresh_node_def max_def Let_def nd_def)
  have ins: "insert ?h L = issued p - set xs"
    using fs(3) xs h by (auto simp: issued_def)
  have card: "card (insert ?h L) = pool_live p + 1"
    using fs(5) h(3) fs(3) by simp
  have "card (insert ?h L) \<le> card (issued p)"
    using ins by (intro card_mono) auto
  then have bound: "pool_live p + 1 \<le> length (pool_nodes p)"
    using card issued_card[of p] fs(4) by simp
  have "free_chain ?ns (node_next (nd p ?h)) xs"
    using h(2) h(1) by (intro free_chain_frame[OF tl]) auto
  then have "pool_rep ?p' (insert ?h L)"
    using fs ins card bound xs by (auto simp: pool_rep_def issued_def intro!: exI[of _ xs])
  moreover have "\<forall>k\<in>L. nd ?p' k = nd p k" using h by (auto simp: nd_def)
  moreover have "nd ?p' ?h = fresh_node ord" using h(1) by (simp add: nd_def)
  ultimately show ?thesis using eq h(3) by blast
qed

lemma acquire_append:
  assumes "pool_rep p L" and "pool_free_head p = kNullHandle" and "pool_has_room p"
  shows "\<exists>h p'. acquire p ord = Some (h, p') \<and> h \<notin> L \<and> pool_rep p' (insert h L) \<and>
           nd p' h = fresh_node ord \<and> (\<forall>k\<in>L. nd p' k = nd p k)"
proof -
  let ?n = "length (pool_nodes p)"
  let ?h = "of_nat ?n :: OrderHandle"
  from assms(1) obtain fs where fs: "free_chain (pool_nodes p) (pool_free_head p) fs"
      "distinct fs" "L = issued p - set fs" "?n \<le> unat kNullHandle"
      "pool_live p = card L" "pool_live p \<le> pool_high_water_mark p"
      "pool_high_water_mark p \<le> ?n"
    by (auto simp: pool_rep_def)
  have "fs = []"
  proof (cases fs)
    case (Cons x xs)
    with fs(1) assms(2) have "unat kNullHandle < ?n" by force
    with fs(4) show ?thesis by simp
  qed simp
  then have L: "L = issued p" using fs(3) by simp
  then have n: "?n < 4294967295"
    using assms(3) fs(4,5) issued_card[of p] by (simp add: pool_has_room_def)
  then have uh: "unat ?h = ?n" by (rule unat_of_nat_handle)
  obtain p' where eq: "acquire p ord = Some (?h, p')"
      and p': "pool_nodes p' = pool_nodes p @ [fresh_node ord]" "pool_free_head p' = kNullHandle"
        "pool_live p' = pool_live p + 1"
        "pool_high_water_mark p' = max (pool_live p + 1) (pool_high_water_mark p)"
    using assms(2) n by (auto simp: acquire_def fresh_node_def Let_def max_def)
  have nin: "?h \<notin> L" using L uh by (simp add: issued_def)
  have iss: "issued p' = insert ?h L"
  proof -
    have "unat k < Suc ?n \<longleftrightarrow> k = ?h \<or> unat k < ?n" for k :: OrderHandle
      using uh by (metis less_Suc_eq word_unat_eq_iff)
    then show ?thesis using L p'(1) by (auto simp: issued_def)
  qed
  have "card (insert ?h L) = pool_live p + 1" using nin fs(5) L by simp
  then have "pool_rep p' (insert ?h L)"
    using p' iss n fs(5-7) by (auto simp: pool_rep_def intro!: exI[of _ "[]"])
  moreover have "\<forall>k\<in>L. nd p' k = nd p k"
    using p'(1) L by (auto simp: nth_append issued_def nd_def)
  moreover have "nd p' ?h = fresh_node ord" using p'(1) uh by (simp add: nd_def)
  ultimately show ?thesis using eq nin by blast
qed

lemma acquire_live:
  assumes "pool_rep p L" and "pool_has_room p"
  shows "\<exists>h p'. acquire p ord = Some (h, p') \<and> h \<notin> L \<and> pool_rep p' (insert h L) \<and>
           nd p' h = fresh_node ord \<and> (\<forall>k\<in>L. nd p' k = nd p k)"
  using acquire_reuse[OF assms(1)] acquire_append[OF assms(1) _ assms(2)] by blast

lemma release_live:
  assumes "pool_rep p L" and "h \<in> L"
  shows "\<exists>p'. release p h = Some p' \<and> pool_rep p' (L - {h}) \<and> (\<forall>k\<in>L - {h}. nd p' k = nd p k)"
proof -
  let ?n = "(nd p h)\<lparr>node_prev := kNullHandle, node_next := pool_free_head p\<rparr>"
  let ?p' = "p\<lparr>pool_nodes := (pool_nodes p)[unat h := ?n], pool_free_head := h,
               pool_live := pool_live p - 1\<rparr>"
  have h: "unat h < length (pool_nodes p)" by (rule pool_rep_issued[OF assms])
  from assms(1) obtain fs where fs: "free_chain (pool_nodes p) (pool_free_head p) fs"
      "distinct fs" "L = issued p - set fs" "length (pool_nodes p) \<le> unat kNullHandle"
      "pool_live p = card L" "pool_live p \<le> pool_high_water_mark p"
      "pool_high_water_mark p \<le> length (pool_nodes p)"
    by (auto simp: pool_rep_def)
  have fin: "finite L" using fs(3) by simp
  have pos: "pool_live p > 0" using fs(5) assms(2) fin by (auto simp: card_gt_0_iff)
  have eq: "release p h = Some ?p'"
    using h pos by (simp add: release_def pool_node_def pool_set_node_def nd_def)
  have "free_chain (pool_nodes ?p') h (h # fs)"
    using h fs(3) assms(2) by (auto intro!: free_chain_frame[OF fs(1)] simp: nd_def)
  moreover have "L - {h} = issued ?p' - set (h # fs)"
    using fs(3) by (auto simp: issued_def)
  moreover have "distinct (h # fs)" using fs(2,3) assms(2) by auto
  moreover have "pool_live p - 1 = card (L - {h})" using fs(5) assms(2) fin by simp
  moreover have "pool_live p - 1 \<le> pool_high_water_mark p" using fs(6) by linarith
  ultimately have "pool_rep ?p' (L - {h})"
    using fs(4,7) h unfolding pool_rep_def by (intro exI[of _ "h # fs"]) simp
  then show ?thesis using eq h by (intro exI[of _ ?p']) (simp add: nd_def)
qed

text \<open>The same facts through the checked accessor, as the contract states them.\<close>

lemma pool_get_live: "pool_rep p L \<Longrightarrow> h \<in> L \<Longrightarrow> \<exists>n. pool_node p h = Some n"
  by (simp add: pool_node_live)

lemma pool_put_live:
  assumes rep: "pool_rep p L" and h: "h \<in> L"
  shows "\<exists>p'. pool_set_node p h n = Some p' \<and> pool_rep p' L \<and> pool_node p' h = Some n \<and>
           (\<forall>k\<in>L - {h}. pool_node p' k = pool_node p k)"
proof -
  note w = pool_set_node_live[OF rep h, of n]
  have "unat h < length (pool_nodes p)" by (rule pool_rep_issued[OF rep h])
  with w show ?thesis
    by (intro exI[of _ "p\<lparr>pool_nodes := (pool_nodes p)[unat h := n]\<rparr>"])
       (simp add: pool_node_def vget_def)
qed

lemma pool_acquire_live:
  assumes rep: "pool_rep p L" and "pool_has_room p"
  shows "\<exists>h p'. acquire p x = Some (h, p') \<and> h \<notin> L \<and> pool_rep p' (insert h L) \<and>
      pool_node p' h = Some (fresh_node x) \<and> (\<forall>k\<in>L. pool_node p' k = pool_node p k)"
proof -
  obtain h p' where a: "acquire p x = Some (h, p')" "h \<notin> L" "pool_rep p' (insert h L)"
      "nd p' h = fresh_node x" "\<forall>k\<in>L. nd p' k = nd p k"
    using acquire_live[OF assms] by blast
  have "pool_node p' h = Some (fresh_node x)" using pool_node_live[OF a(3), of h] a(4) by simp
  moreover have "\<forall>k\<in>L. pool_node p' k = pool_node p k"
    using pool_node_live[OF a(3)] pool_node_live[OF rep] a(5) by simp
  ultimately show ?thesis using a(1-3) by blast
qed

lemma pool_release_live:
  assumes rep: "pool_rep p L" and "h \<in> L"
  shows "\<exists>p'. release p h = Some p' \<and> pool_rep p' (L - {h}) \<and>
      (\<forall>k\<in>L - {h}. pool_node p' k = pool_node p k)"
proof -
  obtain p' where r: "release p h = Some p'" "pool_rep p' (L - {h})"
      "\<forall>k\<in>L - {h}. nd p' k = nd p k"
    using release_live[OF assms] by blast
  have "\<forall>k\<in>L - {h}. pool_node p' k = pool_node p k"
    using pool_node_live[OF r(2)] pool_node_live[OF rep] r(3) by simp
  then show ?thesis using r by blast
qed

lemma pool_rep_finite: "pool_rep p L \<Longrightarrow> finite L"
  by (auto simp: pool_rep_def)

interpretation op: slab pool_rep pool_node pool_set_node acquire release fresh_node pool_has_room
  by (rule slab.intro) (rule pool_get_live pool_put_live pool_acquire_live pool_release_live
      pool_rep_finite; assumption)+

end
