(* ===== verification/Price_Level.thy ===== *)
theory Price_Level
  imports Order_Pool
begin

text \<open>
  The FIFO queue of one price: \<open>include/xc/core/price_level.hpp\<close> and \<open>src/core/price_level.cpp\<close>.

  An intrusive doubly linked list threaded through the order slab.  \<open>level_rep p lvl hs\<close> relates
  a level to the list of handles it holds, first in line first; \<open>push_back\<close> appends to that
  list, \<open>unlink\<close> removes one element of it wherever it stands, and the level's running total
  is the sum of what its orders have left.
\<close>

section \<open>Model\<close>

record PriceLevel =
  lvl_head :: OrderHandle
  lvl_tail :: OrderHandle
  lvl_total_quantity :: Quantity
  lvl_order_count :: u32

definition PriceLevel_default :: PriceLevel where
  "PriceLevel_default =
     \<lparr>lvl_head = kNullHandle, lvl_tail = kNullHandle, lvl_total_quantity = 0, lvl_order_count = 0\<rparr>"

definition level_front :: "PriceLevel \<Rightarrow> OrderHandle" where
  "level_front lvl = lvl_head lvl"

definition level_empty :: "PriceLevel \<Rightarrow> bool" where
  "level_empty lvl \<longleftrightarrow> lvl_head lvl = kNullHandle"

definition push_back :: "OrderPool \<Rightarrow> PriceLevel \<Rightarrow> OrderHandle \<Rightarrow> (OrderPool \<times> PriceLevel) option" where
  "push_back p lvl handle = do {
     node \<leftarrow> pool_node p handle;
     p1 \<leftarrow> pool_set_node p handle (node\<lparr>node_next := kNullHandle, node_prev := lvl_tail lvl\<rparr>);
     (p2, head) \<leftarrow>
       (if lvl_tail lvl = kNullHandle then Some (p1, handle)
        else do {
          last \<leftarrow> pool_node p1 (lvl_tail lvl);
          p' \<leftarrow> pool_set_node p1 (lvl_tail lvl) (last\<lparr>node_next := handle\<rparr>);
          Some (p', lvl_head lvl)
        });
     node2 \<leftarrow> pool_node p2 handle;
     Some (p2, lvl\<lparr>lvl_head := head, lvl_tail := handle,
       lvl_total_quantity := lvl_total_quantity lvl + ord_remaining (node_order node2),
       lvl_order_count := lvl_order_count lvl + 1\<rparr>)
   }"

definition unlink :: "OrderPool \<Rightarrow> PriceLevel \<Rightarrow> OrderHandle \<Rightarrow> (OrderPool \<times> PriceLevel) option" where
  "unlink p lvl handle = do {
     assert_that (lvl_order_count lvl > 0);
     node \<leftarrow> pool_node p handle;
     (p1, head) \<leftarrow>
       (if node_prev node \<noteq> kNullHandle then do {
          before \<leftarrow> pool_node p (node_prev node);
          p' \<leftarrow> pool_set_node p (node_prev node) (before\<lparr>node_next := node_next node\<rparr>);
          Some (p', lvl_head lvl)
        } else do {
          assert_that (lvl_head lvl = handle);
          Some (p, node_next node)
        });
     node1 \<leftarrow> pool_node p1 handle;
     (p2, tail) \<leftarrow>
       (if node_next node1 \<noteq> kNullHandle then do {
          after \<leftarrow> pool_node p1 (node_next node1);
          p' \<leftarrow> pool_set_node p1 (node_next node1) (after\<lparr>node_prev := node_prev node1\<rparr>);
          Some (p', lvl_tail lvl)
        } else do {
          assert_that (lvl_tail lvl = handle);
          Some (p1, node_prev node1)
        });
     node2 \<leftarrow> pool_node p2 handle;
     p3 \<leftarrow> pool_set_node p2 handle (node2\<lparr>node_prev := kNullHandle, node_next := kNullHandle\<rparr>);
     assert_that (lvl_total_quantity lvl \<ge> ord_remaining (node_order node2));
     Some (p3, lvl\<lparr>lvl_head := head, lvl_tail := tail,
       lvl_total_quantity := lvl_total_quantity lvl - ord_remaining (node_order node2),
       lvl_order_count := lvl_order_count lvl - 1\<rparr>)
   }"

definition level_reduce :: "PriceLevel \<Rightarrow> Quantity \<Rightarrow> PriceLevel option" where
  "level_reduce lvl quantity = do {
     assert_that (lvl_total_quantity lvl \<ge> quantity);
     Some (lvl\<lparr>lvl_total_quantity := lvl_total_quantity lvl - quantity\<rparr>)
   }"

text \<open>A segment of a doubly linked list, entered at \<open>h\<close> from \<open>p\<close> and left at \<open>t\<close> towards \<open>n\<close>.\<close>

fun seg :: "(OrderHandle \<Rightarrow> OrderNode) \<Rightarrow> OrderHandle \<Rightarrow> OrderHandle \<Rightarrow> OrderHandle list \<Rightarrow>
    OrderHandle \<Rightarrow> OrderHandle \<Rightarrow> bool" where
  "seg N p h [] t n = (h = n \<and> t = p)"
| "seg N p h (x # xs) t n = (h = x \<and> node_prev (N x) = p \<and> seg N x (node_next (N x)) xs t n)"

definition qty_sum :: "Order list \<Rightarrow> nat" where
  "qty_sum os = sum_list (map (\<lambda>x. unat (ord_remaining x)) os)"

definition level_rep :: "OrderPool \<Rightarrow> PriceLevel \<Rightarrow> OrderHandle list \<Rightarrow> bool" where
  "level_rep p lvl hs \<longleftrightarrow>
     seg (nd p) kNullHandle (lvl_head lvl) hs (lvl_tail lvl) kNullHandle \<and> distinct hs \<and>
     unat (lvl_total_quantity lvl) = qty_sum (map (ordr p) hs) \<and>
     lvl_order_count lvl = of_nat (length hs)"

section \<open>Linked segments\<close>

lemma seg_append:
  "seg N p h (xs @ ys) t n \<longleftrightarrow> (\<exists>m k. seg N p h xs m k \<and> seg N m k ys t n)"
  by (induction xs arbitrary: p h) auto

lemma seg_frame:
  assumes "\<And>x. x \<in> set xs \<Longrightarrow> node_prev (N' x) = node_prev (N x) \<and> node_next (N' x) = node_next (N x)"
  shows "seg N' p h xs t n = seg N p h xs t n"
  using assms by (induction xs arbitrary: p h) auto

lemma seg_tail: "seg N p h xs t n \<Longrightarrow> t = (if xs = [] then p else last xs)"
  by (induction xs arbitrary: p h) auto

lemma seg_head: "seg N p h xs t n \<Longrightarrow> h = (if xs = [] then n else hd xs)"
  by (cases xs) auto

text \<open>Redirecting the last \<open>next\<close> link, and the first \<open>prev\<close> link.\<close>

lemma seg_set_next:
  assumes "seg N p h xs t n" and "xs \<noteq> []" and "distinct xs"
  shows "seg (N(t := (N t)\<lparr>node_next := n'\<rparr>)) p h xs t n'"
proof -
  obtain ys z where xs: "xs = ys @ [z]" using assms(2) by (meson rev_exhaust)
  with assms(1) have t: "t = z" using seg_tail[OF assms(1)] by simp
  have "seg N p h ys (node_prev (N z)) z"
    using assms(1) xs by (auto simp: seg_append)
  then have "seg (N(z := (N z)\<lparr>node_next := n'\<rparr>)) p h ys (node_prev (N z)) z"
    using assms(3) xs by (subst seg_frame[where N = N]) auto
  then show ?thesis unfolding xs t by (subst seg_append) auto
qed

lemma seg_set_prev:
  assumes "seg N p h (y # ys) t n" and "y \<notin> set ys"
  shows "seg (N(y := (N y)\<lparr>node_prev := p'\<rparr>)) p' h (y # ys) t n"
proof -
  have "seg (N(y := (N y)\<lparr>node_prev := p'\<rparr>)) y (node_next (N y)) ys t n =
      seg N y (node_next (N y)) ys t n"
    using assms(2) by (intro seg_frame) auto
  then show ?thesis using assms(1) by simp
qed

lemma nd_fun_upd:
  assumes "unat h < length (pool_nodes p)"
  shows "nd (p\<lparr>pool_nodes := (pool_nodes p)[unat h := n]\<rparr>) = (nd p)(h := n)"
  using assms by (intro ext) (simp add: nd_def)

text \<open>Writing a node is a function update of the node map.\<close>

lemma put_node:
  assumes "pool_rep p L" and "h \<in> L"
  obtains p' where "pool_set_node p h n = Some p'" "pool_rep p' L" "nd p' = (nd p)(h := n)"
proof
  show "pool_set_node p h n = Some (p\<lparr>pool_nodes := (pool_nodes p)[unat h := n]\<rparr>)"
    and "pool_rep (p\<lparr>pool_nodes := (pool_nodes p)[unat h := n]\<rparr>) L"
    by (rule pool_set_node_live[OF assms])+
  show "nd (p\<lparr>pool_nodes := (pool_nodes p)[unat h := n]\<rparr>) = (nd p)(h := n)"
    by (rule nd_fun_upd[OF pool_rep_issued[OF assms]])
qed

lemma get_node: "pool_rep p L \<Longrightarrow> h \<in> L \<Longrightarrow> pool_node p h = Some (nd p h)"
  by (rule pool_node_live)

lemma qty_sum_simps [simp]:
  "qty_sum [] = 0" "qty_sum (x # xs) = unat (ord_remaining x) + qty_sum xs"
  "qty_sum (xs @ ys) = qty_sum xs + qty_sum ys"
  by (simp_all add: qty_sum_def)

lemma level_rep_frame:
  assumes "level_rep p lvl hs" and "\<And>h. h \<in> set hs \<Longrightarrow> nd p' h = nd p h"
  shows "level_rep p' lvl hs"
proof -
  have "map (ordr p') hs = map (ordr p) hs" using assms(2) by simp
  moreover have "seg (nd p') kNullHandle (lvl_head lvl) hs (lvl_tail lvl) kNullHandle =
      seg (nd p) kNullHandle (lvl_head lvl) hs (lvl_tail lvl) kNullHandle"
    using assms(2) by (intro seg_frame) auto
  ultimately show ?thesis using assms(1) by (simp add: level_rep_def del: map_eq_conv)
qed

lemma level_rep_default: "level_rep p PriceLevel_default []"
  by (simp add: level_rep_def PriceLevel_default_def)

lemma level_rep_front:
  "level_rep p lvl hs \<Longrightarrow> level_front lvl = (if hs = [] then kNullHandle else hd hs)"
  using seg_head[of "nd p" kNullHandle "lvl_head lvl" hs "lvl_tail lvl" kNullHandle]
  by (simp add: level_rep_def level_front_def)

lemma level_rep_empty:
  "level_rep p lvl hs \<Longrightarrow> kNullHandle \<notin> set hs \<Longrightarrow> level_empty lvl \<longleftrightarrow> hs = []"
  using level_rep_front[of p lvl hs]
  by (cases hs) (auto simp: level_empty_def level_front_def)

section \<open>Appending\<close>

lemma push_back_rep:
  assumes rep: "pool_rep p L" and lvl: "level_rep p lvl hs"
    and sub: "set hs \<subseteq> L" and h: "h \<in> L" "h \<notin> set hs"
    and room: "qty_sum (map (ordr p) hs) + unat (ord_remaining (ordr p h)) < 2 ^ 64"
  shows "\<exists>p' lvl'. push_back p lvl h = Some (p', lvl') \<and> pool_rep p' L \<and>
           level_rep p' lvl' (hs @ [h]) \<and> (\<forall>k. ordr p' k = ordr p k) \<and>
           (\<forall>k. k \<notin> set hs \<longrightarrow> k \<noteq> h \<longrightarrow> nd p' k = nd p k)"
proof -
  let ?t = "lvl_tail lvl" and ?n0 = "(nd p h)\<lparr>node_next := kNullHandle, node_prev := lvl_tail lvl\<rparr>"
  have sg: "seg (nd p) kNullHandle (lvl_head lvl) hs ?t kNullHandle" and d: "distinct hs"
    and tot: "unat (lvl_total_quantity lvl) = qty_sum (map (ordr p) hs)"
    and cnt: "lvl_order_count lvl = of_nat (length hs)"
    using lvl by (auto simp: level_rep_def)
  obtain p1 where p1: "pool_set_node p h ?n0 = Some p1" "pool_rep p1 L" "nd p1 = (nd p)(h := ?n0)"
    using put_node[OF rep h(1)] .
  have nn: "kNullHandle \<notin> L" by (rule pool_rep_notnull[OF rep])
  have "hs \<noteq> [] \<Longrightarrow> last hs \<in> L" using sub last_in_set by blast
  then have tn: "?t = kNullHandle \<longleftrightarrow> hs = []"
    using seg_tail[OF sg] nn by (cases "hs = []") auto
  have sum: "unat (lvl_total_quantity lvl + ord_remaining (ordr p h)) =
      qty_sum (map (ordr p) hs) + unat (ord_remaining (ordr p h))"
    using room tot by (simp add: unat_word_ariths)
  show ?thesis
  proof (cases "hs = []")
    case True
    let ?lvl = "lvl\<lparr>lvl_head := h, lvl_tail := h,
      lvl_total_quantity := lvl_total_quantity lvl + ord_remaining (ordr p h),
      lvl_order_count := lvl_order_count lvl + 1\<rparr>"
    have "push_back p lvl h = Some (p1, ?lvl)"
      using True tn p1 by (simp add: push_back_def get_node[OF rep h(1)] get_node[OF p1(2) h(1)])
    moreover have "level_rep p1 ?lvl (hs @ [h])"
      using True p1(3) sum cnt tn by (simp add: level_rep_def)
    ultimately show ?thesis using p1 by auto
  next
    case False
    then have t: "?t \<in> set hs" "?t \<in> L" "?t \<noteq> kNullHandle" "?t \<noteq> h"
      using seg_tail[OF sg] sub h tn by auto
    let ?n1 = "(nd p1 ?t)\<lparr>node_next := h\<rparr>"
    obtain p2 where p2: "pool_set_node p1 ?t ?n1 = Some p2" "pool_rep p2 L"
        "nd p2 = (nd p1)(?t := ?n1)"
      using put_node[OF p1(2) t(2)] .
    let ?lvl = "lvl\<lparr>lvl_tail := h,
      lvl_total_quantity := lvl_total_quantity lvl + ord_remaining (ordr p h),
      lvl_order_count := lvl_order_count lvl + 1\<rparr>"
    have nd2: "nd p2 = (nd p)(h := ?n0, ?t := (nd p ?t)\<lparr>node_next := h\<rparr>)"
      using p2(3) p1(3) t(4) by auto
    have ord2: "ordr p2 k = ordr p k" for k using nd2 t(4) by simp
    have "push_back p lvl h = Some (p2, ?lvl)"
      using p1(1) p2(1) t(3) ord2[of h]
      by (simp add: push_back_def get_node[OF rep h(1)] get_node[OF p1(2) t(2)]
          get_node[OF p2(2) h(1)])
    moreover have "seg (nd p2) kNullHandle (lvl_head lvl) (hs @ [h]) h kNullHandle"
    proof -
      have "seg ((nd p)(?t := (nd p ?t)\<lparr>node_next := h\<rparr>)) kNullHandle (lvl_head lvl) hs ?t h"
        by (rule seg_set_next[OF sg False d])
      then have "seg (nd p2) kNullHandle (lvl_head lvl) hs ?t h"
        using nd2 h(2) by (subst seg_frame[where N = "(nd p)(?t := (nd p ?t)\<lparr>node_next := h\<rparr>)"]) auto
      then show ?thesis using nd2 t(4) by (auto simp: seg_append)
    qed
    moreover have "map (ordr p2) hs = map (ordr p) hs" using ord2 by simp
    ultimately have "level_rep p2 ?lvl (hs @ [h])"
      using d h(2) sum cnt ord2 by (simp add: level_rep_def del: map_eq_conv)
    with \<open>push_back p lvl h = _\<close> show ?thesis using p2(2) ord2 nd2 t(1) by auto
  qed
qed

section \<open>Unlinking\<close>

text \<open>
  The two link writes of \<open>unlink\<close>, each with the case in which there is no neighbour on that
  side, and then the whole operation.
\<close>

lemma relink_before:
  assumes rep: "pool_rep p L" and sg: "seg (nd p) kNullHandle hd0 (xs @ h # ys) tl0 kNullHandle"
    and d: "distinct (xs @ h # ys)" and sub: "set (xs @ h # ys) \<subseteq> L"
  shows "\<exists>p1 hd1.
     (if node_prev (nd p h) \<noteq> kNullHandle then do {
        before \<leftarrow> pool_node p (node_prev (nd p h));
        p' \<leftarrow> pool_set_node p (node_prev (nd p h)) (before\<lparr>node_next := node_next (nd p h)\<rparr>);
        Some (p', hd0)
      } else do { assert_that (hd0 = h); Some (p, node_next (nd p h)) }) = Some (p1, hd1) \<and>
     pool_rep p1 L \<and> (\<forall>k. ordr p1 k = ordr p k) \<and> (\<forall>k. k \<notin> set xs \<longrightarrow> nd p1 k = nd p k) \<and>
     seg (nd p1) kNullHandle hd1 xs (node_prev (nd p h)) (node_next (nd p h))"
proof -
  let ?m = "node_prev (nd p h)" and ?k = "node_next (nd p h)"
  have a: "seg (nd p) kNullHandle hd0 xs ?m h" using sg by (auto simp: seg_append)
  have nn: "kNullHandle \<notin> L" by (rule pool_rep_notnull[OF rep])
  show ?thesis
  proof (cases "xs = []")
    case True
    with a have "?m = kNullHandle" "hd0 = h" by auto
    then show ?thesis using True rep by simp
  next
    case False
    with seg_tail[OF a] have "?m \<in> set xs" by simp
    with sub nn have m: "?m \<in> set xs" "?m \<in> L" "?m \<noteq> kNullHandle" by auto
    obtain p1 where p1: "pool_set_node p ?m ((nd p ?m)\<lparr>node_next := ?k\<rparr>) = Some p1" "pool_rep p1 L"
        "nd p1 = (nd p)(?m := (nd p ?m)\<lparr>node_next := ?k\<rparr>)"
      using put_node[OF rep m(2)] .
    have "seg (nd p1) kNullHandle hd0 xs ?m ?k"
      unfolding p1(3) by (rule seg_set_next[OF a False]) (use d in simp)
    then show ?thesis
      using m p1 by (intro exI[of _ p1] exI[of _ hd0]) (simp add: get_node[OF rep m(2)])
  qed
qed

lemma relink_after:
  assumes rep: "pool_rep p L" and sg: "seg (nd p) h (node_next (nd p h)) ys tl0 kNullHandle"
    and d: "distinct (h # ys)" and sub: "set (h # ys) \<subseteq> L"
  shows "\<exists>p2 tl1.
     (if node_next (nd p h) \<noteq> kNullHandle then do {
        after \<leftarrow> pool_node p (node_next (nd p h));
        p' \<leftarrow> pool_set_node p (node_next (nd p h)) (after\<lparr>node_prev := node_prev (nd p h)\<rparr>);
        Some (p', tl0)
      } else do { assert_that (tl0 = h); Some (p, node_prev (nd p h)) }) = Some (p2, tl1) \<and>
     pool_rep p2 L \<and> (\<forall>k. ordr p2 k = ordr p k) \<and> (\<forall>k. k \<notin> set ys \<longrightarrow> nd p2 k = nd p k) \<and>
     seg (nd p2) (node_prev (nd p h)) (node_next (nd p h)) ys tl1 kNullHandle"
proof (cases ys)
  case Nil
  with sg show ?thesis using rep by simp
next
  case (Cons y zs)
  let ?m = "node_prev (nd p h)" and ?k = "node_next (nd p h)"
  have k: "?k = y" "y \<in> L" "y \<noteq> kNullHandle"
    using sg Cons sub pool_rep_notnull[OF rep] by auto
  obtain p2 where p2: "pool_set_node p y ((nd p y)\<lparr>node_prev := ?m\<rparr>) = Some p2" "pool_rep p2 L"
      "nd p2 = (nd p)(y := (nd p y)\<lparr>node_prev := ?m\<rparr>)"
    using put_node[OF rep k(2)] .
  have "seg (nd p2) ?m ?k ys tl0 kNullHandle"
    unfolding p2(3) Cons by (rule seg_set_prev) (use sg d Cons in auto)
  then show ?thesis
    using k p2 Cons by (intro exI[of _ p2] exI[of _ tl0]) (simp add: get_node[OF rep k(2)])
qed

lemma unlink_rep:
  assumes rep: "pool_rep p L" and lvl: "level_rep p lvl (xs @ h # ys)"
    and sub: "set (xs @ h # ys) \<subseteq> L"
  shows "\<exists>p' lvl'. unlink p lvl h = Some (p', lvl') \<and> pool_rep p' L \<and>
           level_rep p' lvl' (xs @ ys) \<and> (\<forall>k. ordr p' k = ordr p k) \<and>
           (\<forall>k. k \<notin> set (xs @ h # ys) \<longrightarrow> nd p' k = nd p k)"
proof -
  have sg: "seg (nd p) kNullHandle (lvl_head lvl) (xs @ h # ys) (lvl_tail lvl) kNullHandle"
    and d: "distinct (xs @ h # ys)"
    and tot: "unat (lvl_total_quantity lvl) = qty_sum (map (ordr p) (xs @ h # ys))"
    and cnt: "lvl_order_count lvl = of_nat (length (xs @ h # ys))"
    using lvl by (auto simp: level_rep_def)
  have hL: "h \<in> L" using sub by simp
  let ?m = "node_prev (nd p h)" and ?k = "node_next (nd p h)"
  obtain p1 hd1 where 1: "(if ?m \<noteq> kNullHandle then do {
        before \<leftarrow> pool_node p ?m; p' \<leftarrow> pool_set_node p ?m (before\<lparr>node_next := ?k\<rparr>);
        Some (p', lvl_head lvl)
      } else do { assert_that (lvl_head lvl = h); Some (p, ?k) }) = Some (p1, hd1)"
      "pool_rep p1 L" "\<And>k. ordr p1 k = ordr p k" "\<And>k. k \<notin> set xs \<Longrightarrow> nd p1 k = nd p k"
      "seg (nd p1) kNullHandle hd1 xs ?m ?k"
    using relink_before[OF rep sg d sub] by blast
  have h1: "nd p1 h = nd p h" using 1(4) d by simp
  have "seg (nd p) h ?k ys (lvl_tail lvl) kNullHandle" using sg by (auto simp: seg_append)
  moreover have ys1: "nd p1 x = nd p x" if "x \<in> set ys" for x using 1(4) d that by auto
  ultimately have "seg (nd p1) h (node_next (nd p1 h)) ys (lvl_tail lvl) kNullHandle"
    unfolding h1 by (subst seg_frame[where N = "nd p"]) auto
  then obtain p2 tl1 where 2: "(if node_next (nd p1 h) \<noteq> kNullHandle then do {
        after \<leftarrow> pool_node p1 (node_next (nd p1 h));
        p' \<leftarrow> pool_set_node p1 (node_next (nd p1 h)) (after\<lparr>node_prev := node_prev (nd p1 h)\<rparr>);
        Some (p', lvl_tail lvl)
      } else do { assert_that (lvl_tail lvl = h); Some (p1, node_prev (nd p1 h)) }) = Some (p2, tl1)"
      "pool_rep p2 L" "\<And>k. ordr p2 k = ordr p1 k" "\<And>k. k \<notin> set ys \<Longrightarrow> nd p2 k = nd p1 k"
      "seg (nd p2) ?m ?k ys tl1 kNullHandle"
    using relink_after[OF 1(2), of h ys "lvl_tail lvl"] d sub unfolding h1 by auto
  obtain p3 where 3: "pool_set_node p2 h ((nd p2 h)\<lparr>node_prev := kNullHandle, node_next := kNullHandle\<rparr>)
        = Some p3" "pool_rep p3 L"
      "nd p3 = (nd p2)(h := (nd p2 h)\<lparr>node_prev := kNullHandle, node_next := kNullHandle\<rparr>)"
    using put_node[OF 2(2) hL] .
  have ord3: "ordr p3 k = ordr p k" for k using 3(3) 2(3) 1(3) by simp
  let ?r = "ord_remaining (ordr p h)"
  let ?lvl = "lvl\<lparr>lvl_head := hd1, lvl_tail := tl1,
      lvl_total_quantity := lvl_total_quantity lvl - ?r,
      lvl_order_count := lvl_order_count lvl - 1\<rparr>"
  have "length (xs @ h # ys) < 2 ^ 32"
  proof -
    have "card (set (xs @ h # ys)) \<le> card (UNIV :: OrderHandle set)"
      by (rule card_mono) auto
    moreover have "card (UNIV - {kNullHandle}) < card (UNIV :: OrderHandle set)"
      by (rule psubset_card_mono) auto
    moreover have "card (set (xs @ h # ys)) \<le> card (UNIV - {kNullHandle} :: OrderHandle set)"
      using sub pool_rep_notnull[OF rep] by (intro card_mono) auto
    ultimately show ?thesis by (simp only: distinct_card[OF d] card_word) simp
  qed
  then have c: "lvl_order_count lvl > 0"
    using cnt by (simp add: word_gt_0 word_unat_eq_iff unat_of_nat del: of_nat_Suc of_nat_add)
  have r: "?r \<le> lvl_total_quantity lvl" using tot by (simp add: word_le_nat_alt)
  have eq: "unlink p lvl h = Some (p3, ?lvl)"
    using 1(1) 2(1) 3(1) c r 2(3)[of h] 1(3)[of h]
    by (simp add: unlink_def get_node[OF rep hL] get_node[OF 1(2) hL] get_node[OF 2(2) hL])
  have "nd p2 x = nd p1 x" if "x \<in> set xs" for x using 2(4) d that by auto
  then have "seg (nd p2) kNullHandle hd1 xs ?m ?k"
    using 1(5) by (subst seg_frame[where N = "nd p1"]) auto
  then have "seg (nd p2) kNullHandle hd1 (xs @ ys) tl1 kNullHandle"
    using 2(5) by (auto simp: seg_append)
  then have "seg (nd p3) kNullHandle hd1 (xs @ ys) tl1 kNullHandle"
    using 3(3) d by (subst seg_frame[where N = "nd p2"]) auto
  moreover have "unat (lvl_total_quantity lvl - ?r) = qty_sum (map (ordr p3) (xs @ ys))"
    using tot r ord3 by (simp add: unat_sub)
  ultimately have "level_rep p3 ?lvl (xs @ ys)"
    using d cnt by (simp add: level_rep_def)
  moreover have "\<forall>k. k \<notin> set (xs @ h # ys) \<longrightarrow> nd p3 k = nd p k"
    using 3(3) 2(4) 1(4) by simp
  ultimately show ?thesis using eq 3(2) ord3 by blast
qed

section \<open>Shrinking an order in place\<close>

text \<open>
  A partial fill or an amendment writes a smaller \<open>remaining\<close> into a resting order and takes the
  difference off the level's total.
\<close>

lemma level_shrink_rep:
  assumes rep: "pool_rep p L" and lvl: "level_rep p lvl (xs @ h # ys)"
    and sub: "set (xs @ h # ys) \<subseteq> L"
    and q: "q \<le> ord_remaining (ordr p h)" and ord': "ord_remaining ord' = ord_remaining (ordr p h) - q"
  shows "\<exists>p' lvl'. pool_set_order p h ord' = Some p' \<and> level_reduce lvl q = Some lvl' \<and>
           pool_rep p' L \<and> level_rep p' lvl' (xs @ h # ys) \<and> ordr p' h = ord' \<and>
           (\<forall>k. k \<noteq> h \<longrightarrow> nd p' k = nd p k)"
proof -
  have hL: "h \<in> L" using sub by simp
  have sg: "seg (nd p) kNullHandle (lvl_head lvl) (xs @ h # ys) (lvl_tail lvl) kNullHandle"
    and d: "distinct (xs @ h # ys)"
    and tot: "unat (lvl_total_quantity lvl) = qty_sum (map (ordr p) (xs @ h # ys))"
    and cnt: "lvl_order_count lvl = of_nat (length (xs @ h # ys))"
    using lvl by (auto simp: level_rep_def)
  obtain p' where p': "pool_set_node p h ((nd p h)\<lparr>node_order := ord'\<rparr>) = Some p'" "pool_rep p' L"
      "nd p' = (nd p)(h := (nd p h)\<lparr>node_order := ord'\<rparr>)"
    using put_node[OF rep hL] .
  let ?lvl = "lvl\<lparr>lvl_total_quantity := lvl_total_quantity lvl - q\<rparr>"
  have qr: "unat q \<le> unat (ord_remaining (ordr p h))" using q by (simp add: word_le_nat_alt)
  then have le: "unat q \<le> unat (lvl_total_quantity lvl)" using tot by simp
  then have qle: "q \<le> lvl_total_quantity lvl" by (simp add: word_le_nat_alt)
  have "seg (nd p') kNullHandle (lvl_head lvl) (xs @ h # ys) (lvl_tail lvl) kNullHandle"
    using sg p'(3) by (subst seg_frame[where N = "nd p"]) auto
  moreover have "map (ordr p') xs = map (ordr p) xs" "map (ordr p') ys = map (ordr p) ys"
    using p'(3) d by auto
  moreover have "unat (lvl_total_quantity lvl - q) =
      qty_sum (map (ordr p) xs) + (unat (ord_remaining ord') + qty_sum (map (ordr p) ys))"
    using tot qle q ord' qr by (simp add: unat_sub)
  ultimately have "level_rep p' ?lvl (xs @ h # ys)"
    using d cnt p'(3) by (simp add: level_rep_def del: map_eq_conv)
  then show ?thesis
    using p' qle by (simp add: pool_set_order_def get_node[OF rep hL] level_reduce_def)
qed

section \<open>The contract of a FIFO queue\<close>

text \<open>
  What the matching loop relies on: \<open>rep s hs\<close> says that the queue of \<open>s\<close> is \<open>hs\<close>, first in
  line first.  Draining a queue from the front yields its elements in that order.
\<close>

locale fifo_queue =
  fixes rep :: "'s \<Rightarrow> 'h list \<Rightarrow> bool"
    and pushable :: "'s \<Rightarrow> 'h list \<Rightarrow> 'h \<Rightarrow> bool"
    and push :: "'s \<Rightarrow> 'h \<Rightarrow> 's option"
    and remove :: "'s \<Rightarrow> 'h \<Rightarrow> 's option"
    and front :: "'s \<Rightarrow> 'h"
  assumes push_last: "rep s hs \<Longrightarrow> pushable s hs h \<Longrightarrow> \<exists>s'. push s h = Some s' \<and> rep s' (hs @ [h])"
    and remove_any: "rep s (xs @ h # ys) \<Longrightarrow> \<exists>s'. remove s h = Some s' \<and> rep s' (xs @ ys)"
    and front_hd: "rep s (h # hs) \<Longrightarrow> front s = h"
begin

fun drain :: "nat \<Rightarrow> 's \<Rightarrow> ('h list \<times> 's) option" where
  "drain 0 s = Some ([], s)"
| "drain (Suc n) s = do {
     s' \<leftarrow> remove s (front s);
     (hs, s'') \<leftarrow> drain n s';
     Some (front s # hs, s'')
   }"

lemma drain_fifo:
  "rep s hs \<Longrightarrow> n \<le> length hs \<Longrightarrow>
   \<exists>s'. drain n s = Some (take n hs, s') \<and> rep s' (drop n hs)"
proof (induction n arbitrary: s hs)
  case 0
  then show ?case by simp
next
  case (Suc n)
  then obtain h hs' where hs: "hs = h # hs'" by (cases hs) auto
  then have "rep s ([] @ h # hs')" "front s = h" using Suc.prems front_hd by auto
  then obtain s1 where s1: "remove s (front s) = Some s1" "rep s1 hs'"
    using remove_any[of s "[]" h hs'] by auto
  moreover have "n \<le> length hs'" using Suc.prems hs by simp
  ultimately obtain s2 where "drain n s1 = Some (take n hs', s2)" "rep s2 (drop n hs')"
    using Suc.IH by blast
  then show ?case using s1 hs \<open>front s = h\<close> by simp
qed

text \<open>An element pushed last leaves the queue last, after everything that was before it.\<close>

lemma push_drain:
  assumes "rep s hs" and "pushable s hs h"
  shows "\<exists>s' s''. push s h = Some s' \<and> drain (length hs + 1) s' = Some (hs @ [h], s'') \<and> rep s'' []"
proof -
  obtain s' where s': "push s h = Some s'" "rep s' (hs @ [h])"
    using push_last[OF assms] by blast
  then obtain s'' where "drain (length hs + 1) s' = Some (take (length hs + 1) (hs @ [h]), s'')"
      "rep s'' (drop (length hs + 1) (hs @ [h]))"
    using drain_fifo[of s' "hs @ [h]" "length hs + 1"] by auto
  then show ?thesis using s' by simp
qed

end

definition queue_rep :: "OrderHandle set \<Rightarrow> OrderPool \<times> PriceLevel \<Rightarrow> OrderHandle list \<Rightarrow> bool" where
  "queue_rep L s hs \<longleftrightarrow> pool_rep (fst s) L \<and> set hs \<subseteq> L \<and> level_rep (fst s) (snd s) hs"

definition queue_pushable ::
    "OrderHandle set \<Rightarrow> OrderPool \<times> PriceLevel \<Rightarrow> OrderHandle list \<Rightarrow> OrderHandle \<Rightarrow> bool" where
  "queue_pushable L s hs h \<longleftrightarrow> h \<in> L \<and> h \<notin> set hs \<and>
     qty_sum (map (ordr (fst s)) hs) + unat (ord_remaining (ordr (fst s) h)) < 2 ^ 64"

lemma queue_push:
  assumes "queue_rep L s hs" and "queue_pushable L s hs h"
  shows "\<exists>s'. push_back (fst s) (snd s) h = Some s' \<and> queue_rep L s' (hs @ [h])"
proof -
  obtain p' lvl' where "push_back (fst s) (snd s) h = Some (p', lvl')" "pool_rep p' L"
      "level_rep p' lvl' (hs @ [h])"
    using push_back_rep[of "fst s" L "snd s" hs h] assms
    by (auto simp: queue_rep_def queue_pushable_def)
  then show ?thesis using assms by (auto simp: queue_rep_def queue_pushable_def)
qed

lemma queue_remove:
  assumes "queue_rep L s (xs @ h # ys)"
  shows "\<exists>s'. unlink (fst s) (snd s) h = Some s' \<and> queue_rep L s' (xs @ ys)"
proof -
  obtain p' lvl' where "unlink (fst s) (snd s) h = Some (p', lvl')" "pool_rep p' L"
      "level_rep p' lvl' (xs @ ys)"
    using unlink_rep[of "fst s" L "snd s" xs h ys] assms by (auto simp: queue_rep_def)
  then show ?thesis using assms by (auto simp: queue_rep_def)
qed

lemma queue_front: "queue_rep L s (h # hs) \<Longrightarrow> level_front (snd s) = h"
  using level_rep_front[of "fst s" "snd s" "h # hs"] by (simp add: queue_rep_def)

interpretation lq: fifo_queue "queue_rep L" "queue_pushable L"
    "\<lambda>s. push_back (fst s) (snd s)" "\<lambda>s. unlink (fst s) (snd s)" "\<lambda>s. level_front (snd s)" for L
  by (rule fifo_queue.intro) (rule queue_push queue_remove queue_front; assumption)+

end
