(* ===== verification/Price_Ladder.thy ===== *)
theory Price_Ladder
  imports Price_Level
begin

text \<open>
  One side of the book as an array of price levels: \<open>include/xc/core/price_ladder.hpp\<close>.

  A level per tick and a three-level bitmap of the occupied ticks: a bit of \<open>l0\<close> per tick, of
  \<open>l1\<close> per word of \<open>l0\<close>, of \<open>l2\<close> per word of \<open>l1\<close>.  The template parameter \<open>Descending\<close> is the
  boolean \<open>d\<close>.  \<open>ladder_rep l S\<close> says that exactly the ticks of \<open>S\<close> are occupied; \<open>begin\<close> and
  the increment of an iterator then walk \<open>S\<close> from the best tick, which is the contract of
  the locale \<open>ordered_levels\<close>.  \<open>kNpos\<close> is the value \<open>None\<close> of a \<open>nat option\<close>.
\<close>

section \<open>Model\<close>

record PriceLadder =
  lad_levels :: "PriceLevel list"
  lad_l0 :: "u64 list"
  lad_l1 :: "u64 list"
  lad_l2 :: "u64 list"
  lad_occupied :: nat
  lad_min_price :: Price
  lad_tick :: Price

definition configure :: "Price \<Rightarrow> Price \<Rightarrow> nat \<Rightarrow> PriceLadder option" where
  "configure min_price tick_size ticks = do {
     assert_that (tick_size > 0);
     assert_that (ticks > 0);
     let n0 = (ticks + 63) div 64;
     let n1 = (n0 + 63) div 64;
     let n2 = (n1 + 63) div 64;
     Some \<lparr>lad_levels = replicate ticks PriceLevel_default,
       lad_l0 = replicate n0 0, lad_l1 = replicate n1 0, lad_l2 = replicate n2 0,
       lad_occupied = 0, lad_min_price = min_price, lad_tick = tick_size\<rparr>
   }"

definition ladder_empty :: "PriceLadder \<Rightarrow> bool" where
  "ladder_empty l \<longleftrightarrow> lad_occupied l = 0"

definition ladder_size :: "PriceLadder \<Rightarrow> nat" where
  "ladder_size l = lad_occupied l"

definition in_band :: "PriceLadder \<Rightarrow> Price \<Rightarrow> bool" where
  "in_band l price =
     (if price < lad_min_price l then False
      else let offset = price - lad_min_price l in
        if offset smod lad_tick l \<noteq> 0 then False
        else nat (offset sdiv lad_tick l) < length (lad_levels l))"

definition index_of :: "PriceLadder \<Rightarrow> Price \<Rightarrow> nat option" where
  "index_of l price =
     (if price < lad_min_price l then None
      else let offset = price - lad_min_price l in
        if offset smod lad_tick l \<noteq> 0 then None
        else let index = nat (offset sdiv lad_tick l) in
          if index < length (lad_levels l) then Some index else None)"

definition price_at :: "PriceLadder \<Rightarrow> nat \<Rightarrow> Price" where
  "price_at l index = lad_min_price l + int index * lad_tick l"

definition above :: "nat \<Rightarrow> u64" where
  "above b = (if b \<ge> 63 then 0 else push_bit (b + 1) (NOT 0))"

definition below :: "nat \<Rightarrow> u64" where
  "below b = (if b = 0 then 0 else push_bit b 1 - 1)"

definition countr_zero :: "u64 \<Rightarrow> nat" where
  "countr_zero w = length (takeWhile (\<lambda>i. \<not> bit w i) [0..<64])"

definition countl_zero :: "u64 \<Rightarrow> nat" where
  "countl_zero w = length (takeWhile (\<lambda>i. \<not> bit w i) (rev [0..<64]))"

definition lowest :: "u64 \<Rightarrow> nat" where
  "lowest w = countr_zero w"

definition highest :: "u64 \<Rightarrow> nat" where
  "highest w = unat (63 - of_nat (countl_zero w) :: u32)"

definition pick :: "bool \<Rightarrow> u64 \<Rightarrow> nat" where
  "pick d w = (if d then highest w else lowest w)"

definition beyond :: "bool \<Rightarrow> nat \<Rightarrow> u64" where
  "beyond d b = (if d then below b else above b)"

definition ladder_test :: "PriceLadder \<Rightarrow> nat \<Rightarrow> bool option" where
  "ladder_test l index = do {
     w \<leftarrow> vget (lad_l0 l) (drop_bit 6 index);
     Some ((w AND push_bit (index AND 63) 1) \<noteq> 0)
   }"

definition or_word :: "u64 list \<Rightarrow> nat \<Rightarrow> nat \<Rightarrow> u64 list option" where
  "or_word ws i b = do { w \<leftarrow> vget ws i; vset ws i (w OR push_bit b 1) }"

definition and_not_word :: "u64 list \<Rightarrow> nat \<Rightarrow> nat \<Rightarrow> u64 list option" where
  "and_not_word ws i b = do { w \<leftarrow> vget ws i; vset ws i (w AND NOT (push_bit b 1)) }"

definition ladder_set :: "PriceLadder \<Rightarrow> nat \<Rightarrow> PriceLadder option" where
  "ladder_set l index = do {
     l0 \<leftarrow> or_word (lad_l0 l) (drop_bit 6 index) (index AND 63);
     l1 \<leftarrow> or_word (lad_l1 l) (drop_bit 12 index) (drop_bit 6 index AND 63);
     l2 \<leftarrow> or_word (lad_l2 l) (drop_bit 18 index) (drop_bit 12 index AND 63);
     Some (l\<lparr>lad_l0 := l0, lad_l1 := l1, lad_l2 := l2\<rparr>)
   }"

definition clear_bit :: "PriceLadder \<Rightarrow> nat \<Rightarrow> PriceLadder option" where
  "clear_bit l index = do {
     let w0 = drop_bit 6 index;
     l0 \<leftarrow> and_not_word (lad_l0 l) w0 (index AND 63);
     x0 \<leftarrow> vget l0 w0;
     if x0 \<noteq> 0 then Some (l\<lparr>lad_l0 := l0\<rparr>)
     else do {
       let w1 = drop_bit 12 index;
       l1 \<leftarrow> and_not_word (lad_l1 l) w1 (w0 AND 63);
       x1 \<leftarrow> vget l1 w1;
       if x1 \<noteq> 0 then Some (l\<lparr>lad_l0 := l0, lad_l1 := l1\<rparr>)
       else do {
         l2 \<leftarrow> and_not_word (lad_l2 l) (drop_bit 18 index) (w1 AND 63);
         Some (l\<lparr>lad_l0 := l0, lad_l1 := l1, lad_l2 := l2\<rparr>)
       }
     }
   }"

definition from_l1 :: "bool \<Rightarrow> PriceLadder \<Rightarrow> nat \<Rightarrow> nat option" where
  "from_l1 d l w1 = do {
     x1 \<leftarrow> vget (lad_l1 l) w1;
     let w0 = w1 * 64 + pick d x1;
     x0 \<leftarrow> vget (lad_l0 l) w0;
     Some (w0 * 64 + pick d x0)
   }"

definition from_l2 :: "bool \<Rightarrow> PriceLadder \<Rightarrow> nat \<Rightarrow> nat option" where
  "from_l2 d l w2 = do { x2 \<leftarrow> vget (lad_l2 l) w2; from_l1 d l (w2 * 64 + pick d x2) }"

text \<open>The scans over the top words: downwards from \<open>w - 1\<close>, upwards from \<open>w\<close>.\<close>

fun scan_down :: "u64 list \<Rightarrow> nat \<Rightarrow> nat option option" where
  "scan_down ws 0 = Some None"
| "scan_down ws (Suc w) = do { x \<leftarrow> vget ws w; if x \<noteq> 0 then Some (Some w) else scan_down ws w }"

function scan_up :: "u64 list \<Rightarrow> nat \<Rightarrow> nat option" where
  "scan_up ws w = (if w < length ws then if ws ! w \<noteq> 0 then Some w else scan_up ws (w + 1) else None)"
  by auto
termination by (relation "measure (\<lambda>(ws, w). length ws - w)") auto

definition scan_top :: "bool \<Rightarrow> PriceLadder \<Rightarrow> nat \<Rightarrow> nat option option" where
  "scan_top d l w = do {
     hit \<leftarrow> (if d then scan_down (lad_l2 l) w else Some (scan_up (lad_l2 l) w));
     (case hit of None \<Rightarrow> Some None
      | Some w2 \<Rightarrow> do { i \<leftarrow> from_l2 d l w2; Some (Some i) })
   }"

definition best_occupied :: "bool \<Rightarrow> PriceLadder \<Rightarrow> nat option option" where
  "best_occupied d l =
     (if lad_occupied l = 0 then Some None
      else scan_top d l (if d then length (lad_l2 l) else 0))"

definition next_occupied :: "bool \<Rightarrow> PriceLadder \<Rightarrow> nat option \<Rightarrow> nat option option" where
  "next_occupied d l it = (case it of None \<Rightarrow> Some None | Some index \<Rightarrow> do {
     let w0 = drop_bit 6 index;
     let b0 = index AND 63;
     x0 \<leftarrow> vget (lad_l0 l) w0;
     let rest0 = x0 AND beyond d b0;
     if rest0 \<noteq> 0 then Some (Some (w0 * 64 + pick d rest0))
     else do {
       let w1 = drop_bit 6 w0;
       let b1 = w0 AND 63;
       x1 \<leftarrow> vget (lad_l1 l) w1;
       let rest1 = x1 AND beyond d b1;
       if rest1 \<noteq> 0 then do {
         let next0 = w1 * 64 + pick d rest1;
         y0 \<leftarrow> vget (lad_l0 l) next0;
         Some (Some (next0 * 64 + pick d y0))
       } else do {
         let w2 = drop_bit 6 w1;
         let b2 = w1 AND 63;
         x2 \<leftarrow> vget (lad_l2 l) w2;
         let rest2 = x2 AND beyond d b2;
         if rest2 \<noteq> 0 then do {
           i \<leftarrow> from_l1 d l (w2 * 64 + pick d rest2);
           Some (Some i)
         } else scan_top d l (if d then w2 else w2 + 1)
       }
     }
   })"

definition level_get :: "PriceLadder \<Rightarrow> nat \<Rightarrow> PriceLevel option" where
  "level_get l index = vget (lad_levels l) index"

definition level_put :: "PriceLadder \<Rightarrow> nat \<Rightarrow> PriceLevel \<Rightarrow> PriceLadder option" where
  "level_put l index lvl = do {
     ls \<leftarrow> vset (lad_levels l) index lvl;
     Some (l\<lparr>lad_levels := ls\<rparr>)
   }"

definition ladder_at :: "PriceLadder \<Rightarrow> Price \<Rightarrow> (nat \<times> PriceLadder) option" where
  "ladder_at l price = do {
     index \<leftarrow> index_of l price;
     t \<leftarrow> ladder_test l index;
     l' \<leftarrow> (if \<not> t then do {
              l1 \<leftarrow> ladder_set l index;
              Some (l1\<lparr>lad_occupied := lad_occupied l1 + 1\<rparr>)
            } else Some l);
     Some (index, l')
   }"

definition ladder_find :: "PriceLadder \<Rightarrow> Price \<Rightarrow> nat option option" where
  "ladder_find l price = (case index_of l price of
       None \<Rightarrow> Some None
     | Some index \<Rightarrow> do {
         t \<leftarrow> ladder_test l index;
         Some (if t then Some index else None)
       })"

definition ladder_erase :: "PriceLadder \<Rightarrow> nat option \<Rightarrow> PriceLadder option" where
  "ladder_erase l it = do {
     index \<leftarrow> it;
     t \<leftarrow> ladder_test l index;
     assert_that t;
     l1 \<leftarrow> clear_bit l index;
     l2 \<leftarrow> level_put l1 index PriceLevel_default;
     Some (l2\<lparr>lad_occupied := lad_occupied l2 - 1\<rparr>)
   }"

text \<open>The loop of \<open>clear\<close>; the bitmap is only zeroed after it, so it steers by the old one.\<close>

partial_function (option) clear_loop :: "bool \<Rightarrow> PriceLadder \<Rightarrow> nat option \<Rightarrow> PriceLadder option" where
  "clear_loop d l it = (case it of
       None \<Rightarrow> Some l
     | Some i \<Rightarrow> do {
         l1 \<leftarrow> level_put l i PriceLevel_default;
         it' \<leftarrow> next_occupied d l1 (Some i);
         clear_loop d l1 it'
       })"

definition ladder_clear :: "bool \<Rightarrow> PriceLadder \<Rightarrow> PriceLadder option" where
  "ladder_clear d l = do {
     it \<leftarrow> best_occupied d l;
     l1 \<leftarrow> clear_loop d l it;
     Some (l1\<lparr>lad_l0 := replicate (length (lad_l0 l1)) 0,
              lad_l1 := replicate (length (lad_l1 l1)) 0,
              lad_l2 := replicate (length (lad_l2 l1)) 0, lad_occupied := 0\<rparr>)
   }"

text \<open>The order in which a side is walked, and the first element of a set in that order.\<close>

definition walk_before :: "bool \<Rightarrow> nat \<Rightarrow> nat \<Rightarrow> bool" where
  "walk_before d a b = (if d then b < a else a < b)"

definition walk_first :: "bool \<Rightarrow> nat set \<Rightarrow> nat \<Rightarrow> bool" where
  "walk_first d S i \<longleftrightarrow> i \<in> S \<and> (\<forall>j\<in>S. j = i \<or> walk_before d i j)"

text \<open>What a search over \<open>S\<close> answers: its first element, or nothing when it is empty.\<close>

definition walk_result :: "bool \<Rightarrow> nat set \<Rightarrow> nat option \<Rightarrow> bool" where
  "walk_result d S r = (case r of None \<Rightarrow> S = {} | Some i \<Rightarrow> walk_first d S i)"

definition bits :: "u64 list \<Rightarrow> nat set \<Rightarrow> bool" where
  "bits ws S \<longleftrightarrow> (\<forall>i. i \<in> S \<longleftrightarrow> i div 64 < length ws \<and> bit (ws ! (i div 64)) (i mod 64))"

definition up64 :: "nat set \<Rightarrow> nat set" where
  "up64 S = (\<lambda>i. i div 64) ` S"

definition ladder_rep :: "PriceLadder \<Rightarrow> nat set \<Rightarrow> bool" where
  "ladder_rep l S \<longleftrightarrow>
     bits (lad_l0 l) S \<and> bits (lad_l1 l) (up64 S) \<and> bits (lad_l2 l) (up64 (up64 S)) \<and>
     length (lad_l0 l) = (length (lad_levels l) + 63) div 64 \<and>
     length (lad_l1 l) = (length (lad_l0 l) + 63) div 64 \<and>
     length (lad_l2 l) = (length (lad_l1 l) + 63) div 64 \<and>
     S \<subseteq> {..<length (lad_levels l)} \<and> lad_occupied l = card S \<and> lad_tick l > 0 \<and>
     (\<forall>i<length (lad_levels l). i \<notin> S \<longrightarrow> lad_levels l ! i = PriceLevel_default)"

text \<open>Two ladders over the same band: prices and ticks correspond in the same way.\<close>

definition same_band :: "PriceLadder \<Rightarrow> PriceLadder \<Rightarrow> bool" where
  "same_band l l' \<longleftrightarrow> length (lad_levels l') = length (lad_levels l) \<and>
     lad_min_price l' = lad_min_price l \<and> lad_tick l' = lad_tick l"

definition hd_opt :: "'a list \<Rightarrow> 'a option" where
  "hd_opt xs = (case xs of [] \<Rightarrow> None | x # _ \<Rightarrow> Some x)"

section \<open>Bits of a word\<close>

lemma and63 [simp]: "(n::nat) AND 63 = n mod 64"
proof -
  have "n AND 63 = take_bit 6 n" by (simp add: take_bit_eq_mask mask_eq_exp_minus_1)
  then show ?thesis by (simp add: take_bit_eq_mod)
qed

lemma drop6 [simp]: "drop_bit 6 (n::nat) = n div 64" "drop_bit 12 n = n div 64 div 64"
  "drop_bit 18 n = n div 64 div 64 div 64"
  by (simp_all add: drop_bit_eq_div div_mult2_eq[symmetric])

lemma bit_above: "b < 64 \<Longrightarrow> bit (above b) i \<longleftrightarrow> b < i \<and> i < 64"
  by (auto simp: above_def bit_simps)

lemma bit_below: "b < 64 \<Longrightarrow> bit (below b) i \<longleftrightarrow> i < b"
proof -
  assume b: "b < 64"
  have "below b = mask b" by (simp add: below_def mask_eq_exp_minus_1 push_bit_eq_mult)
  then show ?thesis using b by (auto simp: bit_simps)
qed

lemma bit_beyond: "b < 64 \<Longrightarrow> bit (x AND beyond d b) i \<longleftrightarrow> bit x i \<and> walk_before d b i"
  using bit_imp_le_length[of x i]
  by (auto simp: beyond_def walk_before_def bit_and_iff bit_above bit_below)

lemma takeWhile_upt_first:
  fixes P :: "nat \<Rightarrow> bool"
  assumes "P i" and "i < n"
  defines "k \<equiv> length (takeWhile (\<lambda>i. \<not> P i) [0..<n])"
  shows "P k" and "k \<le> i"
proof -
  show ki: "k \<le> i"
  proof (rule ccontr)
    assume "\<not> k \<le> i"
    then have "i < k" by simp
    then have "takeWhile (\<lambda>i. \<not> P i) [0..<n] ! i \<in> set (takeWhile (\<lambda>i. \<not> P i) [0..<n])"
      unfolding k_def by (rule nth_mem)
    moreover have "takeWhile (\<lambda>i. \<not> P i) [0..<n] ! i = i"
      using \<open>i < k\<close> assms(2) unfolding k_def by (subst takeWhile_nth) auto
    ultimately show False using assms(1) by (auto dest: set_takeWhileD)
  qed
  then have "k < length [0..<n]" using assms(2) by simp
  from nth_length_takeWhile[OF this[unfolded k_def]] show "P k"
    using ki assms(2) by (simp add: k_def)
qed

lemma takeWhile_rev_upt_first:
  fixes P :: "nat \<Rightarrow> bool"
  assumes "P i" and "i < n"
  defines "k \<equiv> length (takeWhile (\<lambda>i. \<not> P i) (rev [0..<n]))"
  shows "k < n" and "P (n - 1 - k)" and "i \<le> n - 1 - k"
proof -
  have le: "k \<le> n - 1 - i"
  proof (rule ccontr)
    assume "\<not> k \<le> n - 1 - i"
    then have j: "n - 1 - i < k" by simp
    then have "takeWhile (\<lambda>i. \<not> P i) (rev [0..<n]) ! (n - 1 - i) \<in>
        set (takeWhile (\<lambda>i. \<not> P i) (rev [0..<n]))"
      unfolding k_def by (rule nth_mem)
    moreover have "takeWhile (\<lambda>i. \<not> P i) (rev [0..<n]) ! (n - 1 - i) = i"
      using j assms(2) unfolding k_def by (subst takeWhile_nth) (auto simp: rev_nth)
    ultimately show False using assms(1) by (auto dest: set_takeWhileD)
  qed
  then show kn: "k < n" and "i \<le> n - 1 - k" using assms(2) by auto
  have "k < length (rev [0..<n])" using kn by simp
  from nth_length_takeWhile[OF this[unfolded k_def]] show "P (n - 1 - k)"
    using kn by (simp add: k_def rev_nth)
qed

lemma pick_first:
  assumes "w \<noteq> 0"
  shows "walk_first d {b. bit w b} (pick d w)"
proof -
  obtain i where i: "bit w i" using assms by (metis bit_eqI bit_0_eq bot_apply bot_bool_def)
  then have i64: "i < 64" using bit_imp_le_length by fastforce
  show ?thesis
  proof (cases d)
    case True
    let ?k = "countl_zero w"
    have k: "?k < 64" "bit w (63 - ?k)"
      using takeWhile_rev_upt_first(1,2)[where P = "bit w", OF i i64] by (simp_all add: countl_zero_def)
    have "j \<le> 63 - ?k" if "bit w j" for j
      using takeWhile_rev_upt_first(3)[where P = "bit w", OF that, of 64] bit_imp_le_length[OF that]
      by (simp add: countl_zero_def)
    moreover have "highest w = 63 - ?k"
    proof -
      have "(of_nat ?k :: u32) \<le> 63" using k(1) by (simp add: word_le_nat_alt unat_of_nat)
      then show ?thesis using k(1) by (simp add: highest_def unat_sub unat_of_nat)
    qed
    ultimately show ?thesis using True k by (auto simp: walk_first_def walk_before_def pick_def le_less)
  next
    case False
    have "bit w (countr_zero w)"
      using takeWhile_upt_first(1)[where P = "bit w", OF i i64] by (simp add: countr_zero_def)
    moreover have "countr_zero w \<le> j" if "bit w j" for j
      using takeWhile_upt_first(2)[where P = "bit w", OF that, of 64] bit_imp_le_length[OF that]
      by (simp add: countr_zero_def)
    ultimately show ?thesis using False
      by (auto simp: walk_first_def walk_before_def pick_def lowest_def le_less)
  qed
qed

lemma pick_less: "w \<noteq> 0 \<Longrightarrow> pick d w < 64"
  using pick_first[of w d] bit_imp_le_length[of w "pick d w"] by (simp add: walk_first_def)

section \<open>The hierarchy of summaries\<close>

text \<open>
  The set of ticks seen through one summary level: what is left in the word of the current
  position comes first, then the words after it.
\<close>

lemma walk_first_unique: "walk_first d S i \<Longrightarrow> walk_first d S j \<Longrightarrow> i = j"
  unfolding walk_first_def walk_before_def by (metis (full_types) order_less_asym)

lemma walk_first_cong: "walk_first d S i \<Longrightarrow> S = T \<Longrightarrow> walk_first d T i"
  by simp

lemma bits_word: "bits ws S \<Longrightarrow> w < length ws \<Longrightarrow> b < 64 \<Longrightarrow> bit (ws ! w) b \<longleftrightarrow> w * 64 + b \<in> S"
  by (simp add: bits_def)

lemma bits_word_bound: "bits ws S \<Longrightarrow> i \<in> S \<Longrightarrow> i div 64 < length ws"
  by (simp add: bits_def)

lemma bits_word_nonzero:
  assumes "bits ws S" and "w < length ws"
  shows "ws ! w \<noteq> 0 \<longleftrightarrow> w \<in> up64 S"
proof
  assume "ws ! w \<noteq> 0"
  then have p: "bit (ws ! w) (pick d (ws ! w))" "pick d (ws ! w) < 64" for d
    using pick_first[of "ws ! w" d] pick_less[of "ws ! w" d] by (auto simp: walk_first_def)
  then have "w * 64 + pick True (ws ! w) \<in> S" using bits_word[OF assms] by blast
  then show "w \<in> up64 S" unfolding up64_def
    by (rule image_eqI[rotated]) (simp add: p)
next
  assume "w \<in> up64 S"
  then show "ws ! w \<noteq> 0" using assms(1) by (auto simp: bits_def up64_def)
qed

lemma pick_in_word:
  assumes b: "bits ws S" and w: "w < length ws" and x: "x \<noteq> 0"
    and sub: "\<And>i. i < 64 \<Longrightarrow> bit x i \<longleftrightarrow> bit (ws ! w) i \<and> P i"
  shows "walk_first d {i \<in> S. i div 64 = w \<and> P (i mod 64)} (w * 64 + pick d x)"
proof -
  have f: "walk_first d {b. bit x b} (pick d x)" and l: "pick d x < 64"
    using pick_first[OF x] pick_less[OF x] by auto
  have "bit (ws ! w) (pick d x)" "P (pick d x)" using f l sub by (auto simp: walk_first_def)
  then have m: "w * 64 + pick d x \<in> {i \<in> S. i div 64 = w \<and> P (i mod 64)}"
    using l bits_word[OF b w l] by simp
  moreover have "j = w * 64 + pick d x \<or> walk_before d (w * 64 + pick d x) j"
    if "j \<in> S" "j div 64 = w" "P (j mod 64)" for j
  proof -
    have "bit x (j mod 64)" using that sub[of "j mod 64"] b by (auto simp: bits_def)
    then have "j mod 64 = pick d x \<or> walk_before d (pick d x) (j mod 64)"
      using f by (auto simp: walk_first_def)
    moreover have "j = w * 64 + j mod 64" using that(2) by auto
    ultimately show ?thesis by (auto simp: walk_before_def split: if_splits)
  qed
  ultimately show ?thesis by (simp add: walk_first_def)
qed

lemma walk_first_word:
  assumes "walk_first d {i \<in> S. i div 64 = w \<and> walk_before d b (i mod 64)} f" and "b < 64"
  shows "walk_first d {i \<in> S. walk_before d (w * 64 + b) i} f"
proof -
  have f: "f \<in> S" "f div 64 = w" "walk_before d b (f mod 64)" using assms(1) by (auto simp: walk_first_def)
  have fw: "f = w * 64 + f mod 64" using f(2) by auto
  then have bf: "walk_before d (w * 64 + b) f" using f(3) by (auto simp: walk_before_def split: if_splits)
  moreover have "j = f \<or> walk_before d f j" if "j \<in> S" "walk_before d (w * 64 + b) j" for j
  proof (cases "j div 64 = w")
    case True
    then have "j = w * 64 + j mod 64" by auto
    then have "walk_before d b (j mod 64)" using that(2) by (auto simp: walk_before_def split: if_splits)
    then show ?thesis using True that(1) assms(1) by (auto simp: walk_first_def)
  next
    case False
    then have "walk_before d w (j div 64)"
      using that(2) assms(2) by (auto simp: walk_before_def split: if_splits)
    then show ?thesis using f(2) by (auto simp: walk_before_def split: if_splits)
  qed
  ultimately show ?thesis using f(1) by (simp add: walk_first_def)
qed

lemma beyond_word_empty:
  assumes "{i \<in> S. i div 64 = w \<and> walk_before d b (i mod 64)} = {}" and "b < 64"
  shows "{i \<in> S. walk_before d (w * 64 + b) i} = {i \<in> S. walk_before d w (i div 64)}"
proof -
  have "walk_before d (w * 64 + b) i \<longleftrightarrow> walk_before d w (i div 64)" if "i \<in> S" for i
  proof (cases "i div 64 = w")
    case True
    then have "i = w * 64 + i mod 64" by auto
    moreover have "\<not> walk_before d b (i mod 64)" using assms(1) that True by blast
    ultimately show ?thesis using True by (auto simp: walk_before_def split: if_splits)
  next
    case False
    then show ?thesis using assms(2) by (auto simp: walk_before_def split: if_splits)
  qed
  then show ?thesis by blast
qed

text \<open>The first tick of the first word is the first tick, for any monotone summary \<open>g\<close>.\<close>

lemma walk_first_via:
  assumes g: "mono g" and w: "walk_first d {j \<in> g ` S. P j} w" and f: "walk_first d {i \<in> S. g i = w} f"
  shows "walk_first d {i \<in> S. P (g i)} f"
proof -
  have fS: "f \<in> S" "g f = w" "P w" using w f by (auto simp: walk_first_def)
  moreover have "j = f \<or> walk_before d f j" if "j \<in> S" "P (g j)" for j
  proof (cases "g j = w")
    case True
    then show ?thesis using that f by (auto simp: walk_first_def)
  next
    case False
    have "g j \<in> {j \<in> g ` S. P j}" using that by blast
    with False w have "walk_before d w (g j)" unfolding walk_first_def by blast
    moreover have "g j < g f \<Longrightarrow> j < f" and "g f < g j \<Longrightarrow> f < j"
      using monoD[OF g, of f j] monoD[OF g, of j f] by linarith+
    ultimately show ?thesis unfolding walk_before_def fS(2)[symmetric] by (auto split: if_splits)
  qed
  ultimately show ?thesis by (simp add: walk_first_def)
qed

lemma mono_div: "mono (\<lambda>i. i div 64 :: nat)" "mono (\<lambda>i. i div 64 div 64 :: nat)"
  "mono (\<lambda>i. i div 64 div 64 div 64 :: nat)"
  by (intro monoI div_le_mono; assumption)+

lemma up64_image: "up64 S = (\<lambda>i. i div 64) ` S" "up64 (up64 S) = (\<lambda>i. i div 64 div 64) ` S"
  "up64 (up64 (up64 S)) = (\<lambda>i. i div 64 div 64 div 64) ` S"
  by (simp_all add: up64_def image_image)

lemmas walk_first_below = walk_first_via[OF mono_div(1), folded up64_image]
lemmas walk_first_below2 = walk_first_via[OF mono_div(2), folded up64_image]
lemmas walk_first_below3 = walk_first_via[OF mono_div(3), folded up64_image]

text \<open>Descending from a summary word to the tick.\<close>

lemma pick_whole_word:
  assumes "bits ws S" and "w < length ws" and "w \<in> up64 S"
  shows "walk_first d {i \<in> S. i div 64 = w} (w * 64 + pick d (ws ! w))"
  using pick_in_word[OF assms(1,2), of "ws ! w" "\<lambda>_. True" d] bits_word_nonzero[OF assms(1,2)] assms(3)
  by simp

lemma up64_bound: "bits ws S \<Longrightarrow> w \<in> up64 S \<Longrightarrow> w < length ws"
  by (auto simp: up64_def bits_def)

lemma from_l1_first:
  assumes rep: "ladder_rep l S" and w: "w \<in> up64 (up64 S)"
  shows "\<exists>i. from_l1 d l w = Some i \<and> walk_first d {i \<in> S. i div 64 div 64 = w} i"
proof -
  have b0: "bits (lad_l0 l) S" and b1: "bits (lad_l1 l) (up64 S)" using rep by (auto simp: ladder_rep_def)
  let ?j = "w * 64 + pick d (lad_l1 l ! w)"
  have lw: "w < length (lad_l1 l)" by (rule up64_bound[OF b1 w])
  have j: "walk_first d {j \<in> up64 S. j div 64 = w} ?j" by (rule pick_whole_word[OF b1 lw w])
  then have jS: "?j \<in> up64 S" by (simp add: walk_first_def)
  then have lj: "?j < length (lad_l0 l)" by (rule up64_bound[OF b0])
  have "walk_first d {i \<in> S. i div 64 = ?j} (?j * 64 + pick d (lad_l0 l ! ?j))"
    by (rule pick_whole_word[OF b0 lj jS])
  from walk_first_below[OF j this] show ?thesis using lw lj by (simp add: from_l1_def)
qed

lemma from_l2_first:
  assumes rep: "ladder_rep l S" and w: "w \<in> up64 (up64 (up64 S))"
  shows "\<exists>i. from_l2 d l w = Some i \<and> walk_first d {i \<in> S. i div 64 div 64 div 64 = w} i"
proof -
  have b2: "bits (lad_l2 l) (up64 (up64 S))" using rep by (auto simp: ladder_rep_def)
  let ?j = "w * 64 + pick d (lad_l2 l ! w)"
  have lw: "w < length (lad_l2 l)" by (rule up64_bound[OF b2 w])
  have j: "walk_first d {j \<in> up64 (up64 S). j div 64 = w} ?j" by (rule pick_whole_word[OF b2 lw w])
  then have jS: "?j \<in> up64 (up64 S)" by (simp add: walk_first_def)
  obtain i where i: "from_l1 d l ?j = Some i" "walk_first d {i \<in> S. i div 64 div 64 = ?j} i"
    using from_l1_first[OF rep jS] by blast
  from walk_first_below2[OF j i(2)] show ?thesis using i(1) lw by (simp add: from_l2_def)
qed

section \<open>Searching\<close>

lemma scan_down_result:
  "n \<le> length ws \<Longrightarrow>
   \<exists>r. scan_down ws n = Some r \<and> walk_result True {w. w < n \<and> ws ! w \<noteq> 0} r"
proof (induction n)
  case 0
  then show ?case by (simp add: walk_result_def)
next
  case (Suc n)
  show ?case
  proof (cases "ws ! n = 0")
    case True
    then have "{w. w < Suc n \<and> ws ! w \<noteq> 0} = {w. w < n \<and> ws ! w \<noteq> 0}" by (auto simp: less_Suc_eq)
    then show ?thesis using Suc True by simp
  next
    case False
    then show ?thesis using Suc.prems
      by (auto simp: walk_result_def walk_first_def walk_before_def)
  qed
qed

lemma scan_up_result: "walk_result False {w. n \<le> w \<and> w < length ws \<and> ws ! w \<noteq> 0} (scan_up ws n)"
proof (induction ws n rule: scan_up.induct)
  case (1 ws w)
  show ?case
  proof (cases "w < length ws \<and> ws ! w = 0")
    case True
    then have "{v. w \<le> v \<and> v < length ws \<and> ws ! v \<noteq> 0} = {v. w + 1 \<le> v \<and> v < length ws \<and> ws ! v \<noteq> 0}"
      by (auto simp: le_less Suc_le_eq)
    then show ?thesis using 1 True by simp
  next
    case False
    then show ?thesis
      by (subst scan_up.simps) (auto simp: walk_result_def walk_first_def walk_before_def)
  qed
qed

declare scan_up.simps [simp del]

lemma scan_top_result:
  assumes rep: "ladder_rep l S" and n: "d \<Longrightarrow> n \<le> length (lad_l2 l)"
  shows "\<exists>r. scan_top d l n = Some r \<and>
    walk_result d {i \<in> S. if d then i div 64 div 64 div 64 < n else n \<le> i div 64 div 64 div 64} r"
proof -
  have b2: "bits (lad_l2 l) (up64 (up64 S))" using rep by (auto simp: ladder_rep_def)
  let ?U = "up64 (up64 (up64 S))" and ?P = "\<lambda>w. if d then w < n else n \<le> w"
  have nz: "{w. w < length (lad_l2 l) \<and> lad_l2 l ! w \<noteq> 0} = ?U"
    using bits_word_nonzero[OF b2] up64_bound[OF b2] by auto
  obtain h where h: "(if d then scan_down (lad_l2 l) n else Some (scan_up (lad_l2 l) n)) = Some h"
      and hw: "walk_result d {w \<in> ?U. ?P w} h"
  proof (cases d)
    case True
    then have "{w. w < n \<and> lad_l2 l ! w \<noteq> 0} = {w \<in> ?U. ?P w}" using nz n by force
    then show ?thesis using scan_down_result[OF n[OF True]] True that by auto
  next
    case False
    then have "{w. n \<le> w \<and> w < length (lad_l2 l) \<and> lad_l2 l ! w \<noteq> 0} = {w \<in> ?U. ?P w}"
      using nz by force
    then show ?thesis using scan_up_result[of n "lad_l2 l"] False that by auto
  qed
  show ?thesis
  proof (cases h)
    case None
    then have "{w \<in> ?U. ?P w} = {}" using hw by (simp add: walk_result_def)
    then have "{i \<in> S. ?P (i div 64 div 64 div 64)} = {}" by (auto simp: up64_def)
    then show ?thesis using h None by (simp add: scan_top_def walk_result_def)
  next
    case (Some w)
    then have w: "walk_first d {w \<in> ?U. ?P w} w" using hw by (simp add: walk_result_def)
    then have wU: "w \<in> ?U" by (simp add: walk_first_def)
    obtain i where i: "from_l2 d l w = Some i" "walk_first d {i \<in> S. i div 64 div 64 div 64 = w} i"
      using from_l2_first[OF rep wU] by blast
    have "walk_first d {i \<in> S. ?P (i div 64 div 64 div 64)} i" by (rule walk_first_below3[OF w i(2)])
    then show ?thesis using h Some i(1) by (simp add: scan_top_def walk_result_def)
  qed
qed

text \<open>\<open>begin\<close> is the best occupied tick.\<close>

lemma best_occupied_result:
  assumes rep: "ladder_rep l S"
  shows "\<exists>r. best_occupied d l = Some r \<and> walk_result d S r"
proof (cases "lad_occupied l = 0")
  case True
  moreover have "finite S" using rep by (auto simp: ladder_rep_def intro: finite_subset)
  ultimately have "S = {}" using rep by (auto simp: ladder_rep_def)
  then show ?thesis using True by (simp add: best_occupied_def walk_result_def)
next
  case False
  have b2: "bits (lad_l2 l) (up64 (up64 S))" using rep by (auto simp: ladder_rep_def)
  have "i div 64 div 64 div 64 < length (lad_l2 l)" if "i \<in> S" for i
    using that up64_bound[OF b2] by (auto simp: up64_def)
  then have "{i \<in> S. if d then i div 64 div 64 div 64 < length (lad_l2 l)
      else 0 \<le> i div 64 div 64 div 64} = S" by auto
  then show ?thesis using False scan_top_result[OF rep, of d "if d then length (lad_l2 l) else 0"]
    by (cases d) (simp_all add: best_occupied_def)
qed

text \<open>The two outcomes of looking for the rest of a word.\<close>

lemma rest_of_word:
  assumes b: "bits ws S" and w: "w < length ws" and c: "c < 64"
  shows "ws ! w AND beyond d c \<noteq> 0 \<Longrightarrow>
      walk_first d {i \<in> S. walk_before d (w * 64 + c) i} (w * 64 + pick d (ws ! w AND beyond d c))"
    and "ws ! w AND beyond d c = 0 \<Longrightarrow>
      {i \<in> S. walk_before d (w * 64 + c) i} = {i \<in> S. walk_before d w (i div 64)}"
proof -
  assume "ws ! w AND beyond d c \<noteq> 0"
  from pick_in_word[OF b w this, of "walk_before d c" d] show
    "walk_first d {i \<in> S. walk_before d (w * 64 + c) i} (w * 64 + pick d (ws ! w AND beyond d c))"
    by (intro walk_first_word[OF _ c]) (simp add: bit_beyond[OF c])
next
  assume z: "ws ! w AND beyond d c = 0"
  have "\<not> walk_before d c (i mod 64)" if "i \<in> S" "i div 64 = w" for i
  proof
    assume "walk_before d c (i mod 64)"
    then have "bit (ws ! w AND beyond d c) (i mod 64)"
      using that b by (auto simp: bits_def bit_beyond[OF c])
    with z show False by simp
  qed
  then show "{i \<in> S. walk_before d (w * 64 + c) i} = {i \<in> S. walk_before d w (i div 64)}"
    by (intro beyond_word_empty[OF _ c]) auto
qed

lemma next_occupied_result:
  assumes rep: "ladder_rep l S" and i: "i < length (lad_levels l)"
  shows "\<exists>r. next_occupied d l (Some i) = Some r \<and> walk_result d {j \<in> S. walk_before d i j} r"
proof -
  let ?w0 = "i div 64" let ?w1 = "?w0 div 64" let ?w2 = "?w1 div 64"
  have b0: "bits (lad_l0 l) S" and b1: "bits (lad_l1 l) (up64 S)"
    and b2: "bits (lad_l2 l) (up64 (up64 S))" using rep by (auto simp: ladder_rep_def)
  have w0: "?w0 < length (lad_l0 l)" and w1: "?w1 < length (lad_l1 l)" and w2: "?w2 < length (lad_l2 l)"
    using rep i by (auto simp: ladder_rep_def)
  let ?r0 = "lad_l0 l ! ?w0 AND beyond d (i mod 64)"
  let ?r1 = "lad_l1 l ! ?w1 AND beyond d (?w0 mod 64)"
  let ?r2 = "lad_l2 l ! ?w2 AND beyond d (?w1 mod 64)"
  let ?A = "{j \<in> S. walk_before d i j}"
  show ?thesis
  proof (cases "?r0 = 0")
    case False
    then have "walk_first d ?A (?w0 * 64 + pick d ?r0)"
      using rest_of_word(1)[OF b0 w0, of "i mod 64" d] by simp
    then show ?thesis using False w0 by (simp add: next_occupied_def walk_result_def Let_def)
  next
    case r0: True
    have A0: "?A = {j \<in> S. walk_before d ?w0 (j div 64)}"
      using rest_of_word(2)[OF b0 w0, of "i mod 64" d] r0 by simp
    show ?thesis
    proof (cases "?r1 = 0")
      case False
      let ?n = "?w1 * 64 + pick d ?r1"
      have f: "walk_first d {j \<in> up64 S. walk_before d ?w0 j} ?n"
        using rest_of_word(1)[OF b1 w1, of "?w0 mod 64" d] False by simp
      then have nU: "?n \<in> up64 S" by (simp add: walk_first_def)
      have ln: "?n < length (lad_l0 l)" by (rule up64_bound[OF b0 nU])
      have "walk_first d ?A (?n * 64 + pick d (lad_l0 l ! ?n))"
        unfolding A0 by (rule walk_first_below[OF f pick_whole_word[OF b0 ln nU]])
      then show ?thesis using r0 False w0 w1 ln
        by (simp add: next_occupied_def walk_result_def Let_def)
    next
      case r1: True
      have A1: "{j \<in> up64 S. walk_before d ?w0 j} = {j \<in> up64 S. walk_before d ?w1 (j div 64)}"
        using rest_of_word(2)[OF b1 w1, of "?w0 mod 64" d] r1 by simp
      have A1': "?A = {j \<in> S. walk_before d ?w1 (j div 64 div 64)}"
        unfolding A0 using A1 by (auto simp: up64_def set_eq_iff)
      show ?thesis
      proof (cases "?r2 = 0")
        case False
        let ?n = "?w2 * 64 + pick d ?r2"
        have f: "walk_first d {j \<in> up64 (up64 S). walk_before d ?w1 j} ?n"
          using rest_of_word(1)[OF b2 w2, of "?w1 mod 64" d] False by simp
        then have nU: "?n \<in> up64 (up64 S)" by (simp add: walk_first_def)
        obtain k where k: "from_l1 d l ?n = Some k" "walk_first d {i \<in> S. i div 64 div 64 = ?n} k"
          using from_l1_first[OF rep nU] by blast
        have "walk_first d ?A k" unfolding A1' by (rule walk_first_below2[OF f k(2)])
        then show ?thesis using r0 r1 False w0 w1 w2 k(1)
          by (simp add: next_occupied_def walk_result_def Let_def)
      next
        case r2: True
        have "{j \<in> up64 (up64 S). walk_before d ?w1 j} = {j \<in> up64 (up64 S). walk_before d ?w2 (j div 64)}"
          using rest_of_word(2)[OF b2 w2, of "?w1 mod 64" d] r2 by simp
        then have "?A = {j \<in> S. walk_before d ?w2 (j div 64 div 64 div 64)}"
          unfolding A1' by (auto simp: up64_def set_eq_iff)
        then have A2: "?A = {j \<in> S. if d then j div 64 div 64 div 64 < ?w2
            else ?w2 + 1 \<le> j div 64 div 64 div 64}" by (auto simp: walk_before_def)
        have "next_occupied d l (Some i) = scan_top d l (if d then ?w2 else ?w2 + 1)"
          using r0 r1 r2 w0 w1 w2 by (simp add: next_occupied_def Let_def)
        then show ?thesis using scan_top_result[OF rep, of d "if d then ?w2 else ?w2 + 1"] w2
          unfolding A2 by (cases d) auto
      qed
    qed
  qed
qed

section \<open>Updating the bitmap\<close>

lemma same_bit: "(i div 64 = j div 64 \<and> i mod 64 = j mod 64) \<longleftrightarrow> i = (j::nat)"
  by (metis div_mult_mod_eq)

lemma bit_one_at: "b < 64 \<Longrightarrow> bit ((2::u64) ^ b) n \<longleftrightarrow> n = b"
  by (auto simp: bit_simps)

lemma or_word_bits:
  assumes "bits ws S" and i: "i div 64 < length ws"
  shows "\<exists>ws'. or_word ws (i div 64) (i mod 64) = Some ws' \<and> bits ws' (insert i S) \<and>
           length ws' = length ws"
proof -
  let ?ws = "ws[i div 64 := ws ! (i div 64) OR push_bit (i mod 64) 1]"
  have "j \<in> insert i S \<longleftrightarrow> j div 64 < length ?ws \<and> bit (?ws ! (j div 64)) (j mod 64)" for j
  proof (cases "j div 64 = i div 64")
    case True
    then have ij: "j = i \<longleftrightarrow> j mod 64 = i mod 64" using same_bit[of j i] by blast
    have "j \<in> S \<longleftrightarrow> bit (ws ! (i div 64)) (j mod 64)" using assms True by (simp add: bits_def)
    then show ?thesis using i ij unfolding True by (simp add: bit_or_iff bit_one_at disj_commute)
  next
    case False
    then have "j \<noteq> i" by blast
    with False assms(1) show ?thesis by (simp add: bits_def)
  qed
  then show ?thesis using i unfolding bits_def or_word_def by simp
qed

lemma and_not_word_bits:
  assumes "bits ws S" and i: "i div 64 < length ws"
  shows "\<exists>ws'. and_not_word ws (i div 64) (i mod 64) = Some ws' \<and> bits ws' (S - {i}) \<and>
           length ws' = length ws"
proof -
  let ?ws = "ws[i div 64 := ws ! (i div 64) AND NOT (push_bit (i mod 64) 1)]"
  have "j \<in> S - {i} \<longleftrightarrow> j div 64 < length ?ws \<and> bit (?ws ! (j div 64)) (j mod 64)" for j
  proof (cases "j div 64 = i div 64")
    case True
    then have ij: "j = i \<longleftrightarrow> j mod 64 = i mod 64" using same_bit[of j i] by blast
    have "j \<in> S \<longleftrightarrow> bit (ws ! (i div 64)) (j mod 64)" using assms True by (simp add: bits_def)
    then show ?thesis using i ij unfolding True by (simp add: bit_and_iff bit_not_iff bit_one_at)
  next
    case False
    then have "j \<noteq> i" by blast
    with False assms(1) show ?thesis by (simp add: bits_def)
  qed
  then show ?thesis using i unfolding bits_def and_not_word_def by simp
qed

lemma up64_insert: "up64 (insert i S) = insert (i div 64) (up64 S)"
  by (simp add: up64_def)

lemma up64_remove:
  "i \<in> S \<Longrightarrow> up64 (S - {i}) = (if i div 64 \<in> up64 (S - {i}) then up64 S else up64 S - {i div 64})"
  using up64_insert[of i "S - {i}"] by (simp add: insert_absorb)

lemma ladder_rep_bounds:
  assumes "ladder_rep l S" and "i < length (lad_levels l)"
  shows "i div 64 < length (lad_l0 l)" "i div 64 div 64 < length (lad_l1 l)"
    "i div 64 div 64 div 64 < length (lad_l2 l)"
  using assms by (auto simp: ladder_rep_def)

lemma ladder_rep_finite: "ladder_rep l S \<Longrightarrow> finite S"
  by (auto simp: ladder_rep_def intro: finite_subset)

lemma ladder_rep_index: "ladder_rep l S \<Longrightarrow> i \<in> S \<Longrightarrow> i < length (lad_levels l)"
  by (auto simp: ladder_rep_def)

lemma ladder_test_rep:
  assumes "ladder_rep l S" and "i < length (lad_levels l)"
  shows "ladder_test l i = Some (i \<in> S)"
proof -
  have "(x AND push_bit b 1 \<noteq> 0) = bit x b" if "b < 64" for x :: u64 and b
    using that by (metis bit_iff_and_push_bit_not_eq_0)
  then show ?thesis
    using assms ladder_rep_bounds[OF assms] by (simp add: ladder_test_def ladder_rep_def bits_def)
qed

lemma ladder_set_rep:
  assumes rep: "ladder_rep l S" and i: "i < length (lad_levels l)" "i \<notin> S"
  shows "\<exists>l'. ladder_set l i = Some l' \<and> lad_levels l' = lad_levels l \<and>
           lad_min_price l' = lad_min_price l \<and> lad_tick l' = lad_tick l \<and>
           ladder_rep (l'\<lparr>lad_occupied := lad_occupied l' + 1\<rparr>) (insert i S)"
proof -
  note b = ladder_rep_bounds[OF rep i(1)]
  have b0: "bits (lad_l0 l) S" and b1: "bits (lad_l1 l) (up64 S)"
    and b2: "bits (lad_l2 l) (up64 (up64 S))" using rep by (auto simp: ladder_rep_def)
  obtain w0 where w0: "or_word (lad_l0 l) (i div 64) (i mod 64) = Some w0" "bits w0 (insert i S)"
      "length w0 = length (lad_l0 l)"
    using or_word_bits[OF b0 b(1)] by blast
  obtain w1 where w1: "or_word (lad_l1 l) (i div 64 div 64) (i div 64 mod 64) = Some w1"
      "bits w1 (insert (i div 64) (up64 S))" "length w1 = length (lad_l1 l)"
    using or_word_bits[OF b1 b(2)] by blast
  obtain w2 where "or_word (lad_l2 l) (i div 64 div 64 div 64) (i div 64 div 64 mod 64) = Some w2"
      "bits w2 (insert (i div 64 div 64) (up64 (up64 S)))" "length w2 = length (lad_l2 l)"
    using or_word_bits[OF b2 b(3)] by blast
  note w0 w1 this
  then show ?thesis using rep i ladder_rep_finite[OF rep]
    by (simp add: ladder_set_def ladder_rep_def up64_insert)
qed

text \<open>
  A summary bit is cleared exactly when the word it stands for has become empty.
\<close>

lemma clear_bit_rep:
  assumes rep: "ladder_rep l S" and i: "i \<in> S"
  shows "\<exists>l'. clear_bit l i = Some l' \<and> lad_levels l' = lad_levels l \<and>
           lad_min_price l' = lad_min_price l \<and> lad_tick l' = lad_tick l \<and>
           lad_occupied l' = lad_occupied l \<and>
           bits (lad_l0 l') (S - {i}) \<and> bits (lad_l1 l') (up64 (S - {i})) \<and>
           bits (lad_l2 l') (up64 (up64 (S - {i}))) \<and> length (lad_l0 l') = length (lad_l0 l) \<and>
           length (lad_l1 l') = length (lad_l1 l) \<and> length (lad_l2 l') = length (lad_l2 l)"
proof -
  let ?S = "S - {i}" let ?w0 = "i div 64" let ?w1 = "?w0 div 64" let ?w2 = "?w1 div 64"
  note b = ladder_rep_bounds[OF rep ladder_rep_index[OF rep i]]
  have b0: "bits (lad_l0 l) S" and b1: "bits (lad_l1 l) (up64 S)"
    and b2: "bits (lad_l2 l) (up64 (up64 S))" using rep by (auto simp: ladder_rep_def)
  obtain l0 where l0: "and_not_word (lad_l0 l) ?w0 (i mod 64) = Some l0" "bits l0 ?S"
      "length l0 = length (lad_l0 l)"
    using and_not_word_bits[OF b0 b(1)] by blast
  obtain l1 where l1: "and_not_word (lad_l1 l) ?w1 (?w0 mod 64) = Some l1" "bits l1 (up64 S - {?w0})"
      "length l1 = length (lad_l1 l)"
    using and_not_word_bits[OF b1 b(2)] by blast
  obtain l2 where l2: "and_not_word (lad_l2 l) ?w2 (?w1 mod 64) = Some l2"
      "bits l2 (up64 (up64 S) - {?w1})" "length l2 = length (lad_l2 l)"
    using and_not_word_bits[OF b2 b(3)] by blast
  have x0: "l0 ! ?w0 \<noteq> 0 \<longleftrightarrow> ?w0 \<in> up64 ?S" using bits_word_nonzero[OF l0(2)] b(1) l0(3) by simp
  have x1: "l1 ! ?w1 \<noteq> 0 \<longleftrightarrow> ?w1 \<in> up64 (up64 S - {?w0})"
    using bits_word_nonzero[OF l1(2)] b(2) l1(3) by simp
  have w0S: "?w0 \<in> up64 S" using i by (auto simp: up64_def)
  show ?thesis
  proof (cases "?w0 \<in> up64 ?S")
    case True
    then show ?thesis using l0 b b1 b2 x0 up64_remove[OF i] by (simp add: clear_bit_def Let_def)
  next
    case out0: False
    then have u1: "up64 ?S = up64 S - {?w0}" using up64_remove[OF i] by simp
    show ?thesis
    proof (cases "?w1 \<in> up64 (up64 S - {?w0})")
      case True
      then show ?thesis using l0 l1 b b2 x0 x1 out0 u1 up64_remove[OF w0S]
        by (simp add: clear_bit_def Let_def)
    next
      case False
      then show ?thesis using l0 l1 l2 b x0 x1 out0 u1 up64_remove[OF w0S]
        by (simp add: clear_bit_def Let_def)
    qed
  qed
qed

section \<open>Prices and ticks\<close>

lemma index_of_iff:
  assumes "ladder_rep l S"
  shows "index_of l p = Some i \<longleftrightarrow> i < length (lad_levels l) \<and> p = price_at l i"
proof -
  let ?t = "lad_tick l" and ?o = "p - lad_min_price l"
  have t: "?t > 0" using assms by (simp add: ladder_rep_def)
  show ?thesis
  proof (cases "?o < 0")
    case True
    moreover have "int i * ?t \<ge> 0" using t by simp
    ultimately show ?thesis by (auto simp: index_of_def price_at_def)
  next
    case False
    then have s: "?o smod ?t = ?o mod ?t" "?o sdiv ?t = ?o div ?t"
      using t by (simp_all add: signed_modulo_int_def signed_divide_int_def sgn_if)
    have "?o mod ?t = 0 \<and> nat (?o div ?t) = i \<longleftrightarrow> ?o = int i * ?t"
      using t False by (auto simp: pos_imp_zdiv_nonneg_iff)
    then show ?thesis using False by (auto simp: index_of_def price_at_def s Let_def)
  qed
qed

lemma price_at_index: "ladder_rep l S \<Longrightarrow> i < length (lad_levels l) \<Longrightarrow> index_of l (price_at l i) = Some i"
  by (simp add: index_of_iff)

lemma price_at_mono: "ladder_rep l S \<Longrightarrow> price_at l i < price_at l j \<longleftrightarrow> i < j"
  by (simp add: price_at_def ladder_rep_def)

lemma price_at_inj: "ladder_rep l S \<Longrightarrow> price_at l i = price_at l j \<longleftrightarrow> i = j"
  by (auto simp: price_at_def ladder_rep_def)

lemma in_band_iff: "in_band l p \<longleftrightarrow> (\<exists>i. index_of l p = Some i)"
  by (auto simp: in_band_def index_of_def Let_def)

lemma same_band_refl [simp]: "same_band l l"
  by (simp add: same_band_def)

lemma same_band_trans: "same_band l l' \<Longrightarrow> same_band l' l'' \<Longrightarrow> same_band l l''"
  by (simp add: same_band_def)

lemma same_band_price: "same_band l l' \<Longrightarrow> price_at l' = price_at l" "same_band l l' \<Longrightarrow> index_of l' = index_of l"
  by (auto simp: same_band_def price_at_def index_of_def fun_eq_iff Let_def)

section \<open>The operations\<close>

lemma configure_rep:
  assumes "0 < t" and "0 < n"
  shows "\<exists>l. configure m t n = Some l \<and> ladder_rep l {} \<and> lad_levels l = replicate n PriceLevel_default \<and>
           lad_min_price l = m \<and> lad_tick l = t"
  using assms by (simp add: configure_def ladder_rep_def bits_def up64_def Let_def)

lemma level_get_rep: "i < length (lad_levels l) \<Longrightarrow> level_get l i = Some (lad_levels l ! i)"
  by (simp add: level_get_def)

lemma level_put_rep:
  assumes "ladder_rep l S" and "i \<in> S"
  shows "level_put l i lvl = Some (l\<lparr>lad_levels := (lad_levels l)[i := lvl]\<rparr>)"
    and "ladder_rep (l\<lparr>lad_levels := (lad_levels l)[i := lvl]\<rparr>) S"
    and "same_band l (l\<lparr>lad_levels := (lad_levels l)[i := lvl]\<rparr>)"
  using assms ladder_rep_index[OF assms]
  by (auto simp: level_put_def same_band_def ladder_rep_def nth_list_update)

lemma ladder_at_rep:
  assumes rep: "ladder_rep l S" and i: "index_of l price = Some i"
  shows "\<exists>l'. ladder_at l price = Some (i, l') \<and> ladder_rep l' (insert i S) \<and>
           lad_levels l' = lad_levels l \<and> same_band l l'"
proof -
  have il: "i < length (lad_levels l)" using i index_of_iff[OF rep] by simp
  show ?thesis
  proof (cases "i \<in> S")
    case True
    then show ?thesis using ladder_test_rep[OF rep il] rep i by (simp add: ladder_at_def insert_absorb)
  next
    case False
    then show ?thesis using ladder_test_rep[OF rep il] ladder_set_rep[OF rep il] i
      by (auto simp: ladder_at_def same_band_def)
  qed
qed

lemma ladder_find_rep:
  assumes "ladder_rep l S"
  shows "ladder_find l price =
    Some (case index_of l price of None \<Rightarrow> None | Some i \<Rightarrow> if i \<in> S then Some i else None)"
proof (cases "index_of l price")
  case (Some i)
  then have "i < length (lad_levels l)" using index_of_iff[OF assms] by simp
  then show ?thesis using Some ladder_test_rep[OF assms, of i] by (simp add: ladder_find_def)
qed (simp add: ladder_find_def)

lemma ladder_erase_rep:
  assumes rep: "ladder_rep l S" and i: "i \<in> S"
  shows "\<exists>l'. ladder_erase l (Some i) = Some l' \<and> ladder_rep l' (S - {i}) \<and>
           lad_levels l' = (lad_levels l)[i := PriceLevel_default] \<and> same_band l l'"
proof -
  have il: "i < length (lad_levels l)" by (rule ladder_rep_index[OF rep i])
  obtain l1 where l1: "clear_bit l i = Some l1" "lad_levels l1 = lad_levels l"
      "lad_min_price l1 = lad_min_price l" "lad_tick l1 = lad_tick l" "lad_occupied l1 = lad_occupied l"
      "bits (lad_l0 l1) (S - {i})" "bits (lad_l1 l1) (up64 (S - {i}))"
      "bits (lad_l2 l1) (up64 (up64 (S - {i})))" "length (lad_l0 l1) = length (lad_l0 l)"
      "length (lad_l1 l1) = length (lad_l1 l)" "length (lad_l2 l1) = length (lad_l2 l)"
    using clear_bit_rep[OF rep i] by (elim exE conjE) (rule that)
  let ?l = "l1\<lparr>lad_levels := (lad_levels l)[i := PriceLevel_default], lad_occupied := lad_occupied l - 1\<rparr>"
  have "ladder_erase l (Some i) = Some ?l"
    using l1(1,2,5) il i ladder_test_rep[OF rep il] by (simp add: ladder_erase_def level_put_def)
  moreover have "lad_levels ?l ! j = PriceLevel_default" if "j < length (lad_levels ?l)" "j \<notin> S - {i}" for j
    using that rep by (cases "j = i") (auto simp: ladder_rep_def)
  moreover have "S - {i} \<subseteq> {..<length (lad_levels ?l)}" using rep by (auto simp: ladder_rep_def)
  moreover have "card (S - {i}) = card S - 1" using ladder_rep_finite[OF rep] i by simp
  ultimately show ?thesis using l1 rep by (simp add: ladder_rep_def same_band_def)
qed

text \<open>\<open>clear\<close> visits every occupied level and leaves an empty ladder over the same band.\<close>

lemma clear_loop_rep:
  assumes "ladder_rep l S" and "walk_result d {j \<in> S. P j} it"
    and "\<forall>j. it = Some j \<longrightarrow> (\<forall>k\<in>S. P k \<longleftrightarrow> k = j \<or> walk_before d j k)"
  shows "\<exists>l'. clear_loop d l it = Some l' \<and> ladder_rep l' S \<and> same_band l l' \<and>
    (\<forall>i<length (lad_levels l). lad_levels l' ! i =
      (if i \<in> S \<and> P i then PriceLevel_default else lad_levels l ! i))"
  using assms
proof (induction "card {j \<in> S. P j}" arbitrary: l it P rule: less_induct)
  case less
  show ?case
  proof (cases it)
    case None
    then have "{j \<in> S. P j} = {}" using less.prems by (simp add: walk_result_def)
    then show ?thesis using None less.prems(1) by (subst clear_loop.simps) auto
  next
    case (Some i)
    then have w: "walk_first d {j \<in> S. P j} i" using less.prems by (simp add: walk_result_def)
    then have iS: "i \<in> S" "P i" by (auto simp: walk_first_def)
    have il: "i < length (lad_levels l)" by (rule ladder_rep_index[OF less.prems(1) iS(1)])
    let ?l = "l\<lparr>lad_levels := (lad_levels l)[i := PriceLevel_default]\<rparr>"
    note put = level_put_rep[OF less.prems(1) iS(1), of PriceLevel_default]
    obtain r where r: "next_occupied d ?l (Some i) = Some r" "walk_result d {j \<in> S. walk_before d i j} r"
      using next_occupied_result[OF put(2), of i d] il by auto
    have P: "\<forall>k\<in>S. P k \<longleftrightarrow> k = i \<or> walk_before d i k" using less.prems(3) Some by blast
    have irr: "\<not> walk_before d i i" by (simp add: walk_before_def)
    have fin: "finite {j \<in> S. P j}" using ladder_rep_finite[OF less.prems(1)] by simp
    have "{j \<in> S. walk_before d i j} \<subset> {j \<in> S. P j}" using P iS irr by blast
    then have lt: "card {j \<in> S. walk_before d i j} < card {j \<in> S. P j}"
      by (rule psubset_card_mono[OF fin])
    have nx: "\<forall>j. r = Some j \<longrightarrow> (\<forall>k\<in>S. walk_before d i k \<longleftrightarrow> k = j \<or> walk_before d j k)"
      using r(2) unfolding walk_result_def walk_first_def walk_before_def by (auto split: if_splits)
    obtain l' where l': "clear_loop d ?l r = Some l'" "ladder_rep l' S" "same_band ?l l'"
        "\<forall>k<length (lad_levels ?l). lad_levels l' ! k =
          (if k \<in> S \<and> walk_before d i k then PriceLevel_default else lad_levels ?l ! k)"
      using less.hyps[OF lt put(2) r(2) nx] by (elim exE conjE) (rule that)
    have "clear_loop d l it = Some l'"
      using Some put(1) r(1) l'(1) by (subst clear_loop.simps) simp
    moreover have "lad_levels l' ! k = (if k \<in> S \<and> P k then PriceLevel_default else lad_levels l ! k)"
      if "k < length (lad_levels l)" for k
      using l'(4) that P iS by (cases "k = i") auto
    ultimately show ?thesis using l'(2) same_band_trans[OF put(3) l'(3)] by blast
  qed
qed

lemma ladder_clear_rep:
  assumes rep: "ladder_rep l S"
  shows "\<exists>l'. ladder_clear d l = Some l' \<and> ladder_rep l' {} \<and> same_band l l'"
proof -
  obtain r where r: "best_occupied d l = Some r" "walk_result d S r"
    using best_occupied_result[OF rep] by blast
  have "\<forall>j. r = Some j \<longrightarrow> (\<forall>k\<in>S. True \<longleftrightarrow> k = j \<or> walk_before d j k)"
    using r(2) by (auto simp: walk_result_def walk_first_def)
  then obtain l1 where l1: "clear_loop d l r = Some l1" "ladder_rep l1 S" "same_band l l1"
      "\<forall>i<length (lad_levels l). lad_levels l1 ! i =
        (if i \<in> S \<and> True then PriceLevel_default else lad_levels l ! i)"
    using clear_loop_rep[OF rep, of d "\<lambda>_. True" r] r(2) by auto
  have "lad_levels l1 ! i = PriceLevel_default" if "i < length (lad_levels l1)" for i
    using l1(2,3,4) that rep by (auto simp: same_band_def ladder_rep_def)
  then show ?thesis using r(1) l1
    by (auto simp: ladder_clear_def same_band_def ladder_rep_def bits_def up64_def)
qed

section \<open>The contract of an ordered side\<close>

text \<open>
  What the book relies on when it walks a side: \<open>begin\<close> is the first element in the order
  of the side, and the increment goes to the next one.  A sorted list of the occupied positions
  is then exactly the sequence an iteration visits.
\<close>

locale ordered_levels =
  fixes rep :: "'l \<Rightarrow> 'i set \<Rightarrow> bool"
    and best :: "'l \<Rightarrow> 'i option option"
    and succ :: "'l \<Rightarrow> 'i option \<Rightarrow> 'i option option"
    and lt :: "'i \<Rightarrow> 'i \<Rightarrow> bool"
  assumes lt_asym: "lt i j \<Longrightarrow> \<not> lt j i"
    and best_law: "rep l S \<Longrightarrow> \<exists>r. best l = Some r \<and>
      (case r of None \<Rightarrow> S = {} | Some i \<Rightarrow> i \<in> S \<and> (\<forall>j\<in>S. j = i \<or> lt i j))"
    and succ_law: "rep l S \<Longrightarrow> i \<in> S \<Longrightarrow> \<exists>r. succ l (Some i) = Some r \<and>
      (case r of None \<Rightarrow> {j \<in> S. lt i j} = {}
       | Some k \<Rightarrow> k \<in> S \<and> lt i k \<and> (\<forall>j\<in>S. lt i j \<longrightarrow> j = k \<or> lt k j))"
begin

lemma best_hd:
  assumes "rep l (set is)" and "sorted_wrt lt is"
  shows "best l = Some (hd_opt is)"
proof -
  obtain r where r: "best l = Some r" "case r of None \<Rightarrow> set is = {}
      | Some i \<Rightarrow> i \<in> set is \<and> (\<forall>j\<in>set is. j = i \<or> lt i j)"
    using best_law[OF assms(1)] by blast
  then show ?thesis using assms(2) lt_asym
    by (cases "is") (auto simp: hd_opt_def split: option.splits)
qed

lemma succ_next:
  assumes "rep l (set (xs @ i # ys))" and "sorted_wrt lt (xs @ i # ys)"
  shows "succ l (Some i) = Some (hd_opt ys)"
proof -
  have after: "j \<in> set (xs @ i # ys) \<and> lt i j \<longleftrightarrow> j \<in> set ys" for j
    using assms(2) lt_asym by (auto simp: sorted_wrt_append)
  obtain r where r: "succ l (Some i) = Some r" "case r of None \<Rightarrow> {j \<in> set (xs @ i # ys). lt i j} = {}
      | Some k \<Rightarrow> k \<in> set (xs @ i # ys) \<and> lt i k \<and> (\<forall>j\<in>set (xs @ i # ys). lt i j \<longrightarrow> j = k \<or> lt k j)"
    using succ_law[OF assms(1), of i] by auto
  show ?thesis
  proof (cases r)
    case None
    then have "\<not> lt i j" if "j \<in> set (xs @ i # ys)" for j using r(2) that by auto
    then have "j \<notin> set ys" for j using after[of j] by blast
    then have "ys = []" by (cases ys) auto
    then show ?thesis using r(1) None by (simp add: hd_opt_def)
  next
    case (Some k)
    then have k: "k \<in> set ys" "\<forall>j\<in>set ys. j = k \<or> lt k j" using r(2) after by auto
    then obtain y zs where ys: "ys = y # zs" by (cases ys) auto
    have "y = k" using k ys assms(2) lt_asym by (auto simp: sorted_wrt_append)
    then show ?thesis using r(1) Some ys by (simp add: hd_opt_def)
  qed
qed

end

lemma ladder_best_law:
  "ladder_rep l S \<Longrightarrow> \<exists>r. best_occupied d l = Some r \<and>
     (case r of None \<Rightarrow> S = {} | Some i \<Rightarrow> i \<in> S \<and> (\<forall>j\<in>S. j = i \<or> walk_before d i j))"
  using best_occupied_result[of l S d] unfolding walk_result_def walk_first_def .

lemma ladder_succ_law:
  assumes "ladder_rep l S" and "i \<in> S"
  shows "\<exists>r. next_occupied d l (Some i) = Some r \<and>
     (case r of None \<Rightarrow> {j \<in> S. walk_before d i j} = {}
      | Some k \<Rightarrow> k \<in> S \<and> walk_before d i k \<and> (\<forall>j\<in>S. walk_before d i j \<longrightarrow> j = k \<or> walk_before d k j))"
proof -
  obtain r where "next_occupied d l (Some i) = Some r" "walk_result d {j \<in> S. walk_before d i j} r"
    using next_occupied_result[OF assms(1) ladder_rep_index[OF assms]] by blast
  then show ?thesis by (cases r) (auto simp: walk_result_def walk_first_def)
qed

interpretation sd: ordered_levels ladder_rep "best_occupied d" "next_occupied d" "walk_before d" for d
proof (rule ordered_levels.intro)
  show "walk_before d i j \<Longrightarrow> \<not> walk_before d j i" for i j
    by (auto simp: walk_before_def split: if_splits)
qed (rule ladder_best_law ladder_succ_law; assumption)+

end
