(* ===== verification/Flat_Hash_Map.thy ===== *)
theory Flat_Hash_Map
  imports Order_Pool
begin

text \<open>
  The index from order identifiers to slab handles: \<open>include/xc/util/flat_hash_map.hpp\<close>.

  Open addressing with linear probing and tombstones.  \<open>fhm_rep m M\<close> says that the table \<open>m\<close>
  represents the finite map \<open>M\<close>: every key is reachable from its home slot without crossing an
  empty slot, and at least one slot is empty, so that every probe ends.  The table keeps the
  contract of the locale \<open>key_map\<close>, in which the book reasons about its index.

  The template is used at one instance, \<open>FlatHashMap<OrderId, OrderHandle>\<close>.  Slots and counters
  are natural numbers, \<open>kNoSlot\<close> is \<open>None\<close>.
\<close>

section \<open>Model\<close>

datatype SlotState = kEmpty | kOccupied | kTombstone

record FlatHashMap =
  fhm_keys :: "OrderId list"
  fhm_values :: "OrderHandle list"
  fhm_state :: "SlotState list"
  fhm_capacity :: nat
  fhm_mask :: nat
  fhm_occupied :: nat
  fhm_tombstones :: nat
  fhm_rehashes :: nat

definition std_hash :: "OrderId \<Rightarrow> u64" where
  "std_hash k = k"

definition mix_hash :: "u64 \<Rightarrow> u64" where
  "mix_hash h0 =
     (let h1 = h0 XOR drop_bit 30 h0;
          h2 = h1 * 0xBF58476D1CE4E5B9;
          h3 = h2 XOR drop_bit 27 h2;
          h4 = h3 * 0x94D049BB133111EB
      in h4 XOR drop_bit 31 h4)"

definition index_for :: "FlatHashMap \<Rightarrow> OrderId \<Rightarrow> nat" where
  "index_for m key = unat (mix_hash (std_hash key)) AND fhm_mask m"

definition next_slot :: "FlatHashMap \<Rightarrow> nat \<Rightarrow> nat" where
  "next_slot m slot = (slot + 1) AND fhm_mask m"

partial_function (option) locate_loop :: "FlatHashMap \<Rightarrow> OrderId \<Rightarrow> nat \<Rightarrow> nat option" where
  "locate_loop m key slot = do {
     st \<leftarrow> vget (fhm_state m) slot;
     if st = kEmpty then Some slot
     else do {
       k \<leftarrow> vget (fhm_keys m) slot;
       if st = kOccupied \<and> k = key then Some slot
       else locate_loop m key (next_slot m slot)
     }
   }"

definition locate :: "FlatHashMap \<Rightarrow> OrderId \<Rightarrow> nat option" where
  "locate m key = locate_loop m key (index_for m key)"

definition fhm_find :: "FlatHashMap \<Rightarrow> OrderId \<Rightarrow> OrderHandle option option" where
  "fhm_find m key = do {
     slot \<leftarrow> locate m key;
     st \<leftarrow> vget (fhm_state m) slot;
     if st = kOccupied then do { v \<leftarrow> vget (fhm_values m) slot; Some (Some v) } else Some None
   }"

definition fhm_contains :: "FlatHashMap \<Rightarrow> OrderId \<Rightarrow> bool option" where
  "fhm_contains m key = do { r \<leftarrow> fhm_find m key; Some (r \<noteq> None) }"

text \<open>The two doubling loops, \<open>round_up_power_of_two\<close> and the capacity search of \<open>grow\<close>.\<close>

partial_function (option) round_up_loop :: "nat \<Rightarrow> nat \<Rightarrow> nat option" where
  "round_up_loop result v = (if result < v then round_up_loop (2 * result) v else Some result)"

definition round_up_power_of_two :: "nat \<Rightarrow> nat option" where
  "round_up_power_of_two v = round_up_loop 8 v"

partial_function (option) grow_capacity :: "nat \<Rightarrow> nat \<Rightarrow> nat option" where
  "grow_capacity live capacity =
     (if live > capacity * 7 div 10 then grow_capacity live (2 * capacity) else Some capacity)"

definition fhm_resize :: "FlatHashMap \<Rightarrow> nat \<Rightarrow> FlatHashMap" where
  "fhm_resize m capacity = m\<lparr>fhm_capacity := capacity, fhm_mask := capacity - 1,
     fhm_keys := replicate capacity 0, fhm_values := replicate capacity 0,
     fhm_state := replicate capacity kEmpty, fhm_occupied := 0, fhm_tombstones := 0\<rparr>"

definition FlatHashMap_new :: "nat \<Rightarrow> FlatHashMap option" where
  "FlatHashMap_new minimum_capacity = do {
     c \<leftarrow> round_up_power_of_two (if minimum_capacity < 8 then 8 else minimum_capacity);
     Some (fhm_resize \<lparr>fhm_keys = [], fhm_values = [], fhm_state = [], fhm_capacity = 0,
       fhm_mask = 0, fhm_occupied = 0, fhm_tombstones = 0, fhm_rehashes = 0\<rparr> c)
   }"

definition place :: "FlatHashMap \<Rightarrow> OrderId \<Rightarrow> OrderHandle \<Rightarrow> nat \<Rightarrow> nat option \<Rightarrow> FlatHashMap option" where
  "place m key val slot first_tombstone = do {
     let target = (case first_tombstone of None \<Rightarrow> slot | Some t \<Rightarrow> t);
     ks \<leftarrow> vset (fhm_keys m) target key;
     vs \<leftarrow> vset (fhm_values m) target val;
     ss \<leftarrow> vset (fhm_state m) target kOccupied;
     Some (m\<lparr>fhm_keys := ks, fhm_values := vs, fhm_state := ss,
       fhm_tombstones := (if first_tombstone \<noteq> None then fhm_tombstones m - 1 else fhm_tombstones m),
       fhm_occupied := fhm_occupied m + 1\<rparr>)
   }"

partial_function (option) insert_loop ::
    "FlatHashMap \<Rightarrow> OrderId \<Rightarrow> OrderHandle \<Rightarrow> nat \<Rightarrow> nat option \<Rightarrow> (bool \<times> FlatHashMap) option" where
  "insert_loop m key val slot first_tombstone = do {
     st \<leftarrow> vget (fhm_state m) slot;
     if st = kEmpty then do {
       m' \<leftarrow> place m key val slot first_tombstone;
       Some (True, m')
     } else if st = kTombstone then
       insert_loop m key val (next_slot m slot)
         (if first_tombstone = None then Some slot else first_tombstone)
     else do {
       k \<leftarrow> vget (fhm_keys m) slot;
       if k = key then Some (False, m)
       else insert_loop m key val (next_slot m slot) first_tombstone
     }
   }"

text \<open>
  \<open>grow\<close> re-inserts the live entries by calling \<open>insert\<close>, which may itself call \<open>grow\<close>; the
  callback \<open>ins\<close> closes that recursion.
\<close>

definition reinsert_with ::
    "(FlatHashMap \<Rightarrow> OrderId \<Rightarrow> OrderHandle \<Rightarrow> (bool \<times> FlatHashMap) option) \<Rightarrow>
     FlatHashMap \<Rightarrow> nat \<Rightarrow> FlatHashMap \<Rightarrow> FlatHashMap option" where
  "reinsert_with ins old i m = do {
     st \<leftarrow> vget (fhm_state old) i;
     if st = kOccupied then do {
       k \<leftarrow> vget (fhm_keys old) i;
       v \<leftarrow> vget (fhm_values old) i;
       (_, m') \<leftarrow> ins m k v;
       Some m'
     } else Some m
   }"

definition grow_with ::
    "(FlatHashMap \<Rightarrow> OrderId \<Rightarrow> OrderHandle \<Rightarrow> (bool \<times> FlatHashMap) option) \<Rightarrow>
     FlatHashMap \<Rightarrow> FlatHashMap option" where
  "grow_with ins m = do {
     capacity \<leftarrow> grow_capacity (fhm_occupied m + 1) (fhm_capacity m);
     let m1 = fhm_resize m capacity;
     let m2 = m1\<lparr>fhm_rehashes := fhm_rehashes m1 + 1\<rparr>;
     foldM (reinsert_with ins m) [0..<length (fhm_state m)] m2
   }"

lemma reinsert_with_mono [partial_function_mono]:
  assumes "\<And>m k v. mono_option (\<lambda>F. ins F m k v)"
  shows "mono_option (\<lambda>F. reinsert_with (ins F) old i m)"
  unfolding reinsert_with_def by (intro bind_mono option.const_mono partial_function_mono assms)

lemma grow_with_mono [partial_function_mono]:
  assumes "\<And>m k v. mono_option (\<lambda>F. ins F m k v)"
  shows "mono_option (\<lambda>F. grow_with (ins F) m)"
  unfolding grow_with_def Let_def by (intro bind_mono option.const_mono foldM_mono reinsert_with_mono assms)

partial_function (option) fhm_insert ::
    "FlatHashMap \<Rightarrow> OrderId \<Rightarrow> OrderHandle \<Rightarrow> (bool \<times> FlatHashMap) option" where
  "fhm_insert m key val = do {
     m1 \<leftarrow> (if fhm_occupied m + fhm_tombstones m + 1 > fhm_capacity m * 7 div 10
            then grow_with fhm_insert m else Some m);
     insert_loop m1 key val (index_for m1 key) None
   }"

definition fhm_erase :: "FlatHashMap \<Rightarrow> OrderId \<Rightarrow> (bool \<times> FlatHashMap) option" where
  "fhm_erase m key = do {
     slot \<leftarrow> locate m key;
     st \<leftarrow> vget (fhm_state m) slot;
     if st \<noteq> kOccupied then Some (False, m)
     else do {
       ss \<leftarrow> vset (fhm_state m) slot kTombstone;
       Some (True, m\<lparr>fhm_state := ss, fhm_occupied := fhm_occupied m - 1,
         fhm_tombstones := fhm_tombstones m + 1\<rparr>)
     }
   }"

definition fhm_clear :: "FlatHashMap \<Rightarrow> FlatHashMap" where
  "fhm_clear m = m\<lparr>fhm_state := replicate (fhm_capacity m) kEmpty, fhm_occupied := 0, fhm_tombstones := 0\<rparr>"

definition fhm_size :: "FlatHashMap \<Rightarrow> nat" where
  "fhm_size m = fhm_occupied m"

definition fhm_is_empty :: "FlatHashMap \<Rightarrow> bool" where
  "fhm_is_empty m \<longleftrightarrow> fhm_occupied m = 0"

text \<open>The probe sequence of a key, and the condition under which it stops.\<close>

definition pos :: "FlatHashMap \<Rightarrow> OrderId \<Rightarrow> nat \<Rightarrow> nat" where
  "pos m k n = (index_for m k + n) mod fhm_capacity m"

definition stop :: "FlatHashMap \<Rightarrow> OrderId \<Rightarrow> nat \<Rightarrow> bool" where
  "stop m k i \<longleftrightarrow> fhm_state m ! i = kEmpty \<or> fhm_state m ! i = kOccupied \<and> fhm_keys m ! i = k"

definition slots :: "FlatHashMap \<Rightarrow> SlotState \<Rightarrow> nat set" where
  "slots m st = {i. i < fhm_capacity m \<and> fhm_state m ! i = st}"

definition table_ok :: "FlatHashMap \<Rightarrow> bool" where
  "table_ok m \<longleftrightarrow> (\<exists>e. fhm_capacity m = 2 ^ e) \<and> 8 \<le> fhm_capacity m \<and> fhm_mask m = fhm_capacity m - 1 \<and>
     length (fhm_keys m) = fhm_capacity m \<and> length (fhm_values m) = fhm_capacity m \<and>
     length (fhm_state m) = fhm_capacity m"

definition reachable :: "FlatHashMap \<Rightarrow> nat \<Rightarrow> bool" where
  "reachable m i \<longleftrightarrow> (\<exists>n. i = pos m (fhm_keys m ! i) n \<and>
     (\<forall>e<n. fhm_state m ! pos m (fhm_keys m ! i) e \<noteq> kEmpty))"

definition fhm_rep :: "FlatHashMap \<Rightarrow> (OrderId \<rightharpoonup> OrderHandle) \<Rightarrow> bool" where
  "fhm_rep m M \<longleftrightarrow> table_ok m \<and>
     fhm_occupied m = card (slots m kOccupied) \<and> fhm_tombstones m = card (slots m kTombstone) \<and>
     fhm_occupied m + fhm_tombstones m \<le> fhm_capacity m * 7 div 10 \<and>
     (\<forall>i\<in>slots m kOccupied. reachable m i) \<and>
     inj_on (\<lambda>i. fhm_keys m ! i) (slots m kOccupied) \<and>
     (\<forall>k v. M k = Some v \<longleftrightarrow>
        (\<exists>i\<in>slots m kOccupied. fhm_keys m ! i = k \<and> fhm_values m ! i = v))"

section \<open>Probing\<close>

lemma and_mask_mod: "table_ok m \<Longrightarrow> x AND fhm_mask m = x mod fhm_capacity m"
proof -
  assume "table_ok m"
  then obtain e where "fhm_capacity m = 2 ^ e" "fhm_mask m = mask e"
    by (auto simp: table_ok_def mask_eq_exp_minus_1)
  then show ?thesis by (simp only: take_bit_eq_mask[symmetric] take_bit_eq_mod)
qed

lemma table_ok_pos: "table_ok m \<Longrightarrow> pos m k n < fhm_capacity m"
  by (auto simp: table_ok_def pos_def)

lemma next_slot_pos: "table_ok m \<Longrightarrow> next_slot m (pos m k n) = pos m k (Suc n)"
  by (simp add: next_slot_def and_mask_mod pos_def mod_Suc_eq)

lemma index_for_pos: "table_ok m \<Longrightarrow> index_for m k = pos m k 0"
  by (simp add: pos_def index_for_def and_mask_mod)

lemma pos_covers: "table_ok m \<Longrightarrow> i < fhm_capacity m \<Longrightarrow> \<exists>n. pos m k n = i"
proof -
  assume t: "table_ok m" and i: "i < fhm_capacity m"
  have h: "index_for m k < fhm_capacity m" using table_ok_pos[OF t, of k 0] index_for_pos[OF t] by simp
  have "pos m k (i + fhm_capacity m - index_for m k) = i" using h i by (simp add: pos_def)
  then show ?thesis by blast
qed

lemma finite_slots [simp]: "finite (slots m st)"
  by (simp add: slots_def)

lemma fhm_rep_empty_slot:
  assumes "fhm_rep m M"
  shows "\<exists>i<fhm_capacity m. fhm_state m ! i = kEmpty"
proof (rule ccontr)
  assume "\<not> ?thesis"
  then have "{..<fhm_capacity m} = slots m kOccupied \<union> slots m kTombstone"
    by (auto simp: slots_def) (metis SlotState.exhaust)
  then have "fhm_capacity m = card (slots m kOccupied \<union> slots m kTombstone)"
    by (metis card_lessThan)
  also have "\<dots> \<le> fhm_occupied m + fhm_tombstones m"
    using assms card_Un_le by (auto simp: fhm_rep_def)
  also have "\<dots> < fhm_capacity m" using assms by (auto simp: fhm_rep_def table_ok_def)
  finally show False by simp
qed

text \<open>Every probe stops, at the slot of the key if it is there and at an empty one otherwise.\<close>

lemma probe_stops:
  assumes rep: "fhm_rep m M"
  obtains n where "stop m k (pos m k n)" "\<forall>e<n. \<not> stop m k (pos m k e)"
proof -
  have t: "table_ok m" using rep by (simp add: fhm_rep_def)
  obtain i where "i < fhm_capacity m" "fhm_state m ! i = kEmpty" using fhm_rep_empty_slot[OF rep] by blast
  moreover obtain n where "pos m k n = i" using pos_covers[OF t] calculation by blast
  ultimately have "stop m k (pos m k n)" by (simp add: stop_def)
  then show ?thesis using exists_least_iff[of "\<lambda>n. stop m k (pos m k n)"] that by blast
qed

lemma probe_found:
  assumes rep: "fhm_rep m M" and n: "stop m k (pos m k n)" "\<forall>e<n. \<not> stop m k (pos m k e)"
  shows "fhm_state m ! pos m k n = kOccupied \<Longrightarrow> M k = Some (fhm_values m ! pos m k n)"
    and "fhm_state m ! pos m k n \<noteq> kOccupied \<Longrightarrow> M k = None"
proof -
  have t: "table_ok m" using rep by (simp add: fhm_rep_def)
  have in_range: "pos m k n < fhm_capacity m" by (rule table_ok_pos[OF t])
  {
    assume "fhm_state m ! pos m k n = kOccupied"
    then have "fhm_keys m ! pos m k n = k" "pos m k n \<in> slots m kOccupied"
      using n(1) in_range by (auto simp: stop_def slots_def)
    then show "M k = Some (fhm_values m ! pos m k n)" using rep by (auto simp: fhm_rep_def)
  }
  assume e: "fhm_state m ! pos m k n \<noteq> kOccupied"
  then have e': "fhm_state m ! pos m k n = kEmpty" using n(1) by (simp add: stop_def)
  show "M k = None"
  proof (rule ccontr)
    assume "M k \<noteq> None"
    then obtain v where "M k = Some v" by blast
    then obtain i where i: "i \<in> slots m kOccupied" "fhm_keys m ! i = k" using rep by (auto simp: fhm_rep_def)
    then obtain a where a: "i = pos m k a" "\<forall>b<a. fhm_state m ! pos m k b \<noteq> kEmpty"
      using rep by (auto simp: fhm_rep_def reachable_def)
    have "stop m k (pos m k a)" using i a(1) by (auto simp: stop_def slots_def)
    then have "n \<le> a" using n(2) by (meson not_le)
    moreover have "n \<noteq> a" using e i a(1) by (auto simp: slots_def)
    ultimately show False using a(2) e' by auto
  qed
qed

lemma locate_loop_at:
  assumes t: "table_ok m" and "a \<le> n" and n: "stop m k (pos m k n)" "\<forall>e<n. \<not> stop m k (pos m k e)"
  shows "locate_loop m k (pos m k a) = Some (pos m k n)"
  using \<open>a \<le> n\<close>
proof (induction rule: inc_induct)
  case base
  then show ?case using n(1) table_ok_pos[OF t, of k n] t
    by (subst locate_loop.simps) (auto simp: stop_def table_ok_def)
next
  case (step a)
  have r: "pos m k a < fhm_capacity m" by (rule table_ok_pos[OF t])
  have "\<not> stop m k (pos m k a)" using n(2) step by blast
  then show ?case using r t step.IH
    by (subst locate_loop.simps) (auto simp: stop_def table_ok_def next_slot_pos[OF t])
qed

lemma locate_at:
  assumes "fhm_rep m M" and "stop m k (pos m k n)" and "\<forall>e<n. \<not> stop m k (pos m k e)"
  shows "locate m k = Some (pos m k n)"
proof -
  have t: "table_ok m" using assms(1) by (simp add: fhm_rep_def)
  show ?thesis using locate_loop_at[OF t _ assms(2,3), of 0] by (simp add: locate_def index_for_pos[OF t])
qed

lemma fhm_find_rep:
  assumes rep: "fhm_rep m M"
  shows "fhm_find m k = Some (M k)"
proof -
  have t: "table_ok m" using rep by (simp add: fhm_rep_def)
  obtain n where n: "stop m k (pos m k n)" "\<forall>e<n. \<not> stop m k (pos m k e)" using probe_stops[OF rep] .
  show ?thesis
    using locate_at[OF rep n] probe_found[OF rep n] table_ok_pos[OF t, of k n] t
    by (auto simp: fhm_find_def table_ok_def)
qed

lemma fhm_contains_rep: "fhm_rep m M \<Longrightarrow> fhm_contains m k = Some (k \<in> dom M)"
  by (auto simp: fhm_contains_def fhm_find_rep)

section \<open>Erasing\<close>

lemma pos_cong: "fhm_capacity m' = fhm_capacity m \<Longrightarrow> fhm_mask m' = fhm_mask m \<Longrightarrow> pos m' = pos m"
  by (simp add: pos_def index_for_def fun_eq_iff)

lemma fhm_erase_rep:
  assumes rep: "fhm_rep m M"
  shows "\<exists>m'. fhm_erase m k = Some (M k \<noteq> None, m') \<and> fhm_rep m' (M(k := None))"
proof -
  have t: "table_ok m" using rep by (simp add: fhm_rep_def)
  obtain n where n: "stop m k (pos m k n)" "\<forall>e<n. \<not> stop m k (pos m k e)" using probe_stops[OF rep] .
  let ?i = "pos m k n"
  have r: "?i < fhm_capacity m" by (rule table_ok_pos[OF t])
  show ?thesis
  proof (cases "fhm_state m ! ?i = kOccupied")
    case False
    then have "M k = None" by (rule probe_found(2)[OF rep n])
    moreover have "M(k := None) = M" using calculation by auto
    ultimately show ?thesis using False locate_at[OF rep n] r t rep
      by (simp add: fhm_erase_def table_ok_def)
  next
    case True
    let ?m = "m\<lparr>fhm_state := (fhm_state m)[?i := kTombstone], fhm_occupied := fhm_occupied m - 1,
      fhm_tombstones := fhm_tombstones m + 1\<rparr>"
    have eq: "fhm_erase m k = Some (True, ?m)"
      using True locate_at[OF rep n] r t by (simp add: fhm_erase_def table_ok_def)
    have key: "fhm_keys m ! ?i = k" using n(1) True by (simp add: stop_def)
    have st: "fhm_state ?m ! j = (if j = ?i then kTombstone else fhm_state m ! j)"
      if "j < fhm_capacity m" for j using that t by (simp add: table_ok_def nth_list_update)
    have occ: "slots ?m kOccupied = slots m kOccupied - {?i}" and tomb: "slots ?m kTombstone = insert ?i (slots m kTombstone)"
      using st r by (auto simp: slots_def split: if_splits)
    have iO: "?i \<in> slots m kOccupied" and iT: "?i \<notin> slots m kTombstone" using True r by (auto simp: slots_def)
    then have pos0: "0 < card (slots m kOccupied)" by (auto simp: card_gt_0_iff)
    have ps: "pos ?m = pos m" by (rule pos_cong) simp_all
    have "reachable ?m j" if "j \<in> slots ?m kOccupied" for j
    proof -
      have "reachable m j" using that rep unfolding occ fhm_rep_def by blast
      then show ?thesis unfolding reachable_def ps using st table_ok_pos[OF t] by auto
    qed
    moreover have "(M(k := None)) k' = Some v \<longleftrightarrow>
        (\<exists>j\<in>slots ?m kOccupied. fhm_keys ?m ! j = k' \<and> fhm_values ?m ! j = v)" for k' v
    proof -
      have "inj_on (\<lambda>i. fhm_keys m ! i) (slots m kOccupied)" using rep by (simp add: fhm_rep_def)
      then have "fhm_keys m ! j = k \<longleftrightarrow> j = ?i" if "j \<in> slots m kOccupied" for j
        using key iO that by (auto dest: inj_onD)
      then show ?thesis using rep unfolding fhm_rep_def occ by auto
    qed
    moreover have "inj_on (\<lambda>i. fhm_keys ?m ! i) (slots ?m kOccupied)"
      using rep unfolding fhm_rep_def occ by (auto intro: inj_on_subset)
    moreover have "fhm_occupied ?m = card (slots ?m kOccupied)"
      using rep iO unfolding occ by (simp add: fhm_rep_def)
    moreover have "fhm_tombstones ?m = card (slots ?m kTombstone)"
      using rep iT unfolding tomb by (simp add: fhm_rep_def)
    moreover have "fhm_occupied ?m + fhm_tombstones ?m \<le> fhm_capacity ?m * 7 div 10"
      using rep pos0 by (simp add: fhm_rep_def)
    moreover have "table_ok ?m" using t by (simp add: table_ok_def)
    ultimately have "fhm_rep ?m (M(k := None))" unfolding fhm_rep_def by blast
    then show ?thesis using eq probe_found(1)[OF rep n True] by simp
  qed
qed

section \<open>Inserting\<close>

definition filled_slot :: "FlatHashMap \<Rightarrow> OrderId \<Rightarrow> OrderHandle \<Rightarrow> nat \<Rightarrow> FlatHashMap" where
  "filled_slot m k v i = m\<lparr>fhm_keys := (fhm_keys m)[i := k], fhm_values := (fhm_values m)[i := v],
     fhm_state := (fhm_state m)[i := kOccupied],
     fhm_tombstones := (if fhm_state m ! i = kTombstone then fhm_tombstones m - 1 else fhm_tombstones m),
     fhm_occupied := fhm_occupied m + 1\<rparr>"

lemma filled_slot_rep:
  assumes rep: "fhm_rep m M" and k: "M k = None"
    and path: "\<forall>e<t. fhm_state m ! pos m k e \<noteq> kEmpty" and free: "fhm_state m ! pos m k t \<noteq> kOccupied"
    and load: "fhm_occupied m + fhm_tombstones m + 1 \<le> fhm_capacity m * 7 div 10"
  shows "fhm_rep (filled_slot m k v (pos m k t)) (M(k \<mapsto> v))"
proof -
  let ?i = "pos m k t" let ?m = "filled_slot m k v ?i"
  have t: "table_ok m" using rep by (simp add: fhm_rep_def)
  have r: "?i < fhm_capacity m" by (rule table_ok_pos[OF t])
  have ps: "pos ?m = pos m" and cap: "fhm_capacity ?m = fhm_capacity m"
    by (auto intro: pos_cong simp: filled_slot_def)
  have st: "fhm_state ?m ! j = (if j = ?i then kOccupied else fhm_state m ! j)"
    and ky: "fhm_keys ?m ! j = (if j = ?i then k else fhm_keys m ! j)"
    and vl: "fhm_values ?m ! j = (if j = ?i then v else fhm_values m ! j)"
    if "j < fhm_capacity m" for j
    using that t by (simp_all add: filled_slot_def table_ok_def nth_list_update)
  have occ: "slots ?m kOccupied = insert ?i (slots m kOccupied)"
    and tomb: "slots ?m kTombstone = slots m kTombstone - {?i}"
    using st r by (auto simp: slots_def cap split: if_splits)
  have iO: "?i \<notin> slots m kOccupied" using free by (simp add: slots_def)
  have iT: "?i \<in> slots m kTombstone \<longleftrightarrow> fhm_state m ! ?i = kTombstone" using r by (simp add: slots_def)
  have counts: "fhm_occupied ?m = card (slots ?m kOccupied)" "fhm_tombstones ?m = card (slots ?m kTombstone)"
    using rep iO iT unfolding occ tomb by (auto simp: filled_slot_def fhm_rep_def)
  have load': "fhm_occupied ?m + fhm_tombstones ?m \<le> fhm_capacity ?m * 7 div 10"
    using load by (auto simp: filled_slot_def)
  have old: "fhm_keys ?m ! j = fhm_keys m ! j" "fhm_values ?m ! j = fhm_values m ! j"
    if "j \<in> slots m kOccupied" for j
    using that ky vl iO by (auto simp: slots_def)
  have nk: "fhm_keys m ! j \<noteq> k" if "j \<in> slots m kOccupied" for j
    using rep k that unfolding fhm_rep_def by (metis option.distinct(1))
  have nonempty: "fhm_state ?m ! pos m k' e \<noteq> kEmpty" if "fhm_state m ! pos m k' e \<noteq> kEmpty" for k' e
    using that st[OF table_ok_pos[OF t]] by simp
  have "reachable ?m j" if "j \<in> slots ?m kOccupied" for j
  proof (cases "j = ?i")
    case True
    then show ?thesis using path nonempty ky[OF r] unfolding reachable_def ps by auto
  next
    case False
    then have j: "j \<in> slots m kOccupied" using that occ by simp
    then have "reachable m j" using rep by (simp add: fhm_rep_def)
    then show ?thesis using nonempty old(1)[OF j] unfolding reachable_def ps by auto
  qed
  moreover have "inj_on (\<lambda>j. fhm_keys ?m ! j) (slots ?m kOccupied)"
  proof -
    have "inj_on (\<lambda>j. fhm_keys m ! j) (slots m kOccupied)" using rep by (simp add: fhm_rep_def)
    then have "inj_on (\<lambda>j. fhm_keys ?m ! j) (slots m kOccupied)"
      using old(1) by (simp cong: inj_on_cong)
    then show ?thesis using nk old(1) ky[OF r] unfolding occ by (auto simp: inj_on_insert)
  qed
  moreover have "(M(k \<mapsto> v)) k' = Some v' \<longleftrightarrow>
      (\<exists>j\<in>slots ?m kOccupied. fhm_keys ?m ! j = k' \<and> fhm_values ?m ! j = v')" for k' v'
    using rep nk old ky[OF r] vl[OF r] unfolding fhm_rep_def occ by auto
  moreover have "table_ok ?m" using t by (simp add: table_ok_def filled_slot_def)
  ultimately show ?thesis using counts load' unfolding fhm_rep_def by blast
qed

lemma place_filled:
  assumes t: "table_ok m" and "fhm_state m ! pos m k n = kEmpty"
    and "ft = None \<or> (\<exists>a<n. ft = Some (pos m k a) \<and> fhm_state m ! pos m k a = kTombstone)"
    and "\<forall>e<n. \<not> stop m k (pos m k e)"
  shows "\<exists>a\<le>n. place m k v (pos m k n) ft = Some (filled_slot m k v (pos m k a)) \<and>
           fhm_state m ! pos m k a \<noteq> kOccupied \<and> (\<forall>e<a. fhm_state m ! pos m k e \<noteq> kEmpty)"
proof -
  have len: "pos m k a < length (fhm_keys m)" "pos m k a < length (fhm_values m)"
    "pos m k a < length (fhm_state m)" for a
    using t table_ok_pos[OF t, of k a] by (simp_all add: table_ok_def)
  have ne: "\<forall>e<n. fhm_state m ! pos m k e \<noteq> kEmpty" using assms(4) by (auto simp: stop_def)
  show ?thesis
  proof (cases ft)
    case None
    then show ?thesis using assms(2) ne len by (intro exI[of _ n]) (simp add: place_def filled_slot_def Let_def)
  next
    case (Some x)
    then obtain a where "a < n" "ft = Some (pos m k a)" "fhm_state m ! pos m k a = kTombstone"
      using assms(3) by auto
    then show ?thesis using ne len by (intro exI[of _ a]) (simp add: place_def filled_slot_def Let_def)
  qed
qed

lemma insert_loop_at:
  assumes t: "table_ok m" and n: "stop m k (pos m k n)" "\<forall>e<n. \<not> stop m k (pos m k e)" and "a \<le> n"
    and "ft = None \<or> (\<exists>b<a. ft = Some (pos m k b) \<and> fhm_state m ! pos m k b = kTombstone)"
  shows "if fhm_state m ! pos m k n = kOccupied then insert_loop m k v (pos m k a) ft = Some (False, m)
    else \<exists>b\<le>n. insert_loop m k v (pos m k a) ft = Some (True, filled_slot m k v (pos m k b)) \<and>
           fhm_state m ! pos m k b \<noteq> kOccupied \<and> (\<forall>e<b. fhm_state m ! pos m k e \<noteq> kEmpty)"
    (is "?goal a ft")
  using assms(4,5)
proof (induction arbitrary: ft rule: inc_induct)
  case base
  have r: "pos m k n < length (fhm_keys m)" "pos m k n < length (fhm_state m)"
    using t table_ok_pos[OF t, of k n] by (simp_all add: table_ok_def)
  show ?case
  proof (cases "fhm_state m ! pos m k n = kOccupied")
    case True
    then show ?thesis using n(1) r by (subst insert_loop.simps) (simp add: stop_def)
  next
    case False
    then have e: "fhm_state m ! pos m k n = kEmpty" using n(1) by (simp add: stop_def)
    obtain b where b: "b \<le> n" "place m k v (pos m k n) ft = Some (filled_slot m k v (pos m k b))"
        "fhm_state m ! pos m k b \<noteq> kOccupied" "\<forall>e<b. fhm_state m ! pos m k e \<noteq> kEmpty"
      using place_filled[OF t e base n(2), of v] by blast
    then have "insert_loop m k v (pos m k n) ft = Some (True, filled_slot m k v (pos m k b))"
      using e r by (subst insert_loop.simps) simp
    then show ?thesis using b False by auto
  qed
next
  case (step a)
  have r: "pos m k a < length (fhm_keys m)" "pos m k a < length (fhm_state m)"
    using t table_ok_pos[OF t, of k a] by (simp_all add: table_ok_def)
  have ns: "\<not> stop m k (pos m k a)" using n(2) step.hyps by blast
  let ?ft = "if fhm_state m ! pos m k a = kTombstone \<and> ft = None then Some (pos m k a) else ft"
  have "?ft = None \<or> (\<exists>b<Suc a. ?ft = Some (pos m k b) \<and> fhm_state m ! pos m k b = kTombstone)"
    using step.prems by (auto intro: less_SucI)
  then have "?goal (Suc a) ?ft" by (rule step.IH)
  moreover have "insert_loop m k v (pos m k a) ft = insert_loop m k v (pos m k (Suc a)) ?ft"
    using ns r by (subst insert_loop.simps)
      (cases "fhm_state m ! pos m k a"; simp add: stop_def next_slot_pos[OF t])
  ultimately show ?case by simp
qed

text \<open>An insertion that does not have to grow the table first.\<close>

lemma insert_loop_rep:
  assumes rep: "fhm_rep m M"
    and load: "fhm_occupied m + fhm_tombstones m + 1 \<le> fhm_capacity m * 7 div 10"
  shows "\<exists>m'. insert_loop m k v (index_for m k) None = Some (M k = None, m') \<and>
           fhm_rep m' (if M k = None then M(k \<mapsto> v) else M) \<and> fhm_capacity m' = fhm_capacity m \<and>
           fhm_occupied m' = fhm_occupied m + (if M k = None then 1 else 0) \<and>
           fhm_tombstones m' \<le> fhm_tombstones m"
proof -
  have t: "table_ok m" using rep by (simp add: fhm_rep_def)
  obtain n where n: "stop m k (pos m k n)" "\<forall>e<n. \<not> stop m k (pos m k e)" using probe_stops[OF rep] .
  note ins = insert_loop_at[OF t n le0, of None v]
  show ?thesis
  proof (cases "fhm_state m ! pos m k n = kOccupied")
    case True
    then show ?thesis using ins probe_found(1)[OF rep n] rep by (simp add: index_for_pos[OF t])
  next
    case False
    then have Mk: "M k = None" by (rule probe_found(2)[OF rep n])
    obtain b where b: "insert_loop m k v (pos m k 0) None = Some (True, filled_slot m k v (pos m k b))"
        "fhm_state m ! pos m k b \<noteq> kOccupied" "\<forall>e<b. fhm_state m ! pos m k e \<noteq> kEmpty"
      using ins False by auto
    have "fhm_rep (filled_slot m k v (pos m k b)) (M(k \<mapsto> v))"
      by (rule filled_slot_rep[OF rep Mk b(3,2) load])
    then show ?thesis using b(1) Mk by (auto simp: index_for_pos[OF t] filled_slot_def)
  qed
qed

section \<open>Growing\<close>

lemma round_up_loop_total:
  assumes "0 < r"
  shows "\<exists>e. round_up_loop r v = Some (r * 2 ^ e) \<and> v \<le> r * 2 ^ e"
  using assms
proof (induction "v - r" arbitrary: r rule: less_induct)
  case less
  show ?case
  proof (cases "r < v")
    case True
    then have "v - 2 * r < v - r" using less.prems by simp
    then obtain e where "round_up_loop (2 * r) v = Some (2 * r * 2 ^ e)" "v \<le> 2 * r * 2 ^ e"
      using less.hyps less.prems by fastforce
    then show ?thesis using True by (intro exI[of _ "Suc e"]) (subst round_up_loop.simps, simp add: ac_simps)
  next
    case False
    then show ?thesis by (intro exI[of _ 0]) (subst round_up_loop.simps, simp)
  qed
qed

lemma grow_capacity_total:
  assumes "0 < c"
  shows "\<exists>e. grow_capacity live c = Some (c * 2 ^ e) \<and> live \<le> c * 2 ^ e * 7 div 10"
  using assms
proof (induction "2 * live - c" arbitrary: c rule: less_induct)
  case less
  show ?case
  proof (cases "live > c * 7 div 10")
    case True
    then have "c < 2 * live" by linarith
    then have "2 * live - 2 * c < 2 * live - c" using less.prems by linarith
    then obtain e where "grow_capacity live (2 * c) = Some (2 * c * 2 ^ e)" "live \<le> 2 * c * 2 ^ e * 7 div 10"
      using less.hyps less.prems by fastforce
    then show ?thesis using True
      by (intro exI[of _ "Suc e"]) (subst grow_capacity.simps, simp add: ac_simps)
  next
    case False
    then show ?thesis by (intro exI[of _ 0]) (subst grow_capacity.simps, simp)
  qed
qed

lemma fhm_rep_all_empty:
  assumes "table_ok m" and "fhm_state m = replicate (fhm_capacity m) kEmpty"
    and "fhm_occupied m = 0" and "fhm_tombstones m = 0"
  shows "fhm_rep m Map.empty"
proof -
  have "slots m kOccupied = {}" "slots m kTombstone = {}" using assms(2) by (auto simp: slots_def)
  then show ?thesis using assms by (simp add: fhm_rep_def)
qed

lemma fhm_resize_rep:
  assumes "c = 2 ^ e" and "8 \<le> c"
  shows "fhm_rep (fhm_resize m c) Map.empty"
  using assms by (intro fhm_rep_all_empty) (auto simp: table_ok_def fhm_resize_def)

lemma FlatHashMap_new_rep: "\<exists>m. FlatHashMap_new c = Some m \<and> fhm_rep m Map.empty"
proof -
  obtain e where e: "round_up_power_of_two (if c < 8 then 8 else c) = Some (8 * 2 ^ e)"
    using round_up_loop_total[of 8 "if c < 8 then 8 else c"] unfolding round_up_power_of_two_def by auto
  have "8 * 2 ^ e = (2::nat) ^ (e + 3)" "8 \<le> (8::nat) * 2 ^ e" by (simp_all add: power_add)
  from fhm_resize_rep[OF this] show ?thesis unfolding FlatHashMap_new_def e by simp
qed

lemma fhm_insert_no_grow:
  "fhm_occupied m + fhm_tombstones m + 1 \<le> fhm_capacity m * 7 div 10 \<Longrightarrow>
   fhm_insert m k v = insert_loop m k v (index_for m k) None"
  by (subst fhm_insert.simps) simp

text \<open>The entries of \<open>m\<close> in its first \<open>j\<close> slots, which is what the rebuilt table holds after \<open>j\<close> rounds.\<close>

definition upto_slot :: "FlatHashMap \<Rightarrow> (OrderId \<rightharpoonup> OrderHandle) \<Rightarrow> nat \<Rightarrow> (OrderId \<rightharpoonup> OrderHandle)" where
  "upto_slot m M j k = (if \<exists>i\<in>slots m kOccupied. i < j \<and> fhm_keys m ! i = k then M k else None)"

lemma reinsert_rep:
  assumes rep: "fhm_rep m M" and c: "fhm_occupied m + 1 \<le> c * 7 div 10" and j: "j \<le> fhm_capacity m"
    and m2: "fhm_rep m2 Map.empty" "fhm_capacity m2 = c" "fhm_occupied m2 = 0" "fhm_tombstones m2 = 0"
  shows "\<exists>m'. foldM (reinsert_with fhm_insert m) [0..<j] m2 = Some m' \<and> fhm_rep m' (upto_slot m M j) \<and>
    fhm_capacity m' = c \<and> fhm_occupied m' = card (slots m kOccupied \<inter> {..<j}) \<and> fhm_tombstones m' = 0"
  using j
proof (induction j)
  case 0
  have "upto_slot m M 0 = Map.empty" by (auto simp: upto_slot_def fun_eq_iff)
  then show ?case using m2 by simp
next
  case (Suc j)
  then obtain m' where m': "foldM (reinsert_with fhm_insert m) [0..<j] m2 = Some m'"
      "fhm_rep m' (upto_slot m M j)" "fhm_capacity m' = c"
      "fhm_occupied m' = card (slots m kOccupied \<inter> {..<j})" "fhm_tombstones m' = 0" by auto
  have len: "j < length (fhm_state m)" "j < length (fhm_keys m)" "j < length (fhm_values m)"
    using Suc.prems rep by (auto simp: fhm_rep_def table_ok_def)
  have fold: "foldM (reinsert_with fhm_insert m) [0..<Suc j] m2 = reinsert_with fhm_insert m j m'"
    using m'(1) by (simp add: foldM_append)
  show ?case
  proof (cases "fhm_state m ! j = kOccupied")
    case False
    then have "i < Suc j \<longleftrightarrow> i < j" if "i \<in> slots m kOccupied" for i
      using that by (auto simp: slots_def less_Suc_eq)
    then have "upto_slot m M (Suc j) = upto_slot m M j"
      "slots m kOccupied \<inter> {..<Suc j} = slots m kOccupied \<inter> {..<j}"
      by (auto simp: upto_slot_def fun_eq_iff)
    moreover have "reinsert_with fhm_insert m j m' = Some m'" using False len by (simp add: reinsert_with_def)
    ultimately show ?thesis using fold m'(2-) by simp
  next
    case True
    let ?k = "fhm_keys m ! j" and ?v = "fhm_values m ! j"
    have jO: "j \<in> slots m kOccupied" using True Suc.prems by (simp add: slots_def)
    have inj: "inj_on (\<lambda>i. fhm_keys m ! i) (slots m kOccupied)" using rep by (simp add: fhm_rep_def)
    have Mk: "M ?k = Some ?v" using rep jO by (auto simp: fhm_rep_def)
    have none: "upto_slot m M j ?k = None" using inj_onD[OF inj _ _ jO] by (auto simp: upto_slot_def)
    have upd: "upto_slot m M (Suc j) = (upto_slot m M j)(?k \<mapsto> ?v)"
      using Mk jO by (auto simp: upto_slot_def fun_eq_iff less_Suc_eq)
    have sl: "slots m kOccupied \<inter> {..<Suc j} = insert j (slots m kOccupied \<inter> {..<j})" using jO by auto
    have "card (slots m kOccupied \<inter> {..<j}) \<le> fhm_occupied m"
      using rep by (auto simp: fhm_rep_def intro!: card_mono)
    then have load: "fhm_occupied m' + fhm_tombstones m' + 1 \<le> fhm_capacity m' * 7 div 10"
      using c m' by simp
    obtain m'' where "fhm_insert m' ?k ?v = Some (True, m'')" "fhm_rep m'' ((upto_slot m M j)(?k \<mapsto> ?v))"
        "fhm_capacity m'' = c" "fhm_occupied m'' = fhm_occupied m' + 1" "fhm_tombstones m'' = 0"
      using insert_loop_rep[OF m'(2) load, of ?k ?v] none fhm_insert_no_grow[OF load] m'(3,5) by auto
    moreover have "reinsert_with fhm_insert m j m' = Some m''" using calculation True len
      by (simp add: reinsert_with_def)
    ultimately show ?thesis using fold m'(4) sl unfolding upd by (simp del: fun_upd_apply)
  qed
qed

lemma grow_rep:
  assumes rep: "fhm_rep m M"
  shows "\<exists>m'. grow_with fhm_insert m = Some m' \<and> fhm_rep m' M \<and>
           fhm_occupied m' + fhm_tombstones m' + 1 \<le> fhm_capacity m' * 7 div 10"
proof -
  have t: "table_ok m" using rep by (simp add: fhm_rep_def)
  then obtain d where d: "fhm_capacity m = 2 ^ d" "8 \<le> fhm_capacity m" by (auto simp: table_ok_def)
  obtain e where e: "grow_capacity (fhm_occupied m + 1) (fhm_capacity m) = Some (fhm_capacity m * 2 ^ e)"
      "fhm_occupied m + 1 \<le> fhm_capacity m * 2 ^ e * 7 div 10"
    using grow_capacity_total[of "fhm_capacity m" "fhm_occupied m + 1"] d(2) by auto
  let ?c = "fhm_capacity m * 2 ^ e"
  let ?m2 = "(fhm_resize m ?c)\<lparr>fhm_rehashes := fhm_rehashes (fhm_resize m ?c) + 1\<rparr>"
  have c: "?c = 2 ^ (d + e)" "8 \<le> ?c" using d by (auto simp: power_add intro: le_trans[of 8 "fhm_capacity m"])
  have "fhm_rep (fhm_resize (m\<lparr>fhm_rehashes := fhm_rehashes m + 1\<rparr>) ?c) Map.empty"
    by (rule fhm_resize_rep[OF c])
  moreover have "fhm_resize (m\<lparr>fhm_rehashes := fhm_rehashes m + 1\<rparr>) ?c = ?m2"
    by (simp add: fhm_resize_def)
  ultimately have m2: "fhm_rep ?m2 Map.empty" by simp
  have fields: "fhm_capacity ?m2 = ?c" "fhm_occupied ?m2 = 0" "fhm_tombstones ?m2 = 0"
    by (simp_all add: fhm_resize_def)
  obtain m' where m': "foldM (reinsert_with fhm_insert m) [0..<fhm_capacity m] ?m2 = Some m'"
      "fhm_rep m' (upto_slot m M (fhm_capacity m))" "fhm_capacity m' = ?c"
      "fhm_occupied m' = card (slots m kOccupied \<inter> {..<fhm_capacity m})" "fhm_tombstones m' = 0"
    using reinsert_rep[OF rep e(2) le_refl m2 fields] by (elim exE conjE) (rule that)
  have "upto_slot m M (fhm_capacity m) k = M k" for k
  proof (cases "M k")
    case None
    then show ?thesis by (simp add: upto_slot_def)
  next
    case (Some v)
    then have "\<exists>i\<in>slots m kOccupied. fhm_keys m ! i = k" using rep by (auto simp: fhm_rep_def)
    then show ?thesis by (auto simp: upto_slot_def slots_def)
  qed
  then have full: "upto_slot m M (fhm_capacity m) = M" by (rule ext)
  have "slots m kOccupied \<inter> {..<fhm_capacity m} = slots m kOccupied" by (auto simp: slots_def)
  then have "fhm_occupied m' = fhm_occupied m" using m'(4) rep by (simp add: fhm_rep_def)
  moreover have "grow_with fhm_insert m = Some m'"
    using m'(1) e(1) t by (simp add: grow_with_def Let_def table_ok_def)
  ultimately show ?thesis using m'(2,3,5) e(2) full by auto
qed

lemma fhm_insert_rep:
  assumes rep: "fhm_rep m M"
  shows "\<exists>m'. fhm_insert m k v = Some (M k = None, m') \<and> fhm_rep m' (if M k = None then M(k \<mapsto> v) else M)"
proof (cases "fhm_occupied m + fhm_tombstones m + 1 \<le> fhm_capacity m * 7 div 10")
  case True
  then show ?thesis using insert_loop_rep[OF rep True, of k v] fhm_insert_no_grow[OF True] by auto
next
  case False
  obtain m1 where m1: "grow_with fhm_insert m = Some m1" "fhm_rep m1 M"
      "fhm_occupied m1 + fhm_tombstones m1 + 1 \<le> fhm_capacity m1 * 7 div 10"
    using grow_rep[OF rep] by blast
  have "fhm_insert m k v = insert_loop m1 k v (index_for m1 k) None"
    using False m1(1) by (subst fhm_insert.simps) simp
  then show ?thesis using insert_loop_rep[OF m1(2,3), of k v] by auto
qed

lemma fhm_size_rep: "fhm_rep m M \<Longrightarrow> fhm_size m = card (dom M)"
proof -
  assume rep: "fhm_rep m M"
  have "dom M = (\<lambda>i. fhm_keys m ! i) ` slots m kOccupied" using rep by (force simp: fhm_rep_def dom_def)
  moreover have "inj_on (\<lambda>i. fhm_keys m ! i) (slots m kOccupied)" using rep by (simp add: fhm_rep_def)
  ultimately show ?thesis using rep by (simp add: card_image fhm_size_def fhm_rep_def)
qed

lemma fhm_clear_rep: "fhm_rep m M \<Longrightarrow> fhm_rep (fhm_clear m) Map.empty"
  by (intro fhm_rep_all_empty) (auto simp: fhm_rep_def table_ok_def fhm_clear_def)

section \<open>The contract of a key map\<close>

locale key_map =
  fixes rep :: "'m \<Rightarrow> ('k \<rightharpoonup> 'v) \<Rightarrow> bool"
    and look :: "'m \<Rightarrow> 'k \<Rightarrow> 'v option option"
    and ins :: "'m \<Rightarrow> 'k \<Rightarrow> 'v \<Rightarrow> (bool \<times> 'm) option"
    and del :: "'m \<Rightarrow> 'k \<Rightarrow> (bool \<times> 'm) option"
    and count :: "'m \<Rightarrow> nat"
  assumes look_law: "rep m M \<Longrightarrow> look m k = Some (M k)"
    and ins_law: "rep m M \<Longrightarrow>
      \<exists>m'. ins m k v = Some (M k = None, m') \<and> rep m' (if M k = None then M(k \<mapsto> v) else M)"
    and del_law: "rep m M \<Longrightarrow> \<exists>m'. del m k = Some (M k \<noteq> None, m') \<and> rep m' (M(k := None))"
    and count_law: "rep m M \<Longrightarrow> count m = card (dom M)"
begin

lemma look_after_ins:
  assumes "rep m M" and "M k = None"
  shows "\<exists>m'. ins m k v = Some (True, m') \<and>
    (\<forall>j. look m' j = Some (if j = k then Some v else M j)) \<and> rep m' (M(k \<mapsto> v))"
  using ins_law[OF assms(1), of k v] assms(2) look_law by fastforce

lemma look_after_del:
  assumes "rep m M"
  shows "\<exists>m'. del m k = Some (M k \<noteq> None, m') \<and>
    (\<forall>j. look m' j = Some (if j = k then None else M j)) \<and> rep m' (M(k := None))"
  using del_law[OF assms, of k] look_law by fastforce

text \<open>Inserting and erasing the same fresh key restores the map, whatever the table did inside.\<close>

lemma ins_del_restores:
  assumes "rep m M" and "M k = None"
  shows "\<exists>m' m''. ins m k v = Some (True, m') \<and> del m' k = Some (True, m'') \<and> rep m'' M"
proof -
  obtain m' where m': "ins m k v = Some (True, m')" "rep m' (M(k \<mapsto> v))"
    using look_after_ins[OF assms] by blast
  obtain m'' where m'': "del m' k = Some (True, m'')" "rep m'' ((M(k \<mapsto> v))(k := None))"
    using del_law[OF m'(2), of k] by auto
  have "(M(k \<mapsto> v))(k := None) = M" using assms(2) by auto
  then show ?thesis using m' m'' by auto
qed

end

interpretation ix: key_map fhm_rep fhm_find fhm_insert fhm_erase fhm_size
  by (rule key_map.intro) (rule fhm_find_rep fhm_insert_rep fhm_erase_rep fhm_size_rep; assumption)+

end
