(* ===== verification/Order_Book.thy ===== *)
theory Order_Book
  imports Price_Ladder Flat_Hash_Map
begin

text \<open>
  The limit order book of one instrument: \<open>include/xc/core/order_book.hpp\<close> and
  \<open>src/core/order_book.cpp\<close>, over the slab, the price ladders and the hash index.

  The two template instances of \<open>match\<close> and \<open>fillable\<close> are told apart by the side whose levels
  they walk.  A level is named by its index in the ladder, where the code holds a reference into
  the level array.  Output vectors are lists that grow at their end; the optional pointer to the
  withdrawals is an option.  All loops are \<open>partial_function\<close>s, so that a loop that does not end
  and an execution that goes wrong are both \<open>None\<close>; \<open>Book_Refinement\<close> shows that neither happens.
\<close>

section \<open>State and results\<close>

record OrderBook =
  bk_instrument :: Instrument
  bk_pool :: OrderPool
  bk_bids :: PriceLadder
  bk_asks :: PriceLadder
  bk_index :: FlatHashMap
  bk_next_trade_id :: u64

record SubmitResult =
  sr_reject :: RejectReason
  sr_filled :: Quantity
  sr_stp_cancelled :: Quantity
  sr_rested :: bool

definition SubmitResult_default :: SubmitResult where
  "SubmitResult_default =
     \<lparr>sr_reject = RejectNone, sr_filled = 0, sr_stp_cancelled = 0, sr_rested = False\<rparr>"

definition sr_accepted :: "SubmitResult \<Rightarrow> bool" where
  "sr_accepted r \<longleftrightarrow> sr_reject r = RejectNone"

record CancelResult =
  cr_reject :: RejectReason
  cr_order :: Order

definition CancelResult_default :: CancelResult where
  "CancelResult_default = \<lparr>cr_reject = RejectNone, cr_order = Order_default\<rparr>"

definition cr_accepted :: "CancelResult \<Rightarrow> bool" where
  "cr_accepted r \<longleftrightarrow> cr_reject r = RejectNone"

record ReplaceResult =
  rr_reject :: RejectReason
  rr_priority_retained :: bool
  rr_previous :: Order
  rr_filled :: Quantity
  rr_stp_cancelled :: Quantity
  rr_rested :: bool

definition ReplaceResult_default :: ReplaceResult where
  "ReplaceResult_default = \<lparr>rr_reject = RejectNone, rr_priority_retained = False,
     rr_previous = Order_default, rr_filled = 0, rr_stp_cancelled = 0, rr_rested = False\<rparr>"

definition rr_accepted :: "ReplaceResult \<Rightarrow> bool" where
  "rr_accepted r \<longleftrightarrow> rr_reject r = RejectNone"

text \<open>Bids descend and asks ascend.\<close>

definition desc :: "Side \<Rightarrow> bool" where
  "desc s \<longleftrightarrow> s = Buy"

definition book_levels :: "Side \<Rightarrow> OrderBook \<Rightarrow> PriceLadder" where
  "book_levels s b = (case s of Buy \<Rightarrow> bk_bids b | Sell \<Rightarrow> bk_asks b)"

definition set_book_levels :: "Side \<Rightarrow> OrderBook \<Rightarrow> PriceLadder \<Rightarrow> OrderBook" where
  "set_book_levels s b l = (case s of Buy \<Rightarrow> b\<lparr>bk_bids := l\<rparr> | Sell \<Rightarrow> b\<lparr>bk_asks := l\<rparr>)"

section \<open>Construction and validation\<close>

definition OrderBook_new :: "Instrument \<Rightarrow> nat \<Rightarrow> OrderBook option" where
  "OrderBook_new ins initial_capacity = do {
     index \<leftarrow> FlatHashMap_new (initial_capacity * 2);
     bids \<leftarrow> configure (ladder_base ins) (ins_tick_size ins) (tick_count ins);
     asks \<leftarrow> configure (ladder_base ins) (ins_tick_size ins) (tick_count ins);
     Some \<lparr>bk_instrument = ins, bk_pool = OrderPool_new initial_capacity, bk_bids = bids,
       bk_asks = asks, bk_index = index, bk_next_trade_id = 1\<rparr>
   }"

definition validate :: "OrderBook \<Rightarrow> Order \<Rightarrow> RejectReason option" where
  "validate b ord =
     (if ord_instrument ord \<noteq> ins_id (bk_instrument b) then Some UnknownInstrument
      else if \<not> is_valid_quantity (bk_instrument b) (ord_quantity ord) then Some InvalidQuantity
      else if ord_type ord = Limit \<and> \<not> is_valid_price (bk_instrument b) (ord_price ord)
        then Some InvalidPrice
      else do {
        dup \<leftarrow> fhm_contains (bk_index b) (ord_id ord);
        Some (if dup then DuplicateOrderId else RejectNone)
      })"

section \<open>Liquidity for fill-or-kill\<close>

definition prevention_active :: "SelfTradePolicy \<Rightarrow> AccountId \<Rightarrow> bool" where
  "prevention_active policy account \<longleftrightarrow> policy \<noteq> Allow \<and> id_valid account"

text \<open>Without self-trade prevention: the running sum of the level totals.\<close>

partial_function (option) fillable_totals ::
    "bool \<Rightarrow> PriceLadder \<Rightarrow> (Price \<Rightarrow> bool) \<Rightarrow> Quantity \<Rightarrow> nat option \<Rightarrow> Quantity \<Rightarrow> Quantity option" where
  "fillable_totals d l crosses needed it available = (case it of
       None \<Rightarrow> Some available
     | Some i \<Rightarrow> do {
         lvl \<leftarrow> level_get l i;
         if \<not> crosses (price_at l i) then Some available
         else do {
           let available' = available + lvl_total_quantity lvl;
           if available' \<ge> needed then Some available'
           else do {
             it' \<leftarrow> next_occupied d l (Some i);
             fillable_totals d l crosses needed it' available'
           }
         }
       })"

text \<open>
  With prevention: order by order.  The first component of the result is True when the walk has
  returned, the others are \<open>unallocated\<close> and \<open>will_fill\<close>.
\<close>

definition fillable_order ::
    "SelfTradePolicy \<Rightarrow> AccountId \<Rightarrow> Order \<Rightarrow> Quantity \<Rightarrow> Quantity \<Rightarrow> bool \<times> Quantity \<times> Quantity" where
  "fillable_order policy account resting unallocated will_fill =
     (let trade =
        (let traded = min unallocated (ord_remaining resting);
             left = unallocated - traded
         in (left = 0, left, will_fill + traded))
      in if ord_account resting = account then
           (case policy of
              CancelIncoming \<Rightarrow> (True, unallocated, will_fill)
            | CancelBoth \<Rightarrow> (True, unallocated, will_fill)
            | CancelResting \<Rightarrow> (False, unallocated, will_fill)
            | DecrementBoth \<Rightarrow>
                (let left = unallocated - min unallocated (ord_remaining resting)
                 in (left = 0, left, will_fill))
            | Allow \<Rightarrow> trade)
         else trade)"

partial_function (option) fillable_queue ::
    "OrderPool \<Rightarrow> SelfTradePolicy \<Rightarrow> AccountId \<Rightarrow> OrderHandle \<Rightarrow> Quantity \<Rightarrow> Quantity \<Rightarrow>
     (bool \<times> Quantity \<times> Quantity) option" where
  "fillable_queue p policy account handle unallocated will_fill =
     (if handle = kNullHandle then Some (False, unallocated, will_fill)
      else do {
        resting \<leftarrow> pool_order p handle;
        let (returned, unallocated', will_fill') = fillable_order policy account resting unallocated will_fill;
        if returned then Some (True, unallocated', will_fill')
        else do {
          n \<leftarrow> pool_node p handle;
          fillable_queue p policy account (node_next n) unallocated' will_fill'
        }
      })"

partial_function (option) fillable_walk ::
    "bool \<Rightarrow> OrderPool \<Rightarrow> PriceLadder \<Rightarrow> (Price \<Rightarrow> bool) \<Rightarrow> SelfTradePolicy \<Rightarrow> AccountId \<Rightarrow> nat option \<Rightarrow>
     Quantity \<Rightarrow> Quantity \<Rightarrow> Quantity option" where
  "fillable_walk d p l crosses policy account it unallocated will_fill = (case it of
       None \<Rightarrow> Some will_fill
     | Some i \<Rightarrow> do {
         lvl \<leftarrow> level_get l i;
         if \<not> crosses (price_at l i) then Some will_fill
         else do {
           (returned, unallocated', will_fill') \<leftarrow>
             fillable_queue p policy account (level_front lvl) unallocated will_fill;
           if returned then Some will_fill'
           else do {
             it' \<leftarrow> next_occupied d l (Some i);
             fillable_walk d p l crosses policy account it' unallocated' will_fill'
           }
         }
       })"

definition fillable :: "OrderBook \<Rightarrow> Side \<Rightarrow> (Price \<Rightarrow> bool) \<Rightarrow> Quantity \<Rightarrow> AccountId \<Rightarrow> Quantity option" where
  "fillable b s crosses needed account = do {
     let policy = ins_self_trade_policy (bk_instrument b);
     it \<leftarrow> best_occupied (desc s) (book_levels s b);
     if \<not> prevention_active policy account
     then fillable_totals (desc s) (book_levels s b) crosses needed it 0
     else fillable_walk (desc s) (bk_pool b) (book_levels s b) crosses policy account it needed 0
   }"

section \<open>Matching\<close>

definition drop_resting :: "Side \<Rightarrow> nat \<Rightarrow> OrderHandle \<Rightarrow> OrderBook \<Rightarrow> OrderBook option" where
  "drop_resting s i handle b = do {
     ord \<leftarrow> pool_order (bk_pool b) handle;
     lvl \<leftarrow> level_get (book_levels s b) i;
     (p1, lvl') \<leftarrow> unlink (bk_pool b) lvl handle;
     l' \<leftarrow> level_put (book_levels s b) i lvl';
     (_, index') \<leftarrow> fhm_erase (bk_index b) (ord_id ord);
     p2 \<leftarrow> release p1 handle;
     Some ((set_book_levels s b l')\<lparr>bk_pool := p2, bk_index := index'\<rparr>)
   }"

definition reduce_level :: "Side \<Rightarrow> nat \<Rightarrow> Quantity \<Rightarrow> OrderBook \<Rightarrow> OrderBook option" where
  "reduce_level s i quantity b = do {
     lvl \<leftarrow> level_get (book_levels s b) i;
     lvl' \<leftarrow> level_reduce lvl quantity;
     l' \<leftarrow> level_put (book_levels s b) i lvl';
     Some (set_book_levels s b l')
   }"

definition set_resting :: "OrderHandle \<Rightarrow> Order \<Rightarrow> OrderBook \<Rightarrow> OrderBook option" where
  "set_resting handle ord b = do {
     p' \<leftarrow> pool_set_order (bk_pool b) handle ord;
     Some (b\<lparr>bk_pool := p'\<rparr>)
   }"

record Outputs =
  out_incoming :: Order
  out_fills :: "Fill list"
  out_withdrawals :: "Withdrawal list option"
  out_stp_cancelled :: Quantity

definition record_withdrawal :: "Instrument \<Rightarrow> Order \<Rightarrow> Quantity \<Rightarrow> bool \<Rightarrow> Outputs \<Rightarrow> Outputs" where
  "record_withdrawal ins resting quantity fully_removed ou =
     (case out_withdrawals ou of
        None \<Rightarrow> ou
      | Some ws \<Rightarrow> ou\<lparr>out_withdrawals := Some (ws @
          [\<lparr>wd_order = ord_id resting, wd_account = ord_account resting, wd_instrument = ins_id ins,
            wd_side = ord_side resting, wd_quantity = quantity, wd_fully_removed = fully_removed,
            wd_reason = SelfTrade\<rparr>])\<rparr>)"

definition cancel_incoming :: "Outputs \<Rightarrow> Outputs" where
  "cancel_incoming ou =
     ou\<lparr>out_stp_cancelled := out_stp_cancelled ou + ord_remaining (out_incoming ou),
        out_incoming := (out_incoming ou)\<lparr>ord_remaining := 0\<rparr>\<rparr>"

definition make_fill :: "Instrument \<Rightarrow> u64 \<Rightarrow> Price \<Rightarrow> Quantity \<Rightarrow> Order \<Rightarrow> Order \<Rightarrow> bool \<Rightarrow> Fill" where
  "make_fill ins tid price quantity incoming resting resting_filled =
     \<lparr>fill_id = tid, fill_instrument = ins_id ins, fill_price = price, fill_quantity = quantity,
      fill_aggressor_order = ord_id incoming, fill_resting_order = ord_id resting,
      fill_aggressor_account = ord_account incoming, fill_resting_account = ord_account resting,
      fill_aggressor_side = ord_side incoming, fill_resting_filled = resting_filled,
      fill_timestamp = ord_accepted_at incoming\<rparr>"

text \<open>
  One round of the inner loop of \<open>match\<close>, for the order at the front of the level.  The boolean is
  True when the loop goes round again (its end or a \<open>continue\<close>), False after a \<open>break\<close>.
\<close>

definition match_trade ::
    "Side \<Rightarrow> nat \<Rightarrow> Price \<Rightarrow> OrderHandle \<Rightarrow> OrderBook \<times> Outputs \<Rightarrow> (bool \<times> OrderBook \<times> Outputs) option" where
  "match_trade s i level_price handle st = do {
     let (b, ou) = st;
     resting \<leftarrow> pool_order (bk_pool b) handle;
     let quantity = min (ord_remaining (out_incoming ou)) (ord_remaining resting);
     let incoming = (out_incoming ou)\<lparr>ord_remaining := ord_remaining (out_incoming ou) - quantity\<rparr>;
     let resting' = resting\<lparr>ord_remaining := ord_remaining resting - quantity\<rparr>;
     b1 \<leftarrow> set_resting handle resting' b;
     b2 \<leftarrow> reduce_level s i quantity b1;
     let resting_filled = (ord_remaining resting' = 0);
     let fill = make_fill (bk_instrument b) (bk_next_trade_id b2) level_price quantity incoming resting'
       resting_filled;
     let b3 = b2\<lparr>bk_next_trade_id := bk_next_trade_id b2 + 1\<rparr>;
     b4 \<leftarrow> (if resting_filled then drop_resting s i handle b3 else Some b3);
     Some (True, b4, ou\<lparr>out_incoming := incoming, out_fills := out_fills ou @ [fill]\<rparr>)
   }"

definition match_decrement ::
    "Side \<Rightarrow> nat \<Rightarrow> OrderHandle \<Rightarrow> OrderBook \<times> Outputs \<Rightarrow> (bool \<times> OrderBook \<times> Outputs) option" where
  "match_decrement s i handle st = do {
     let (b, ou) = st;
     resting \<leftarrow> pool_order (bk_pool b) handle;
     let overlap = min (ord_remaining (out_incoming ou)) (ord_remaining resting);
     let incoming = (out_incoming ou)\<lparr>
         ord_remaining := ord_remaining (out_incoming ou) - overlap,
         ord_quantity := ord_quantity (out_incoming ou) - overlap\<rparr>;
     let resting' = resting\<lparr>ord_remaining := ord_remaining resting - overlap,
         ord_quantity := ord_quantity resting - overlap\<rparr>;
     b1 \<leftarrow> set_resting handle resting' b;
     b2 \<leftarrow> reduce_level s i overlap b1;
     let ou1 = record_withdrawal (bk_instrument b) resting' overlap (ord_remaining resting' = 0)
       (ou\<lparr>out_incoming := incoming, out_stp_cancelled := out_stp_cancelled ou + overlap\<rparr>);
     b3 \<leftarrow> (if ord_remaining resting' = 0 then drop_resting s i handle b2 else Some b2);
     Some (True, b3, ou1)
   }"

definition match_one ::
    "Side \<Rightarrow> nat \<Rightarrow> Price \<Rightarrow> OrderBook \<times> Outputs \<Rightarrow> (bool \<times> OrderBook \<times> Outputs) option" where
  "match_one s i level_price st = do {
     let (b, ou) = st;
     let ins = bk_instrument b;
     lvl \<leftarrow> level_get (book_levels s b) i;
     let handle = level_front lvl;
     resting \<leftarrow> pool_order (bk_pool b) handle;
     if prevention_active (ins_self_trade_policy ins) (ord_account (out_incoming ou)) \<and>
        ord_account resting = ord_account (out_incoming ou)
     then (case ins_self_trade_policy ins of
         CancelIncoming \<Rightarrow> Some (False, b, cancel_incoming ou)
       | CancelResting \<Rightarrow> do {
           b' \<leftarrow> drop_resting s i handle b;
           Some (True, b', record_withdrawal ins resting (ord_remaining resting) True ou)
         }
       | CancelBoth \<Rightarrow> do {
           b' \<leftarrow> drop_resting s i handle b;
           Some (False, b', record_withdrawal ins resting (ord_remaining resting) True (cancel_incoming ou))
         }
       | DecrementBoth \<Rightarrow> match_decrement s i handle (b, ou)
       | Allow \<Rightarrow> Some (False, b, ou))
     else match_trade s i level_price handle (b, ou)
   }"

partial_function (option) match_level ::
    "Side \<Rightarrow> nat \<Rightarrow> Price \<Rightarrow> OrderBook \<times> Outputs \<Rightarrow> (OrderBook \<times> Outputs) option" where
  "match_level s i level_price st = do {
     lvl \<leftarrow> level_get (book_levels s (fst st)) i;
     if ord_remaining (out_incoming (snd st)) > 0 \<and> \<not> level_empty lvl then do {
       (again, st') \<leftarrow> match_one s i level_price st;
       if again then match_level s i level_price st' else Some st'
     } else Some st
   }"

definition erase_if_empty :: "Side \<Rightarrow> nat \<Rightarrow> OrderBook \<Rightarrow> OrderBook option" where
  "erase_if_empty s i b = do {
     lvl \<leftarrow> level_get (book_levels s b) i;
     if level_empty lvl then do {
       l' \<leftarrow> ladder_erase (book_levels s b) (Some i);
       Some (set_book_levels s b l')
     } else Some b
   }"

partial_function (option) match_loop ::
    "Side \<Rightarrow> (Price \<Rightarrow> bool) \<Rightarrow> OrderBook \<times> Outputs \<Rightarrow> (OrderBook \<times> Outputs) option" where
  "match_loop s crosses st =
     (if ord_remaining (out_incoming (snd st)) > 0 \<and> \<not> ladder_empty (book_levels s (fst st)) then do {
        it \<leftarrow> best_occupied (desc s) (book_levels s (fst st));
        i \<leftarrow> it;
        let level_price = price_at (book_levels s (fst st)) i;
        if \<not> crosses level_price then Some st
        else do {
          st1 \<leftarrow> match_level s i level_price st;
          b2 \<leftarrow> erase_if_empty s i (fst st1);
          match_loop s crosses (b2, snd st1)
        }
      } else Some st)"

section \<open>Resting and submitting\<close>

definition best_of :: "Side \<Rightarrow> OrderBook \<Rightarrow> Price option option" where
  "best_of s b =
     (if ladder_empty (book_levels s b) then Some None
      else do {
        it \<leftarrow> best_occupied (desc s) (book_levels s b);
        i \<leftarrow> it;
        Some (Some (price_at (book_levels s b) i))
      })"

definition best_bid :: "OrderBook \<Rightarrow> Price option option" where
  "best_bid b = best_of Buy b"

definition best_ask :: "OrderBook \<Rightarrow> Price option option" where
  "best_ask b = best_of Sell b"

definition would_cross :: "OrderBook \<Rightarrow> Order \<Rightarrow> bool option" where
  "would_cross b ord =
     (if ord_type ord = Market then Some True
      else if is_buy ord then do {
        ask \<leftarrow> best_ask b;
        Some (case ask of None \<Rightarrow> False | Some a \<Rightarrow> ord_price ord \<ge> a)
      } else do {
        bid \<leftarrow> best_bid b;
        Some (case bid of None \<Rightarrow> False | Some x \<Rightarrow> ord_price ord \<le> x)
      })"

definition crosses_at :: "bool \<Rightarrow> Price \<Rightarrow> bool \<Rightarrow> Price \<Rightarrow> bool" where
  "crosses_at is_market limit buying level_price =
     (if is_market then True else if buying then limit \<ge> level_price else limit \<le> level_price)"

definition rest :: "OrderBook \<Rightarrow> Order \<Rightarrow> OrderBook option" where
  "rest b ord = do {
     let s = ord_side ord;
     (handle, p1) \<leftarrow> acquire (bk_pool b) ord;
     (_, index') \<leftarrow> fhm_insert (bk_index b) (ord_id ord) handle;
     (i, l1) \<leftarrow> ladder_at (book_levels s b) (ord_price ord);
     lvl \<leftarrow> level_get l1 i;
     (p2, lvl') \<leftarrow> push_back p1 lvl handle;
     l2 \<leftarrow> level_put l1 i lvl';
     Some ((set_book_levels s b l2)\<lparr>bk_pool := p2, bk_index := index'\<rparr>)
   }"

type_synonym Streams = "Fill list \<times> Withdrawal list option"

text \<open>The body of \<open>insert\<close> after validation and the post-only check.\<close>

definition insert_matched ::
    "OrderBook \<Rightarrow> Order \<Rightarrow> Streams \<Rightarrow> (SubmitResult \<times> Streams \<times> OrderBook) option" where
  "insert_matched b ord out = do {
     let requested = ord_remaining ord;
     let is_market = (ord_type ord = Market);
     let s = opposite (ord_side ord);
     let crosses = crosses_at is_market (ord_price ord) (is_buy ord);
     killed \<leftarrow> (if ord_tif ord = FillOrKill then do {
         available \<leftarrow> fillable b s crosses requested (ord_account ord);
         Some (available < requested)
       } else Some False);
     if killed then Some (SubmitResult_default\<lparr>sr_reject := FillOrKillUnfillable\<rparr>, out, b)
     else do {
       (b1, ou) \<leftarrow> match_loop s crosses (b, \<lparr>out_incoming = ord, out_fills = fst out,
                      out_withdrawals = snd out, out_stp_cancelled = 0\<rparr>);
       let incoming = out_incoming ou;
       let result = SubmitResult_default\<lparr>
          sr_stp_cancelled := out_stp_cancelled ou,
          sr_filled := requested - ord_remaining incoming - out_stp_cancelled ou\<rparr>;
       let out' = (out_fills ou, out_withdrawals ou);
       if ord_remaining incoming = 0 then Some (result, out', b1)
       else do {
         assert_that (ord_tif incoming \<noteq> FillOrKill);
         if is_market \<or> ord_tif incoming = ImmediateOrCancel then Some (result, out', b1)
         else do {
           b2 \<leftarrow> rest b1 incoming;
           Some (result\<lparr>sr_rested := True\<rparr>, out', b2)
         }
       }
     }
   }"

definition book_insert ::
    "OrderBook \<Rightarrow> Order \<Rightarrow> Streams \<Rightarrow> (SubmitResult \<times> Streams \<times> OrderBook) option" where
  "book_insert b ord out = do {
     reject \<leftarrow> validate b ord;
     if reject \<noteq> RejectNone then Some (SubmitResult_default\<lparr>sr_reject := reject\<rparr>, out, b)
     else do {
       refused \<leftarrow> (if ord_post_only ord then would_cross b ord else Some False);
       if refused then Some (SubmitResult_default\<lparr>sr_reject := PostOnlyWouldCross\<rparr>, out, b)
       else insert_matched b ord out
     }
   }"

definition submit :: "OrderBook \<Rightarrow> Order \<Rightarrow> Streams \<Rightarrow> (SubmitResult \<times> Streams \<times> OrderBook) option" where
  "submit b ord out = book_insert b (ord\<lparr>ord_remaining := ord_quantity ord\<rparr>) out"

section \<open>Cancelling and amending\<close>

definition unlink_resting :: "Side \<Rightarrow> Price \<Rightarrow> OrderHandle \<Rightarrow> OrderBook \<Rightarrow> OrderBook option" where
  "unlink_resting s price handle b = do {
     it \<leftarrow> ladder_find (book_levels s b) price;
     i \<leftarrow> it;
     lvl \<leftarrow> level_get (book_levels s b) i;
     (p1, lvl') \<leftarrow> unlink (bk_pool b) lvl handle;
     l' \<leftarrow> level_put (book_levels s b) i lvl';
     erase_if_empty s i ((set_book_levels s b l')\<lparr>bk_pool := p1\<rparr>)
   }"

definition cancel :: "OrderBook \<Rightarrow> OrderId \<Rightarrow> (CancelResult \<times> OrderBook) option" where
  "cancel b oid = do {
     found \<leftarrow> fhm_find (bk_index b) oid;
     (case found of
        None \<Rightarrow> Some (CancelResult_default\<lparr>cr_reject := UnknownOrder\<rparr>, b)
      | Some handle \<Rightarrow> do {
          ord \<leftarrow> pool_order (bk_pool b) handle;
          b1 \<leftarrow> unlink_resting (ord_side ord) (ord_price ord) handle b;
          (_, index') \<leftarrow> fhm_erase (bk_index b1) oid;
          p' \<leftarrow> release (bk_pool b1) handle;
          Some (CancelResult_default\<lparr>cr_order := ord\<rparr>, b1\<lparr>bk_index := index', bk_pool := p'\<rparr>)
        })
   }"

definition replace_in_place ::
    "OrderBook \<Rightarrow> OrderHandle \<Rightarrow> Order \<Rightarrow> Quantity \<Rightarrow> OrderBook option" where
  "replace_in_place b handle previous new_quantity = do {
     let s = ord_side previous;
     it \<leftarrow> ladder_find (book_levels s b) (ord_price previous);
     i \<leftarrow> it;
     resting \<leftarrow> pool_order (bk_pool b) handle;
     let new_remaining = new_quantity - filled previous;
     assert_that (ord_remaining resting \<ge> new_remaining);
     b1 \<leftarrow> reduce_level s i (ord_remaining resting - new_remaining) b;
     set_resting handle (resting\<lparr>ord_quantity := new_quantity, ord_remaining := new_remaining\<rparr>) b1
   }"

definition amended_order :: "Order \<Rightarrow> Price \<Rightarrow> Quantity \<Rightarrow> SeqNum \<Rightarrow> Nanos \<Rightarrow> Order" where
  "amended_order previous new_price new_quantity new_sequence now =
     previous\<lparr>ord_price := new_price, ord_quantity := new_quantity,
       ord_remaining := new_quantity - filled previous, ord_sequence := new_sequence,
       ord_accepted_at := now\<rparr>"

definition replace_requeue ::
    "OrderBook \<Rightarrow> OrderId \<Rightarrow> Order \<Rightarrow> Order \<Rightarrow> Streams \<Rightarrow> (ReplaceResult \<times> Streams \<times> OrderBook) option" where
  "replace_requeue b oid previous amended out = do {
     (removed, b1) \<leftarrow> cancel b oid;
     assert_that (cr_accepted removed);
     (resubmitted, out', b2) \<leftarrow> book_insert b1 amended out;
     Some (ReplaceResult_default\<lparr>rr_previous := previous, rr_reject := sr_reject resubmitted,
         rr_filled := sr_filled resubmitted, rr_stp_cancelled := sr_stp_cancelled resubmitted,
         rr_rested := sr_rested resubmitted, rr_priority_retained := False\<rparr>, out', b2)
   }"

definition replace ::
    "OrderBook \<Rightarrow> OrderId \<Rightarrow> Price \<Rightarrow> Quantity \<Rightarrow> SeqNum \<Rightarrow> Nanos \<Rightarrow> Streams \<Rightarrow>
     (ReplaceResult \<times> Streams \<times> OrderBook) option" where
  "replace b oid new_price new_quantity new_sequence now out = do {
     found \<leftarrow> fhm_find (bk_index b) oid;
     (case found of
        None \<Rightarrow> Some (ReplaceResult_default\<lparr>rr_reject := UnknownOrder\<rparr>, out, b)
      | Some handle \<Rightarrow> do {
          previous \<leftarrow> pool_order (bk_pool b) handle;
          let result = ReplaceResult_default\<lparr>rr_previous := previous\<rparr>;
          if \<not> is_valid_price (bk_instrument b) new_price
          then Some (result\<lparr>rr_reject := InvalidPrice\<rparr>, out, b)
          else if \<not> is_valid_quantity (bk_instrument b) new_quantity
          then Some (result\<lparr>rr_reject := InvalidQuantity\<rparr>, out, b)
          else if new_quantity \<le> filled previous
          then do { (_, b') \<leftarrow> cancel b oid; Some (result, out, b') }
          else if new_price = ord_price previous \<and> new_quantity < ord_quantity previous
          then do {
            b' \<leftarrow> replace_in_place b handle previous new_quantity;
            Some (result\<lparr>rr_priority_retained := True, rr_rested := True\<rparr>, out, b')
          }
          else replace_requeue b oid previous
                 (amended_order previous new_price new_quantity new_sequence now) out
        })
   }"

section \<open>Queries\<close>

definition top_side :: "Side \<Rightarrow> OrderBook \<Rightarrow> (Price \<times> Quantity) option" where
  "top_side s b =
     (if ladder_empty (book_levels s b) then Some (kNoPrice, 0)
      else do {
        it \<leftarrow> best_occupied (desc s) (book_levels s b);
        i \<leftarrow> it;
        lvl \<leftarrow> level_get (book_levels s b) i;
        Some (price_at (book_levels s b) i, lvl_total_quantity lvl)
      })"

definition top_of_book :: "OrderBook \<Rightarrow> TopOfBook option" where
  "top_of_book b = do {
     (bid_price, bid_quantity) \<leftarrow> top_side Buy b;
     (ask_price, ask_quantity) \<leftarrow> top_side Sell b;
     Some \<lparr>top_instrument = ins_id (bk_instrument b), top_sequence = 0, top_bid_price = bid_price,
       top_ask_price = ask_price, top_bid_quantity = bid_quantity, top_ask_quantity = ask_quantity\<rparr>
   }"

partial_function (option) depth_walk ::
    "bool \<Rightarrow> PriceLadder \<Rightarrow> nat \<Rightarrow> nat option \<Rightarrow> DepthLevel list \<Rightarrow> DepthLevel list option" where
  "depth_walk d l max_levels it acc = (case it of
       None \<Rightarrow> Some acc
     | Some i \<Rightarrow> do {
         lvl \<leftarrow> level_get l i;
         if length acc \<ge> max_levels then Some acc
         else do {
           it' \<leftarrow> next_occupied d l (Some i);
           depth_walk d l max_levels it' (acc @ [\<lparr>dl_price = price_at l i,
             dl_quantity = lvl_total_quantity lvl, dl_order_count = lvl_order_count lvl\<rparr>])
         }
       })"

definition depth_side :: "OrderBook \<Rightarrow> Side \<Rightarrow> nat \<Rightarrow> DepthLevel list option" where
  "depth_side b s max_levels = do {
     it \<leftarrow> best_occupied (desc s) (book_levels s b);
     depth_walk (desc s) (book_levels s b) max_levels it []
   }"

definition depth :: "OrderBook \<Rightarrow> nat \<Rightarrow> DepthSnapshot \<Rightarrow> DepthSnapshot option" where
  "depth b max_levels out = do {
     bids \<leftarrow> depth_side b Buy max_levels;
     asks \<leftarrow> depth_side b Sell max_levels;
     Some (out\<lparr>ds_instrument := ins_id (bk_instrument b), ds_bids := bids, ds_asks := asks\<rparr>)
   }"

definition quantity_at :: "OrderBook \<Rightarrow> Side \<Rightarrow> Price \<Rightarrow> Quantity option" where
  "quantity_at b s price = do {
     it \<leftarrow> ladder_find (book_levels s b) price;
     (case it of
        None \<Rightarrow> Some 0
      | Some i \<Rightarrow> do { lvl \<leftarrow> level_get (book_levels s b) i; Some (lvl_total_quantity lvl) })
   }"

definition find_order :: "OrderBook \<Rightarrow> OrderId \<Rightarrow> Order option option" where
  "find_order b oid = do {
     found \<leftarrow> fhm_find (bk_index b) oid;
     (case found of
        None \<Rightarrow> Some None
      | Some handle \<Rightarrow> do { ord \<leftarrow> pool_order (bk_pool b) handle; Some (Some ord) })
   }"

partial_function (option) total_walk ::
    "bool \<Rightarrow> PriceLadder \<Rightarrow> nat option \<Rightarrow> Quantity \<Rightarrow> Quantity option" where
  "total_walk d l it acc = (case it of
       None \<Rightarrow> Some acc
     | Some i \<Rightarrow> do {
         lvl \<leftarrow> level_get l i;
         it' \<leftarrow> next_occupied d l (Some i);
         total_walk d l it' (acc + lvl_total_quantity lvl)
       })"

definition total_quantity :: "OrderBook \<Rightarrow> Side \<Rightarrow> Quantity option" where
  "total_quantity b s = do {
     it \<leftarrow> best_occupied (desc s) (book_levels s b);
     total_walk (desc s) (book_levels s b) it 0
   }"

text \<open>\<open>for_each_resting_order\<close>: the orders in the sequence in which the visitor is called.\<close>

partial_function (option) visit_queue :: "OrderPool \<Rightarrow> OrderHandle \<Rightarrow> Order list \<Rightarrow> Order list option" where
  "visit_queue p h acc =
     (if h = kNullHandle then Some acc
      else do { n \<leftarrow> pool_node p h; visit_queue p (node_next n) (acc @ [node_order n]) })"

partial_function (option) visit_levels ::
    "bool \<Rightarrow> OrderPool \<Rightarrow> PriceLadder \<Rightarrow> nat option \<Rightarrow> Order list \<Rightarrow> Order list option" where
  "visit_levels d p l it acc = (case it of
       None \<Rightarrow> Some acc
     | Some i \<Rightarrow> do {
         lvl \<leftarrow> level_get l i;
         acc' \<leftarrow> visit_queue p (level_front lvl) acc;
         it' \<leftarrow> next_occupied d l (Some i);
         visit_levels d p l it' acc'
       })"

definition resting_orders :: "OrderBook \<Rightarrow> Order list option" where
  "resting_orders b = do {
     it \<leftarrow> best_occupied True (bk_bids b);
     bids \<leftarrow> visit_levels True (bk_pool b) (bk_bids b) it [];
     it' \<leftarrow> best_occupied False (bk_asks b);
     visit_levels False (bk_pool b) (bk_asks b) it' bids
   }"

definition resting_order_count :: "OrderBook \<Rightarrow> nat" where
  "resting_order_count b = fhm_size (bk_index b)"

definition level_count :: "Side \<Rightarrow> OrderBook \<Rightarrow> nat" where
  "level_count s b = ladder_size (book_levels s b)"

lemma book_levels_set [simp]:
  "book_levels s (set_book_levels s b l) = l"
  "s \<noteq> t \<Longrightarrow> book_levels t (set_book_levels s b l) = book_levels t b"
  by (cases s; cases t; simp add: book_levels_def set_book_levels_def)+

lemma set_book_levels_fields [simp]:
  "bk_instrument (set_book_levels s b l) = bk_instrument b"
  "bk_pool (set_book_levels s b l) = bk_pool b"
  "bk_index (set_book_levels s b l) = bk_index b"
  "bk_next_trade_id (set_book_levels s b l) = bk_next_trade_id b"
  by (cases s; simp add: set_book_levels_def)+

lemma book_levels_fields [simp]:
  "book_levels s (b\<lparr>bk_pool := p\<rparr>) = book_levels s b"
  "book_levels s (b\<lparr>bk_index := ix\<rparr>) = book_levels s b"
  "book_levels s (b\<lparr>bk_next_trade_id := n\<rparr>) = book_levels s b"
  by (cases s; simp add: book_levels_def)+

end
