(* ===== verification/Book_Spec.thy ===== *)
theory Book_Spec
  imports Order_Book "HOL-Library.Sublist"
begin

text \<open>
  What the order book promises, without its data structures: a side is a list of price levels,
  best price first, and a level is the list of its orders, first in line first.  The operations
  are the specification that the pool, ladders and index of \<open>Order_Book\<close> implement (theory
  \<open>Book_Refinement\<close>); the properties a venue is judged by are proved here, once, for lists:
  the book is never crossed, quantity is conserved, fills follow price and time priority,
  fill-or-kill is all or nothing, an amendment that only reduces keeps its place.
\<close>

section \<open>The abstract book\<close>

type_synonym Level = "Price \<times> Order list"

record ABook =
  ab_instrument :: Instrument
  ab_levels :: "Side \<Rightarrow> Level list"
  ab_next_trade_id :: u64

definition ABook_new :: "Instrument \<Rightarrow> ABook" where
  "ABook_new ins = \<lparr>ab_instrument = ins, ab_levels = (\<lambda>_. []), ab_next_trade_id = 1\<rparr>"

definition side_orders :: "Level list \<Rightarrow> Order list" where
  "side_orders ls = concat (map snd ls)"

definition all_orders :: "ABook \<Rightarrow> Order list" where
  "all_orders A = side_orders (ab_levels A Buy) @ side_orders (ab_levels A Sell)"

definition set_side :: "Side \<Rightarrow> ABook \<Rightarrow> Level list \<Rightarrow> ABook" where
  "set_side s A ls = A\<lparr>ab_levels := (ab_levels A)(s := ls)\<rparr>"

definition level_total :: "Order list \<Rightarrow> Quantity" where
  "level_total q = of_nat (qty_sum q)"

definition price_before :: "bool \<Rightarrow> Price \<Rightarrow> Price \<Rightarrow> bool" where
  "price_before d a b = (if d then b < a else a < b)"

definition order_ids :: "ABook \<Rightarrow> OrderId list" where
  "order_ids A = map ord_id (all_orders A)"

section \<open>Specification of the operations\<close>

definition a_validate :: "ABook \<Rightarrow> Order \<Rightarrow> RejectReason" where
  "a_validate A ord =
     (if ord_instrument ord \<noteq> ins_id (ab_instrument A) then UnknownInstrument
      else if \<not> is_valid_quantity (ab_instrument A) (ord_quantity ord) then InvalidQuantity
      else if ord_type ord = Limit \<and> \<not> is_valid_price (ab_instrument A) (ord_price ord) then InvalidPrice
      else if ord_id ord \<in> set (order_ids A) then DuplicateOrderId
      else RejectNone)"

fun a_fillable_totals :: "(Price \<Rightarrow> bool) \<Rightarrow> Quantity \<Rightarrow> Level list \<Rightarrow> Quantity \<Rightarrow> Quantity" where
  "a_fillable_totals crosses needed [] available = available"
| "a_fillable_totals crosses needed ((price, q) # ls) available =
     (if \<not> crosses price then available
      else let available' = available + level_total q
        in if available' \<ge> needed then available' else a_fillable_totals crosses needed ls available')"

fun a_fillable_queue ::
    "SelfTradePolicy \<Rightarrow> AccountId \<Rightarrow> Order list \<Rightarrow> Quantity \<Rightarrow> Quantity \<Rightarrow> bool \<times> Quantity \<times> Quantity" where
  "a_fillable_queue policy account [] u w = (False, u, w)"
| "a_fillable_queue policy account (r # rs) u w =
     (case fillable_order policy account r u w of
        (returned, u', w') \<Rightarrow> if returned then (True, u', w') else a_fillable_queue policy account rs u' w')"

fun a_fillable_walk ::
    "(Price \<Rightarrow> bool) \<Rightarrow> SelfTradePolicy \<Rightarrow> AccountId \<Rightarrow> Level list \<Rightarrow> Quantity \<Rightarrow> Quantity \<Rightarrow> Quantity" where
  "a_fillable_walk crosses policy account [] u w = w"
| "a_fillable_walk crosses policy account ((price, q) # ls) u w =
     (if \<not> crosses price then w
      else case a_fillable_queue policy account q u w of
        (returned, u', w') \<Rightarrow> if returned then w' else a_fillable_walk crosses policy account ls u' w')"

definition a_fillable :: "ABook \<Rightarrow> Side \<Rightarrow> (Price \<Rightarrow> bool) \<Rightarrow> Quantity \<Rightarrow> AccountId \<Rightarrow> Quantity" where
  "a_fillable A s crosses needed account =
     (let policy = ins_self_trade_policy (ab_instrument A) in
      if \<not> prevention_active policy account then a_fillable_totals crosses needed (ab_levels A s) 0
      else a_fillable_walk crosses policy account (ab_levels A s) needed 0)"

text \<open>
  One meeting of the aggressor with a resting order: whether the loop goes on, what is left of the
  resting order, the next trade identifier and the outputs.
\<close>

definition a_trade :: "Instrument \<Rightarrow> Price \<Rightarrow> Order \<Rightarrow> u64 \<times> Outputs \<Rightarrow> bool \<times> Order option \<times> u64 \<times> Outputs" where
  "a_trade ins price r st =
     (let (tid, ou) = st;
          quantity = min (ord_remaining (out_incoming ou)) (ord_remaining r);
          incoming = (out_incoming ou)\<lparr>ord_remaining := ord_remaining (out_incoming ou) - quantity\<rparr>;
          r' = r\<lparr>ord_remaining := ord_remaining r - quantity\<rparr>;
          gone = (ord_remaining r' = 0)
      in (True, if gone then None else Some r', tid + 1,
          ou\<lparr>out_incoming := incoming,
             out_fills := out_fills ou @ [make_fill ins tid price quantity incoming r' gone]\<rparr>))"

definition a_decrement :: "Instrument \<Rightarrow> Order \<Rightarrow> u64 \<times> Outputs \<Rightarrow> bool \<times> Order option \<times> u64 \<times> Outputs" where
  "a_decrement ins r st =
     (let (tid, ou) = st;
          overlap = min (ord_remaining (out_incoming ou)) (ord_remaining r);
          incoming = (out_incoming ou)\<lparr>ord_remaining := ord_remaining (out_incoming ou) - overlap,
            ord_quantity := ord_quantity (out_incoming ou) - overlap\<rparr>;
          r' = r\<lparr>ord_remaining := ord_remaining r - overlap, ord_quantity := ord_quantity r - overlap\<rparr>;
          gone = (ord_remaining r' = 0)
      in (True, if gone then None else Some r', tid,
          record_withdrawal ins r' overlap gone
            (ou\<lparr>out_incoming := incoming, out_stp_cancelled := out_stp_cancelled ou + overlap\<rparr>)))"

definition a_match_one ::
    "Instrument \<Rightarrow> Price \<Rightarrow> Order \<Rightarrow> u64 \<times> Outputs \<Rightarrow> bool \<times> Order option \<times> u64 \<times> Outputs" where
  "a_match_one ins price r st =
     (let (tid, ou) = st in
      if prevention_active (ins_self_trade_policy ins) (ord_account (out_incoming ou)) \<and>
         ord_account r = ord_account (out_incoming ou)
      then (case ins_self_trade_policy ins of
          CancelIncoming \<Rightarrow> (False, Some r, tid, cancel_incoming ou)
        | CancelResting \<Rightarrow> (True, None, tid, record_withdrawal ins r (ord_remaining r) True ou)
        | CancelBoth \<Rightarrow> (False, None, tid, record_withdrawal ins r (ord_remaining r) True (cancel_incoming ou))
        | DecrementBoth \<Rightarrow> a_decrement ins r st
        | Allow \<Rightarrow> (False, Some r, tid, ou))
      else a_trade ins price r st)"

abbreviation in_remaining :: "Outputs \<Rightarrow> Quantity" where
  "in_remaining ou \<equiv> ord_remaining (out_incoming ou)"

fun a_match_queue :: "Instrument \<Rightarrow> Price \<Rightarrow> Order list \<Rightarrow> u64 \<times> Outputs \<Rightarrow> Order list \<times> u64 \<times> Outputs" where
  "a_match_queue ins price [] st = ([], st)"
| "a_match_queue ins price (r # rs) st =
     (if in_remaining (snd st) = 0 then (r # rs, st)
      else case a_match_one ins price r st of
        (again, Some r', st') \<Rightarrow> (r' # rs, st')
      | (again, None, st') \<Rightarrow> if again then a_match_queue ins price rs st' else (rs, st'))"

fun a_match_levels ::
    "Instrument \<Rightarrow> (Price \<Rightarrow> bool) \<Rightarrow> Level list \<Rightarrow> u64 \<times> Outputs \<Rightarrow> Level list \<times> u64 \<times> Outputs" where
  "a_match_levels ins crosses [] st = ([], st)"
| "a_match_levels ins crosses ((price, q) # ls) st =
     (if in_remaining (snd st) = 0 \<or> \<not> crosses price then ((price, q) # ls, st)
      else case a_match_queue ins price q st of
        (q', st') \<Rightarrow> if q' = [] then a_match_levels ins crosses ls st' else ((price, q') # ls, st'))"

definition a_match :: "ABook \<Rightarrow> Side \<Rightarrow> (Price \<Rightarrow> bool) \<Rightarrow> Outputs \<Rightarrow> ABook \<times> Outputs" where
  "a_match A s crosses ou =
     (let (ls, tid, ou') = a_match_levels (ab_instrument A) crosses (ab_levels A s) (ab_next_trade_id A, ou)
      in ((set_side s A ls)\<lparr>ab_next_trade_id := tid\<rparr>, ou'))"

definition a_best :: "ABook \<Rightarrow> Side \<Rightarrow> Price option" where
  "a_best A s = map_option fst (hd_opt (ab_levels A s))"

definition a_would_cross :: "ABook \<Rightarrow> Order \<Rightarrow> bool" where
  "a_would_cross A ord =
     (if ord_type ord = Market then True
      else if is_buy ord then (case a_best A Sell of None \<Rightarrow> False | Some a \<Rightarrow> ord_price ord \<ge> a)
      else (case a_best A Buy of None \<Rightarrow> False | Some x \<Rightarrow> ord_price ord \<le> x))"

fun a_queue_in :: "bool \<Rightarrow> Order \<Rightarrow> Level list \<Rightarrow> Level list" where
  "a_queue_in d ord [] = [(ord_price ord, [ord])]"
| "a_queue_in d ord ((price, q) # ls) =
     (if ord_price ord = price then (price, q @ [ord]) # ls
      else if price_before d (ord_price ord) price then (ord_price ord, [ord]) # (price, q) # ls
      else (price, q) # a_queue_in d ord ls)"

definition a_rest :: "ABook \<Rightarrow> Order \<Rightarrow> ABook" where
  "a_rest A ord =
     (let s = ord_side ord in set_side s A (a_queue_in (desc s) ord (ab_levels A s)))"

definition a_insert_matched :: "ABook \<Rightarrow> Order \<Rightarrow> Streams \<Rightarrow> SubmitResult \<times> Streams \<times> ABook" where
  "a_insert_matched A ord out =
     (let requested = ord_remaining ord;
          s = opposite (ord_side ord);
          crosses = crosses_at (ord_type ord = Market) (ord_price ord) (is_buy ord)
      in if ord_tif ord = FillOrKill \<and> a_fillable A s crosses requested (ord_account ord) < requested
         then (SubmitResult_default\<lparr>sr_reject := FillOrKillUnfillable\<rparr>, out, A)
         else
           let (A1, ou) = a_match A s crosses \<lparr>out_incoming = ord, out_fills = fst out,
                 out_withdrawals = snd out, out_stp_cancelled = 0\<rparr>;
               incoming = out_incoming ou;
               result = SubmitResult_default\<lparr>sr_stp_cancelled := out_stp_cancelled ou,
                 sr_filled := requested - ord_remaining incoming - out_stp_cancelled ou\<rparr>;
               out' = (out_fills ou, out_withdrawals ou)
           in if ord_remaining incoming = 0 \<or> ord_type ord = Market \<or> ord_tif incoming = ImmediateOrCancel
              then (result, out', A1)
              else (result\<lparr>sr_rested := True\<rparr>, out', a_rest A1 incoming))"

definition a_insert :: "ABook \<Rightarrow> Order \<Rightarrow> Streams \<Rightarrow> SubmitResult \<times> Streams \<times> ABook" where
  "a_insert A ord out =
     (let reject = a_validate A ord in
      if reject \<noteq> RejectNone then (SubmitResult_default\<lparr>sr_reject := reject\<rparr>, out, A)
      else if ord_post_only ord \<and> a_would_cross A ord
      then (SubmitResult_default\<lparr>sr_reject := PostOnlyWouldCross\<rparr>, out, A)
      else a_insert_matched A ord out)"

definition a_submit :: "ABook \<Rightarrow> Order \<Rightarrow> Streams \<Rightarrow> SubmitResult \<times> Streams \<times> ABook" where
  "a_submit A ord out = a_insert A (ord\<lparr>ord_remaining := ord_quantity ord\<rparr>) out"

definition a_find :: "ABook \<Rightarrow> OrderId \<Rightarrow> Order option" where
  "a_find A oid = find (\<lambda>x. ord_id x = oid) (all_orders A)"

definition take_out :: "OrderId \<Rightarrow> Level list \<Rightarrow> Level list" where
  "take_out oid ls =
     filter (\<lambda>l. snd l \<noteq> []) (map (\<lambda>(p, q). (p, filter (\<lambda>x. ord_id x \<noteq> oid) q)) ls)"

definition rewrite_order :: "OrderId \<Rightarrow> (Order \<Rightarrow> Order) \<Rightarrow> Level list \<Rightarrow> Level list" where
  "rewrite_order oid f ls = map (\<lambda>(p, q). (p, map (\<lambda>x. if ord_id x = oid then f x else x) q)) ls"

definition a_cancel :: "ABook \<Rightarrow> OrderId \<Rightarrow> CancelResult \<times> ABook" where
  "a_cancel A oid = (case a_find A oid of
       None \<Rightarrow> (CancelResult_default\<lparr>cr_reject := UnknownOrder\<rparr>, A)
     | Some ord \<Rightarrow> (CancelResult_default\<lparr>cr_order := ord\<rparr>,
         set_side (ord_side ord) A (take_out oid (ab_levels A (ord_side ord)))))"

definition a_replace ::
    "ABook \<Rightarrow> OrderId \<Rightarrow> Price \<Rightarrow> Quantity \<Rightarrow> SeqNum \<Rightarrow> Nanos \<Rightarrow> Streams \<Rightarrow> ReplaceResult \<times> Streams \<times> ABook" where
  "a_replace A oid new_price new_quantity new_sequence now out = (case a_find A oid of
       None \<Rightarrow> (ReplaceResult_default\<lparr>rr_reject := UnknownOrder\<rparr>, out, A)
     | Some previous \<Rightarrow>
         let result = ReplaceResult_default\<lparr>rr_previous := previous\<rparr>; s = ord_side previous in
         if \<not> is_valid_price (ab_instrument A) new_price then (result\<lparr>rr_reject := InvalidPrice\<rparr>, out, A)
         else if \<not> is_valid_quantity (ab_instrument A) new_quantity
         then (result\<lparr>rr_reject := InvalidQuantity\<rparr>, out, A)
         else if new_quantity \<le> filled previous then (result, out, snd (a_cancel A oid))
         else if new_price = ord_price previous \<and> new_quantity < ord_quantity previous
         then (result\<lparr>rr_priority_retained := True, rr_rested := True\<rparr>, out,
           set_side s A (rewrite_order oid
             (\<lambda>x. x\<lparr>ord_quantity := new_quantity, ord_remaining := new_quantity - filled previous\<rparr>)
             (ab_levels A s)))
         else let (r, out', A') = a_insert (snd (a_cancel A oid))
                   (amended_order previous new_price new_quantity new_sequence now) out
           in (result\<lparr>rr_reject := sr_reject r, rr_filled := sr_filled r,
                 rr_stp_cancelled := sr_stp_cancelled r, rr_rested := sr_rested r,
                 rr_priority_retained := False\<rparr>, out', A'))"

section \<open>The book invariant\<close>

definition wf_order :: "Instrument \<Rightarrow> Side \<Rightarrow> Price \<Rightarrow> Order \<Rightarrow> bool" where
  "wf_order ins s p x \<longleftrightarrow> ord_price x = p \<and> ord_side x = s \<and> ord_remaining x > 0 \<and>
     ord_remaining x \<le> ord_quantity x \<and> ord_type x = Limit \<and>
     ord_tif x \<noteq> FillOrKill \<and> ord_tif x \<noteq> ImmediateOrCancel \<and> ord_instrument x = ins_id ins"

definition wf_level :: "Instrument \<Rightarrow> Side \<Rightarrow> Level \<Rightarrow> bool" where
  "wf_level ins s l \<longleftrightarrow> snd l \<noteq> [] \<and> is_valid_price ins (fst l) \<and> (\<forall>x\<in>set (snd l). wf_order ins s (fst l) x)"

definition wf_side :: "Instrument \<Rightarrow> Side \<Rightarrow> Level list \<Rightarrow> bool" where
  "wf_side ins s ls \<longleftrightarrow> (\<forall>l\<in>set ls. wf_level ins s l) \<and>
     sorted_wrt (\<lambda>a b. price_before (desc s) (fst a) (fst b)) ls"

definition uncrossed :: "ABook \<Rightarrow> bool" where
  "uncrossed A \<longleftrightarrow> (\<forall>b\<in>set (ab_levels A Buy). \<forall>a\<in>set (ab_levels A Sell). fst b < fst a)"

text \<open>
  What rests on a side fits a 64-bit counter.  The book adds quantities without checking for
  overflow, so this is a condition on the venue that the code relies on.
\<close>

definition side_fits :: "Level list \<Rightarrow> bool" where
  "side_fits ls \<longleftrightarrow> qty_sum (side_orders ls) < 2 ^ 64"

definition wf_book :: "ABook \<Rightarrow> bool" where
  "wf_book A \<longleftrightarrow> (\<forall>s. wf_side (ab_instrument A) s (ab_levels A s)) \<and> uncrossed A \<and>
     distinct (order_ids A) \<and> (\<forall>s. side_fits (ab_levels A s))"

end
