(* ===== verification/Book_Matching.thy ===== *)
theory Book_Matching
  imports Book_Spec
begin

text \<open>
  The matching loop on lists: what one meeting of two orders does, what a level and a side look
  like after an aggressor has passed, and that quantity is neither created nor lost on the way.
\<close>

section \<open>Vocabulary\<close>

text \<open>An order without the two fields that matching may change.\<close>

definition order_core :: "Order \<Rightarrow> Order" where
  "order_core x = x\<lparr>ord_remaining := 0, ord_quantity := 0\<rparr>"

definition fill_total :: "Fill list \<Rightarrow> nat" where
  "fill_total fs = sum_list (map (\<lambda>f. unat (fill_quantity f)) fs)"

definition wd_total :: "Withdrawal list \<Rightarrow> nat" where
  "wd_total ws = sum_list (map (\<lambda>w. unat (wd_quantity w)) ws)"

text \<open>Where the quantity of the aggressor is: still open, withdrawn by prevention, or traded.\<close>

definition accounted :: "Outputs \<Rightarrow> nat" where
  "accounted ou = unat (in_remaining ou) + unat (out_stp_cancelled ou) + fill_total (out_fills ou)"

definition stp_fits :: "Outputs \<Rightarrow> bool" where
  "stp_fits ou \<longleftrightarrow> unat (in_remaining ou) + unat (out_stp_cancelled ou) < 2 ^ 64"

text \<open>What an output step may do besides: it appends fills and leaves the identity of the aggressor.\<close>

definition extends_by :: "Outputs \<Rightarrow> Fill list \<Rightarrow> Outputs \<Rightarrow> bool" where
  "extends_by ou fs ou' \<longleftrightarrow> out_fills ou' = out_fills ou @ fs \<and>
     order_core (out_incoming ou') = order_core (out_incoming ou)"

definition fill_of :: "Instrument \<Rightarrow> Order \<Rightarrow> Price \<Rightarrow> OrderId \<Rightarrow> Fill \<Rightarrow> bool" where
  "fill_of ins incoming price oid f \<longleftrightarrow> fill_price f = price \<and> fill_resting_order f = oid \<and>
     fill_quantity f > 0 \<and> fill_aggressor_order f = ord_id incoming \<and>
     fill_aggressor_account f = ord_account incoming \<and> fill_aggressor_side f = ord_side incoming \<and>
     fill_instrument f = ins_id ins \<and> fill_timestamp f = ord_accepted_at incoming"

text \<open>What an aggressor leaves of a queue: a tail of it, of which it may have nibbled the first order.\<close>

definition nibbled :: "Order \<Rightarrow> Order \<Rightarrow> bool" where
  "nibbled r x \<longleftrightarrow> order_core x = order_core r \<and> ord_remaining x \<le> ord_remaining r \<and>
     (ord_remaining r > 0 \<longrightarrow> ord_remaining x > 0) \<and>
     (ord_remaining r \<le> ord_quantity r \<longrightarrow> ord_remaining x \<le> ord_quantity x)"

definition consumed :: "Order list \<Rightarrow> Order list \<Rightarrow> bool" where
  "consumed q q' \<longleftrightarrow> (\<exists>pre. q = pre @ q') \<or>
     (\<exists>pre r x rs. q = pre @ r # rs \<and> q' = x # rs \<and> nibbled r x)"

definition trade_ids :: "u64 \<Rightarrow> nat \<Rightarrow> u64 list" where
  "trade_ids tid n = map (\<lambda>k. tid + of_nat k) [0..<n]"

section \<open>Simple facts\<close>

lemma order_core_simps [simp]:
  "order_core (x\<lparr>ord_remaining := r\<rparr>) = order_core x"
  "order_core (x\<lparr>ord_quantity := q\<rparr>) = order_core x"
  "order_core (x\<lparr>ord_remaining := r, ord_quantity := q\<rparr>) = order_core x"
  by (simp_all add: order_core_def)

lemma order_core_fields:
  assumes "order_core x = order_core y"
  shows "ord_id x = ord_id y" "ord_account x = ord_account y" "ord_price x = ord_price y"
    "ord_side x = ord_side y" "ord_type x = ord_type y" "ord_tif x = ord_tif y"
    "ord_instrument x = ord_instrument y" "ord_accepted_at x = ord_accepted_at y"
    "ord_sequence x = ord_sequence y" "ord_post_only x = ord_post_only y"
  using assms by (cases x; cases y; simp add: order_core_def)+

lemma record_withdrawal_fields [simp]:
  "out_incoming (record_withdrawal ins r q b ou) = out_incoming ou"
  "out_fills (record_withdrawal ins r q b ou) = out_fills ou"
  "out_stp_cancelled (record_withdrawal ins r q b ou) = out_stp_cancelled ou"
  by (simp_all add: record_withdrawal_def split: option.splits)

lemma fill_total_simps [simp]:
  "fill_total [] = 0" "fill_total (f # fs) = unat (fill_quantity f) + fill_total fs"
  "fill_total (fs @ gs) = fill_total fs + fill_total gs"
  by (simp_all add: fill_total_def)

lemma wd_total_simps [simp]:
  "wd_total [] = 0" "wd_total (w # ws) = unat (wd_quantity w) + wd_total ws"
  "wd_total (ws @ vs) = wd_total ws + wd_total vs"
  by (simp_all add: wd_total_def)

lemma side_orders_simps [simp]:
  "side_orders [] = []" "side_orders (l # ls) = snd l @ side_orders ls"
  "side_orders (ls @ ms) = side_orders ls @ side_orders ms"
  by (simp_all add: side_orders_def)

lemma unat_min: "unat (min a b) = min (unat a) (unat b)" for a b :: "'a::len word"
  by (simp add: min_def word_le_nat_alt)

lemma unat_minus_min: "unat (a - min a b) = unat a - unat b" "unat (b - min a b) = unat b - unat a"
  for a b :: "'a::len word"
  by (simp_all add: unat_sub unat_min)

lemma word_pos_unat: "0 < (a :: 'a::len word) \<longleftrightarrow> 0 < unat a"
  by (simp add: word_less_nat_alt)

lemma extends_by_refl: "extends_by ou [] ou"
  by (simp add: extends_by_def)

lemma extends_by_trans: "extends_by ou fs ou' \<Longrightarrow> extends_by ou' gs ou'' \<Longrightarrow> extends_by ou (fs @ gs) ou''"
  by (simp add: extends_by_def)

lemma fill_of_cong:
  "order_core x = order_core y \<Longrightarrow> fill_of ins x price oid f = fill_of ins y price oid f"
  using order_core_fields[of x y] by (simp add: fill_of_def)

section \<open>One meeting\<close>

text \<open>The cases of a meeting, with their effect on the aggressor, the resting order and the outputs.\<close>

datatype Meeting = Traded | Decremented | TookAside | StoppedBy | StoppedAndTook

definition meeting :: "Instrument \<Rightarrow> Order \<Rightarrow> Outputs \<Rightarrow> Meeting" where
  "meeting ins r ou =
     (if prevention_active (ins_self_trade_policy ins) (ord_account (out_incoming ou)) \<and>
         ord_account r = ord_account (out_incoming ou)
      then (case ins_self_trade_policy ins of
          CancelIncoming \<Rightarrow> StoppedBy | CancelResting \<Rightarrow> TookAside | CancelBoth \<Rightarrow> StoppedAndTook
        | DecrementBoth \<Rightarrow> Decremented | Allow \<Rightarrow> Traded)
      else Traded)"

lemma a_match_one_meeting:
  "a_match_one ins price r (tid, ou) = (case meeting ins r ou of
      Traded \<Rightarrow> a_trade ins price r (tid, ou)
    | Decremented \<Rightarrow> a_decrement ins r (tid, ou)
    | TookAside \<Rightarrow> (True, None, tid, record_withdrawal ins r (ord_remaining r) True ou)
    | StoppedBy \<Rightarrow> (False, Some r, tid, cancel_incoming ou)
    | StoppedAndTook \<Rightarrow> (False, None, tid, record_withdrawal ins r (ord_remaining r) True (cancel_incoming ou)))"
  by (simp add: a_match_one_def meeting_def prevention_active_def split: SelfTradePolicy.splits)

lemma a_match_one_kept:
  assumes "a_match_one ins price r (tid, ou) = (again, Some x, tid', ou')"
  shows "order_core x = order_core r" and "in_remaining ou' = 0"
    and "ord_remaining r > 0 \<Longrightarrow> ord_remaining x > 0"
    and "ord_remaining r \<le> ord_quantity r \<Longrightarrow> ord_remaining x \<le> ord_quantity x"
    and "ord_remaining x \<le> ord_remaining r"
proof -
  have cs: "(x = r\<lparr>ord_remaining := ord_remaining r - min (in_remaining ou) (ord_remaining r)\<rparr> \<or>
       x = r\<lparr>ord_remaining := ord_remaining r - min (in_remaining ou) (ord_remaining r),
             ord_quantity := ord_quantity r - min (in_remaining ou) (ord_remaining r)\<rparr>) \<and>
       ord_remaining r - min (in_remaining ou) (ord_remaining r) \<noteq> 0 \<and>
       in_remaining ou' = in_remaining ou - min (in_remaining ou) (ord_remaining r) \<or>
     x = r \<and> in_remaining ou' = 0"
    using assms unfolding a_match_one_meeting
    by (cases "meeting ins r ou")
       (auto simp: a_trade_def a_decrement_def cancel_incoming_def Let_def split: if_splits)
  then show "order_core x = order_core r" by auto
  show "in_remaining ou' = 0"
    using cs by (auto simp: min_def not_le split: if_splits)
  show "ord_remaining r > 0 \<Longrightarrow> ord_remaining x > 0"
    using cs unfolding word_neq_0_conv by auto
  show "ord_remaining x \<le> ord_remaining r"
    using cs by (auto simp: word_le_nat_alt unat_minus_min)
  show "ord_remaining r \<le> ord_quantity r \<Longrightarrow> ord_remaining x \<le> ord_quantity x"
    using cs
    by (auto simp: word_le_nat_alt unat_minus_min unat_sub_if' unat_min split: if_splits)
qed

lemma a_match_one_stops: "a_match_one ins price r (tid, ou) = (False, r', tid', ou') \<Longrightarrow> in_remaining ou' = 0"
  unfolding a_match_one_meeting
  by (cases "meeting ins r ou")
     (auto simp: a_trade_def a_decrement_def cancel_incoming_def Let_def split: if_splits)

text \<open>At most one fill per meeting, at the level's price and against the resting order.\<close>

lemma a_match_one_fills:
  assumes "a_match_one ins price r (tid, ou) = (again, r', tid', ou')"
    and "0 < in_remaining ou" and "0 < ord_remaining r"
  shows "\<exists>fs. extends_by ou fs ou' \<and> tid' = tid + of_nat (length fs) \<and>
    (fs = [] \<or> (\<exists>f. fs = [f] \<and> fill_of ins (out_incoming ou) price (ord_id r) f \<and> fill_id f = tid))"
proof -
  have pos: "0 < min (in_remaining ou) (ord_remaining r)" using assms(2,3) by (simp add: min_def)
  show ?thesis
    using assms(1) pos unfolding a_match_one_meeting
    by (cases "meeting ins r ou")
       (auto simp: a_trade_def a_decrement_def cancel_incoming_def Let_def extends_by_def make_fill_def
          fill_of_def split: if_splits)
qed

lemma a_match_one_accounted:
  assumes "a_match_one ins price r (tid, ou) = (again, r', tid', ou')" and "stp_fits ou"
  shows "accounted ou' = accounted ou" and "stp_fits ou'"
proof -
  define q where "q = min (in_remaining ou) (ord_remaining r)"
  have q: "unat q \<le> unat (in_remaining ou)" "unat (in_remaining ou - q) = unat (in_remaining ou) - unat q"
    by (simp_all add: q_def unat_min unat_minus_min)
  have s: "unat (out_stp_cancelled ou + x) = unat (out_stp_cancelled ou) + unat x"
    if "unat x \<le> unat (in_remaining ou)" for x
    using that assms(2) by (simp add: stp_fits_def unat_word_ariths)
  have "accounted ou' = accounted ou \<and> stp_fits ou'"
    using assms q s[OF q(1)] s[of "in_remaining ou"] unfolding a_match_one_meeting
    by (cases "meeting ins r ou")
       (auto simp: a_trade_def a_decrement_def cancel_incoming_def Let_def accounted_def stp_fits_def
          make_fill_def q_def[symmetric] split: if_splits)
  then show "accounted ou' = accounted ou" and "stp_fits ou'" by auto
qed

section \<open>A level\<close>

lemma consumed_refl: "consumed q q"
  unfolding consumed_def by (metis append_Nil)

lemma consumed_Cons: "consumed q q' \<Longrightarrow> consumed (r # q) q'"
  unfolding consumed_def by (metis append_Cons)

lemma consumed_append: "consumed q q' \<Longrightarrow> consumed (pre @ q) q'"
  by (induction pre) (simp_all add: consumed_Cons)

lemma consumed_suffix:
  "consumed q q' \<Longrightarrow> suffix (map ord_id q') (map ord_id q)"
proof -
  assume "consumed q q'"
  then consider pre where "q = pre @ q'"
    | pre r x rs where "q = pre @ r # rs" "q' = x # rs" "order_core x = order_core r"
    unfolding consumed_def nibbled_def by blast
  then show ?thesis
  proof cases
    case 2
    then have "ord_id x = ord_id r" by (intro order_core_fields(1))
    then show ?thesis using 2 by (auto simp: suffix_def)
  qed (auto simp: suffix_def)
qed

lemma consumed_append_right: "consumed q q' \<Longrightarrow> q' \<noteq> [] \<Longrightarrow> consumed (q @ t) (q' @ t)"
  unfolding consumed_def by (metis append.assoc append_Cons)

lemma consumed_wf:
  assumes "consumed q q'" and "\<forall>x\<in>set q. wf_order ins s p x"
  shows "\<forall>x\<in>set q'. wf_order ins s p x"
proof -
  have "wf_order ins s p x" if "nibbled r x" "wf_order ins s p r" for r x
    using that order_core_fields[of x r] by (auto simp: nibbled_def wf_order_def)
  then show ?thesis using assms unfolding consumed_def by auto
qed

lemma consumed_qty_sum: "consumed q q' \<Longrightarrow> qty_sum q' \<le> qty_sum q"
  unfolding consumed_def nibbled_def by (auto simp: word_le_nat_alt)

lemma trade_ids_simps [simp]: "trade_ids tid 0 = []" "trade_ids tid (Suc 0) = [tid]" "length (trade_ids tid n) = n"
  by (simp_all add: trade_ids_def)

lemma trade_ids_add: "trade_ids tid (m + n) = trade_ids tid m @ trade_ids (tid + of_nat m) n"
  by (induction n) (simp_all add: trade_ids_def add.assoc)

text \<open>The induction over a queue, once: the cases in which the walk of a queue ends or goes on.\<close>

lemma a_match_queue_induct [consumes 1, case_names Done Kept Stopped Gone]:
  assumes "a_match_queue ins price q (tid, ou) = (q', tid', ou')"
    and "\<And>q tid ou. q = [] \<or> in_remaining ou = 0 \<Longrightarrow> P q tid ou q tid ou"
    and "\<And>r rs tid ou again x tid' ou'. in_remaining ou \<noteq> 0 \<Longrightarrow>
      a_match_one ins price r (tid, ou) = (again, Some x, tid', ou') \<Longrightarrow> P (r # rs) tid ou (x # rs) tid' ou'"
    and "\<And>r rs tid ou tid' ou'. in_remaining ou \<noteq> 0 \<Longrightarrow>
      a_match_one ins price r (tid, ou) = (False, None, tid', ou') \<Longrightarrow> P (r # rs) tid ou rs tid' ou'"
    and "\<And>r rs tid ou tid1 ou1 q' tid' ou'. in_remaining ou \<noteq> 0 \<Longrightarrow>
      a_match_one ins price r (tid, ou) = (True, None, tid1, ou1) \<Longrightarrow>
      a_match_queue ins price rs (tid1, ou1) = (q', tid', ou') \<Longrightarrow>
      P rs tid1 ou1 q' tid' ou' \<Longrightarrow> P (r # rs) tid ou q' tid' ou'"
  shows "P q tid ou q' tid' ou'"
  using assms(1)
proof (induction q arbitrary: tid ou)
  case Nil
  then show ?case using assms(2) by simp
next
  case (Cons r rs)
  show ?case
  proof (cases "in_remaining ou = 0")
    case True
    then show ?thesis using Cons.prems assms(2) by simp
  next
    case False
    obtain again r' tid1 ou1 where one: "a_match_one ins price r (tid, ou) = (again, r', tid1, ou1)"
      by (metis surj_pair)
    show ?thesis
    proof (cases r')
      case None
      then show ?thesis using Cons one False assms(4,5) by (cases again) auto
    next
      case (Some x)
      then show ?thesis using Cons.prems one False assms(3) by auto
    qed
  qed
qed

lemma a_match_queue_consumed:
  "a_match_queue ins price q (tid, ou) = (q', tid', ou') \<Longrightarrow> consumed q q'"
proof (induction rule: a_match_queue_induct)
  case (Kept r rs tid ou again x tid' ou')
  then have "nibbled r x" using a_match_one_kept[OF Kept(2)] by (simp add: nibbled_def)
  then show ?case unfolding consumed_def by (metis append_Nil)
qed (auto intro: consumed_refl consumed_Cons)

lemma a_match_queue_done:
  "a_match_queue ins price q (tid, ou) = (q', tid', ou') \<Longrightarrow> q' \<noteq> [] \<longrightarrow> in_remaining ou' = 0"
  by (induction rule: a_match_queue_induct) (auto dest: a_match_one_kept(2) a_match_one_stops)

lemma a_match_queue_accounted:
  "a_match_queue ins price q (tid, ou) = (q', tid', ou') \<Longrightarrow> stp_fits ou \<longrightarrow>
   accounted ou' = accounted ou \<and> stp_fits ou'"
  by (induction rule: a_match_queue_induct) (auto dest: a_match_one_accounted)

text \<open>
  The fills a queue produces: consecutive trade identifiers, the level's price, and the resting
  orders in the order in which they stand in the queue.
\<close>

definition fills_of_queue :: "Instrument \<Rightarrow> Price \<Rightarrow> Order list \<Rightarrow> u64 \<Rightarrow> Outputs \<Rightarrow> u64 \<Rightarrow> Outputs \<Rightarrow> bool" where
  "fills_of_queue ins price q tid ou tid' ou' \<longleftrightarrow> (\<exists>fs. extends_by ou fs ou' \<and>
     tid' = tid + of_nat (length fs) \<and> map fill_id fs = trade_ids tid (length fs) \<and>
     (\<forall>f\<in>set fs. fill_of ins (out_incoming ou) price (fill_resting_order f) f) \<and>
     subseq (map fill_resting_order fs) (map ord_id q))"

lemma fills_of_queue_one:
  assumes "a_match_one ins price r (tid, ou) = (again, r', tid', ou')" and "in_remaining ou \<noteq> 0"
    and "ord_remaining r > 0"
  shows "fills_of_queue ins price (r # rs) tid ou tid' ou'"
proof -
  obtain fs where fs: "extends_by ou fs ou'" "tid' = tid + of_nat (length fs)"
      "fs = [] \<or> (\<exists>f. fs = [f] \<and> fill_of ins (out_incoming ou) price (ord_id r) f \<and> fill_id f = tid)"
    using a_match_one_fills[OF assms(1) _ assms(3)] assms(2) by (auto simp: word_neq_0_conv)
  then show ?thesis unfolding fills_of_queue_def
    by (intro exI[of _ fs]) (auto simp: fill_of_def)
qed

lemma fills_of_queue_trans:
  assumes "fills_of_queue ins price q1 tid ou tid1 ou1" and "fills_of_queue ins price q2 tid1 ou1 tid' ou'"
  shows "fills_of_queue ins price (q1 @ q2) tid ou tid' ou'"
proof -
  obtain fs where fs: "extends_by ou fs ou1" "tid1 = tid + of_nat (length fs)"
      "map fill_id fs = trade_ids tid (length fs)"
      "\<forall>f\<in>set fs. fill_of ins (out_incoming ou) price (fill_resting_order f) f"
      "subseq (map fill_resting_order fs) (map ord_id q1)"
    using assms(1) unfolding fills_of_queue_def by blast
  obtain gs where gs: "extends_by ou1 gs ou'" "tid' = tid1 + of_nat (length gs)"
      "map fill_id gs = trade_ids tid1 (length gs)"
      "\<forall>f\<in>set gs. fill_of ins (out_incoming ou1) price (fill_resting_order f) f"
      "subseq (map fill_resting_order gs) (map ord_id q2)"
    using assms(2) unfolding fills_of_queue_def by blast
  have core: "order_core (out_incoming ou1) = order_core (out_incoming ou)"
    using fs(1) by (simp add: extends_by_def)
  have "extends_by ou (fs @ gs) ou'" by (rule extends_by_trans[OF fs(1) gs(1)])
  moreover have "\<forall>f\<in>set (fs @ gs). fill_of ins (out_incoming ou) price (fill_resting_order f) f"
    using fs(4) gs(4) fill_of_cong[OF core] by auto
  moreover have "subseq (map fill_resting_order (fs @ gs)) (map ord_id (q1 @ q2))"
    using fs(5) gs(5) by (simp add: list_emb_append_mono)
  moreover have "map fill_id (fs @ gs) = trade_ids tid (length (fs @ gs))"
    using fs(2,3) gs(3) by (simp add: trade_ids_add)
  moreover have "tid' = tid + of_nat (length (fs @ gs))" using fs(2) gs(2) by simp
  ultimately show ?thesis unfolding fills_of_queue_def by blast
qed

lemma fills_of_queue_refl: "fills_of_queue ins price q tid ou tid ou"
  unfolding fills_of_queue_def by (intro exI[of _ "[]"]) (simp add: extends_by_refl)

lemma a_match_queue_fills:
  "a_match_queue ins price q (tid, ou) = (q', tid', ou') \<Longrightarrow> (\<forall>x\<in>set q. ord_remaining x > 0) \<longrightarrow>
   fills_of_queue ins price q tid ou tid' ou'"
proof (induction rule: a_match_queue_induct)
  case (Done q tid ou)
  then show ?case by (simp add: fills_of_queue_refl)
next
  case (Kept r rs tid ou again x tid' ou')
  then show ?case using fills_of_queue_one[OF Kept(2,1)] by simp
next
  case (Stopped r rs tid ou tid' ou')
  then show ?case using fills_of_queue_one[OF Stopped(2,1)] by simp
next
  case (Gone r rs tid ou tid1 ou1 q' tid' ou')
  then show ?case
    using fills_of_queue_trans[OF fills_of_queue_one[OF Gone(2,1), of "[]"], of rs tid' ou'] by simp
qed

section \<open>Conservation on the resting side\<close>

text \<open>Everything a resting order loses is printed as a fill or recorded as a withdrawal.\<close>

definition printed :: "Outputs \<Rightarrow> nat" where
  "printed ou = fill_total (out_fills ou) + (case out_withdrawals ou of None \<Rightarrow> 0 | Some ws \<Rightarrow> wd_total ws)"

definition recording :: "Outputs \<Rightarrow> bool" where
  "recording ou \<longleftrightarrow> out_withdrawals ou \<noteq> None"

definition left_of :: "Order option \<Rightarrow> nat" where
  "left_of r = (case r of None \<Rightarrow> 0 | Some x \<Rightarrow> unat (ord_remaining x))"

lemma printed_record:
  "recording ou \<Longrightarrow> printed (record_withdrawal ins r q b ou) = printed ou + unat q"
  "recording (record_withdrawal ins r q b ou) \<longleftrightarrow> recording ou"
  "recording (ou\<lparr>out_incoming := i\<rparr>) \<longleftrightarrow> recording ou"
  "recording (ou\<lparr>out_stp_cancelled := t\<rparr>) \<longleftrightarrow> recording ou"
  "recording (ou\<lparr>out_incoming := i, out_stp_cancelled := t\<rparr>) \<longleftrightarrow> recording ou"
  "recording (ou\<lparr>out_incoming := i, out_fills := fs\<rparr>) \<longleftrightarrow> recording ou"
  by (auto simp: printed_def recording_def record_withdrawal_def split: option.splits)

lemma printed_frame [simp]:
  "printed (ou\<lparr>out_incoming := i\<rparr>) = printed ou" "printed (ou\<lparr>out_stp_cancelled := t\<rparr>) = printed ou"
  "printed (ou\<lparr>out_incoming := i, out_stp_cancelled := t\<rparr>) = printed ou"
  "printed (ou\<lparr>out_incoming := i, out_fills := out_fills ou @ fs\<rparr>) = printed ou + fill_total fs"
  by (simp_all add: printed_def)

lemma a_match_one_printed:
  assumes "a_match_one ins price r (tid, ou) = (again, r', tid', ou')" and "recording ou"
  shows "unat (ord_remaining r) + printed ou = left_of r' + printed ou'" and "recording ou'"
proof -
  define q where "q = min (in_remaining ou) (ord_remaining r)"
  have q: "unat q \<le> unat (ord_remaining r)" "unat (ord_remaining r - q) = unat (ord_remaining r) - unat q"
    by (simp_all add: q_def unat_min unat_minus_min)
  have "unat (ord_remaining r) + printed ou = left_of r' + printed ou' \<and> recording ou'"
    using assms q unfolding a_match_one_meeting
    by (cases "meeting ins r ou")
       (auto simp: a_trade_def a_decrement_def cancel_incoming_def Let_def left_of_def make_fill_def
          printed_record q_def[symmetric] split: if_splits)
  then show "unat (ord_remaining r) + printed ou = left_of r' + printed ou'" and "recording ou'"
    by auto
qed

lemma a_match_queue_printed:
  "a_match_queue ins price q (tid, ou) = (q', tid', ou') \<Longrightarrow> recording ou \<longrightarrow>
   qty_sum q + printed ou = qty_sum q' + printed ou' \<and> recording ou'"
proof (induction rule: a_match_queue_induct)
  case (Kept r rs tid ou again x tid' ou')
  show ?case using a_match_one_printed[OF Kept(2)] by (auto simp: left_of_def)
next
  case (Stopped r rs tid ou tid' ou')
  show ?case using a_match_one_printed[OF Stopped(2)] by (auto simp: left_of_def)
next
  case (Gone r rs tid ou tid1 ou1 q' tid' ou')
  show ?case using a_match_one_printed[OF Gone(2)] Gone(4) by (auto simp: left_of_def)
qed auto

section \<open>A side\<close>

lemma a_match_levels_induct [consumes 1, case_names Done Part Whole]:
  assumes "a_match_levels ins crosses ls (tid, ou) = (ls', tid', ou')"
    and "\<And>ls tid ou. ls = [] \<or> in_remaining ou = 0 \<or> \<not> crosses (fst (hd ls)) \<Longrightarrow> P ls tid ou ls tid ou"
    and "\<And>p q ls tid ou q' tid' ou'. in_remaining ou \<noteq> 0 \<Longrightarrow> crosses p \<Longrightarrow> q' \<noteq> [] \<Longrightarrow>
      a_match_queue ins p q (tid, ou) = (q', tid', ou') \<Longrightarrow> P ((p, q) # ls) tid ou ((p, q') # ls) tid' ou'"
    and "\<And>p q ls tid ou tid1 ou1 ls' tid' ou'. in_remaining ou \<noteq> 0 \<Longrightarrow> crosses p \<Longrightarrow>
      a_match_queue ins p q (tid, ou) = ([], tid1, ou1) \<Longrightarrow>
      a_match_levels ins crosses ls (tid1, ou1) = (ls', tid', ou') \<Longrightarrow>
      P ls tid1 ou1 ls' tid' ou' \<Longrightarrow> P ((p, q) # ls) tid ou ls' tid' ou'"
  shows "P ls tid ou ls' tid' ou'"
  using assms(1)
proof (induction ls arbitrary: tid ou)
  case Nil
  then show ?case using assms(2) by simp
next
  case (Cons l ls)
  obtain p q where l: "l = (p, q)" by (cases l)
  show ?case
  proof (cases "in_remaining ou = 0 \<or> \<not> crosses p")
    case True
    then show ?thesis using Cons.prems l assms(2) by auto
  next
    case False
    obtain q' tid1 ou1 where mq: "a_match_queue ins p q (tid, ou) = (q', tid1, ou1)" by (metis surj_pair)
    show ?thesis
    proof (cases "q' = []")
      case True
      then show ?thesis using Cons l mq False assms(4) by auto
    next
      case nonempty: False
      then have "ls' = (p, q') # ls" "tid' = tid1" "ou' = ou1"
        using Cons.prems l mq False by auto
      then show ?thesis using l mq False nonempty assms(3)[of ou p q' q tid tid1 ou1 ls] by simp
    qed
  qed
qed

lemma a_match_levels_consumed:
  "a_match_levels ins crosses ls (tid, ou) = (ls', tid', ou') \<Longrightarrow> consumed (side_orders ls) (side_orders ls')"
proof (induction rule: a_match_levels_induct)
  case (Part p q ls tid ou q' tid' ou')
  then show ?case using consumed_append_right[OF a_match_queue_consumed[OF Part(4)]] by simp
qed (auto intro: consumed_refl consumed_append)

lemma a_match_levels_prices:
  "a_match_levels ins crosses ls (tid, ou) = (ls', tid', ou') \<Longrightarrow> suffix (map fst ls') (map fst ls)"
  by (induction rule: a_match_levels_induct) (auto simp: suffix_def)

lemma a_match_levels_wf:
  "a_match_levels ins crosses ls (tid, ou) = (ls', tid', ou') \<Longrightarrow> wf_side ins s ls \<longrightarrow> wf_side ins s ls'"
proof (induction rule: a_match_levels_induct)
  case (Part p q ls tid ou q' tid' ou')
  then show ?case using consumed_wf[OF a_match_queue_consumed[OF Part(4)], of ins s p]
    by (auto simp: wf_side_def wf_level_def)
qed (auto simp: wf_side_def)

lemma a_match_levels_stop:
  "a_match_levels ins crosses ls (tid, ou) = (ls', tid', ou') \<Longrightarrow>
   in_remaining ou' \<noteq> 0 \<longrightarrow> ls' = [] \<or> \<not> crosses (fst (hd ls'))"
  by (induction rule: a_match_levels_induct) (auto dest: a_match_queue_done)

lemma a_match_levels_accounted:
  "a_match_levels ins crosses ls (tid, ou) = (ls', tid', ou') \<Longrightarrow> stp_fits ou \<longrightarrow>
   accounted ou' = accounted ou \<and> stp_fits ou'"
  by (induction rule: a_match_levels_induct) (auto dest: a_match_queue_accounted)

lemma a_match_levels_printed:
  "a_match_levels ins crosses ls (tid, ou) = (ls', tid', ou') \<Longrightarrow> recording ou \<longrightarrow>
   qty_sum (side_orders ls) + printed ou = qty_sum (side_orders ls') + printed ou' \<and> recording ou'"
  by (induction rule: a_match_levels_induct) (auto dest: a_match_queue_printed)

text \<open>
  The orders of a side in the order in which they are due to trade, each with its price.  The
  fills of a match follow that list without ever going back in it: price priority first, arrival
  within a price next.
\<close>

definition priority_list :: "Level list \<Rightarrow> (Price \<times> OrderId) list" where
  "priority_list ls = concat (map (\<lambda>(p, q). map (\<lambda>x. (p, ord_id x)) q) ls)"

definition fills_of_side ::
    "Instrument \<Rightarrow> (Price \<Rightarrow> bool) \<Rightarrow> Level list \<Rightarrow> u64 \<Rightarrow> Outputs \<Rightarrow> Fill list \<Rightarrow> u64 \<Rightarrow> Outputs \<Rightarrow> bool" where
  "fills_of_side ins crosses ls tid ou fs tid' ou' \<longleftrightarrow> extends_by ou fs ou' \<and>
     tid' = tid + of_nat (length fs) \<and> map fill_id fs = trade_ids tid (length fs) \<and>
     (\<forall>f\<in>set fs. fill_of ins (out_incoming ou) (fill_price f) (fill_resting_order f) f \<and> crosses (fill_price f)) \<and>
     subseq (map (\<lambda>f. (fill_price f, fill_resting_order f)) fs) (priority_list ls)"

lemma priority_list_simps [simp]:
  "priority_list [] = []" "priority_list ((p, q) # ls) = map (\<lambda>x. (p, ord_id x)) q @ priority_list ls"
  by (simp_all add: priority_list_def)

lemma fills_of_side_refl: "fills_of_side ins crosses ls tid ou [] tid ou"
  by (simp add: fills_of_side_def extends_by_refl)

lemma fills_of_queue_side:
  assumes "fills_of_queue ins p q tid ou tid' ou'" and "crosses p"
  shows "\<exists>fs. fills_of_side ins crosses ((p, q) # ls) tid ou fs tid' ou' \<and>
    fills_of_side ins crosses [(p, q)] tid ou fs tid' ou'"
proof -
  obtain fs where fs: "extends_by ou fs ou'" "tid' = tid + of_nat (length fs)"
      "map fill_id fs = trade_ids tid (length fs)"
      "\<forall>f\<in>set fs. fill_of ins (out_incoming ou) p (fill_resting_order f) f"
      "subseq (map fill_resting_order fs) (map ord_id q)"
    using assms(1) unfolding fills_of_queue_def by blast
  have p: "\<forall>f\<in>set fs. fill_price f = p" using fs(4) by (auto simp: fill_of_def)
  have eq: "map (\<lambda>f. (fill_price f, fill_resting_order f)) fs = map (Pair p) (map fill_resting_order fs)"
    using p by simp
  have "subseq (map (Pair p) (map fill_resting_order fs)) (map (Pair p) (map ord_id q))"
    by (rule subseq_map[OF fs(5)])
  then have sub: "subseq (map (\<lambda>f. (fill_price f, fill_resting_order f)) fs) (map (\<lambda>x. (p, ord_id x)) q)"
    unfolding eq by (simp add: comp_def)
  show ?thesis using fs p sub assms(2)
    by (intro exI[of _ fs]) (auto simp: fills_of_side_def)
qed

lemma fills_of_side_trans:
  assumes "fills_of_side ins crosses [l] tid ou fs tid1 ou1" and "fills_of_side ins crosses ls tid1 ou1 gs tid' ou'"
  shows "fills_of_side ins crosses (l # ls) tid ou (fs @ gs) tid' ou'"
proof -
  have core: "order_core (out_incoming ou1) = order_core (out_incoming ou)"
    using assms(1) by (simp add: fills_of_side_def extends_by_def)
  have "priority_list (l # ls) = priority_list [l] @ priority_list ls" by (simp add: priority_list_def)
  then show ?thesis
    using assms extends_by_trans[of ou fs ou1 gs ou'] fill_of_cong[OF core]
    by (auto simp: fills_of_side_def trade_ids_add simp del: priority_list_simps intro: list_emb_append_mono)
qed

lemma a_match_levels_fills:
  "a_match_levels ins crosses ls (tid, ou) = (ls', tid', ou') \<Longrightarrow> (\<forall>x\<in>set (side_orders ls). ord_remaining x > 0) \<longrightarrow>
   (\<exists>fs. fills_of_side ins crosses ls tid ou fs tid' ou')"
proof (induction rule: a_match_levels_induct)
  case (Done ls tid ou)
  then show ?case using fills_of_side_refl by blast
next
  case (Part p q ls tid ou q' tid' ou')
  then show ?case
    using a_match_queue_fills[OF Part(4)] fills_of_queue_side[of ins p q tid ou tid' ou' crosses ls] by auto
next
  case (Whole p q ls tid ou tid1 ou1 ls' tid' ou')
  show ?case
  proof
    assume pos: "\<forall>x\<in>set (side_orders ((p, q) # ls)). ord_remaining x > 0"
    then obtain fs where fs: "fills_of_side ins crosses [(p, q)] tid ou fs tid1 ou1"
      using a_match_queue_fills[OF Whole(3)] fills_of_queue_side[of ins p q tid ou tid1 ou1 crosses "[]"] Whole(2)
      by auto
    obtain gs where "fills_of_side ins crosses ls tid1 ou1 gs tid' ou'" using Whole(5) pos by auto
    then show "\<exists>fs. fills_of_side ins crosses ((p, q) # ls) tid ou fs tid' ou'"
      using fills_of_side_trans[OF fs] by blast
  qed
qed

end
