(* ===== verification/Book_Fok.thy ===== *)
theory Book_Fok
  imports Book_Matching
begin

text \<open>
  Fill-or-kill: the liquidity measured before anything is touched decides correctly.  If the
  measure reaches the requested quantity, the matching loop fills it all and prevention takes
  nothing; this holds under every self-trade policy.
\<close>

section \<open>Without prevention\<close>

lemma meeting_no_prevention:
  "\<not> prevention_active (ins_self_trade_policy ins) (ord_account (out_incoming ou)) \<Longrightarrow> meeting ins r ou = Traded"
  by (simp add: meeting_def)

lemma a_trade_remaining:
  assumes "a_trade ins price r (tid, ou) = (again, r', tid', ou')"
  shows "unat (in_remaining ou') = unat (in_remaining ou) - unat (ord_remaining r)"
    "out_stp_cancelled ou' = out_stp_cancelled ou" "ord_account (out_incoming ou') = ord_account (out_incoming ou)"
    "again" "r' = None \<longleftrightarrow> ord_remaining r \<le> in_remaining ou"
proof -
  let ?q = "min (in_remaining ou) (ord_remaining r)"
  have out: "in_remaining ou' = in_remaining ou - ?q" "out_stp_cancelled ou' = out_stp_cancelled ou"
    "ord_account (out_incoming ou') = ord_account (out_incoming ou)" "again"
    "r' = None \<longleftrightarrow> ord_remaining r - ?q = 0"
    using assms by (auto simp: a_trade_def Let_def simp del: right_minus_eq split: if_splits)
  then show "unat (in_remaining ou') = unat (in_remaining ou) - unat (ord_remaining r)"
    by (simp add: unat_minus_min)
  show "r' = None \<longleftrightarrow> ord_remaining r \<le> in_remaining ou"
    using out(5) by (simp add: unat_eq_0[symmetric] unat_minus_min word_le_nat_alt del: right_minus_eq unat_eq_0)
qed (use assms in \<open>auto simp: a_trade_def Let_def\<close>)

lemma a_match_queue_open:
  "a_match_queue ins price q (tid, ou) = (q', tid', ou') \<Longrightarrow>
   \<not> prevention_active (ins_self_trade_policy ins) (ord_account (out_incoming ou)) \<longrightarrow>
   unat (in_remaining ou') = unat (in_remaining ou) - qty_sum q \<and>
   out_stp_cancelled ou' = out_stp_cancelled ou \<and>
   ord_account (out_incoming ou') = ord_account (out_incoming ou)"
proof (induction rule: a_match_queue_induct)
  case (Kept r rs tid ou again x tid' ou')
  show ?case
  proof
    assume np: "\<not> prevention_active (ins_self_trade_policy ins) (ord_account (out_incoming ou))"
    then have "a_trade ins price r (tid, ou) = (again, Some x, tid', ou')"
      using Kept(2) by (simp add: a_match_one_meeting meeting_no_prevention)
    from a_trade_remaining[OF this] a_match_one_kept(2)[OF Kept(2)]
    show "unat (in_remaining ou') = unat (in_remaining ou) - qty_sum (r # rs) \<and>
      out_stp_cancelled ou' = out_stp_cancelled ou \<and> ord_account (out_incoming ou') = ord_account (out_incoming ou)"
      by simp
  qed
next
  case (Stopped r rs tid ou tid' ou')
  then show ?case
    by (auto simp: a_match_one_meeting meeting_no_prevention dest: a_trade_remaining(4))
next
  case (Gone r rs tid ou tid1 ou1 q' tid' ou')
  show ?case
  proof
    assume np: "\<not> prevention_active (ins_self_trade_policy ins) (ord_account (out_incoming ou))"
    then have "a_trade ins price r (tid, ou) = (True, None, tid1, ou1)"
      using Gone(2) by (simp add: a_match_one_meeting meeting_no_prevention)
    from a_trade_remaining[OF this] Gone(4) np
    show "unat (in_remaining ou') = unat (in_remaining ou) - qty_sum (r # rs) \<and>
      out_stp_cancelled ou' = out_stp_cancelled ou \<and> ord_account (out_incoming ou') = ord_account (out_incoming ou)"
      by simp
  qed
qed auto

definition crossing :: "(Price \<Rightarrow> bool) \<Rightarrow> Level list \<Rightarrow> Level list" where
  "crossing crosses ls = takeWhile (\<lambda>l. crosses (fst l)) ls"

lemma crossing_simps [simp]:
  "crossing crosses [] = []"
  "crossing crosses (l # ls) = (if crosses (fst l) then l # crossing crosses ls else [])"
  by (simp_all add: crossing_def)

lemma a_match_levels_open:
  "a_match_levels ins crosses ls (tid, ou) = (ls', tid', ou') \<Longrightarrow>
   \<not> prevention_active (ins_self_trade_policy ins) (ord_account (out_incoming ou)) \<longrightarrow>
   unat (in_remaining ou') = unat (in_remaining ou) - qty_sum (side_orders (crossing crosses ls)) \<and>
   out_stp_cancelled ou' = out_stp_cancelled ou"
proof (induction rule: a_match_levels_induct)
  case (Done ls tid ou)
  then show ?case by (cases ls) auto
next
  case (Part p q ls tid ou q' tid' ou')
  then show ?case using a_match_queue_open[OF Part(4)] a_match_queue_done[OF Part(4)] by auto
next
  case (Whole p q ls tid ou tid1 ou1 ls' tid' ou')
  then show ?case using a_match_queue_open[OF Whole(3)] by auto
qed

lemma a_fillable_totals_bound:
  "unat available + qty_sum (side_orders ls) < 2 ^ 64 \<Longrightarrow>
   unat (a_fillable_totals crosses needed ls available)
     \<le> unat available + qty_sum (side_orders (crossing crosses ls))"
proof (induction ls arbitrary: available)
  case (Cons l ls)
  obtain p q where l: "l = (p, q)" by (cases l)
  have fit: "unat available + qty_sum q < 2 ^ 64" using Cons.prems l by simp
  then have tot: "unat (available + level_total q) = unat available + qty_sum q"
    by (simp add: level_total_def unat_word_ariths unat_of_nat)
  show ?case
  proof (cases "crosses p \<and> \<not> needed \<le> available + level_total q")
    case True
    have "unat (available + level_total q) + qty_sum (side_orders ls) < 2 ^ 64"
      using Cons.prems l tot by simp
    from Cons.IH[OF this] show ?thesis using l True tot by (simp add: Let_def)
  next
    case False
    then show ?thesis using l tot by (auto simp: Let_def)
  qed
qed simp

section \<open>With prevention\<close>

text \<open>
  The walk over single orders simulates the loop: as long as nothing is lost, \<open>unallocated\<close> is what
  the aggressor has left and \<open>will_fill\<close> is what it has traded.
\<close>

lemma fillable_order_bound:
  assumes "fillable_order policy account r u w = (ret, u', w')" and "unat w + unat u < 2 ^ 64"
  shows "unat w' + unat u' \<le> unat w + unat u" and "w \<le> w'"
proof -
  let ?q = "min u (ord_remaining r)"
  have q: "unat ?q \<le> unat u" "unat (u - ?q) = unat u - unat ?q" by (simp_all add: unat_min unat_minus_min)
  then have add: "unat (w + ?q) = unat w + unat ?q" using assms(2) by (simp add: unat_word_ariths)
  have c: "(u', w') \<in> {(u - ?q, w + ?q), (u, w), (u - ?q, w)}"
    using assms(1) by (auto simp: fillable_order_def Let_def split: if_splits SelfTradePolicy.splits)
  then show "unat w' + unat u' \<le> unat w + unat u" using q add by auto
  show "w \<le> w'" using c add by (auto simp: word_le_nat_alt)
qed

lemma fillable_order_step:
  assumes f: "fillable_order policy account r u w = (ret, u', w')"
    and pol: "policy = ins_self_trade_policy ins" "prevention_active policy account"
    and inc: "account = ord_account (out_incoming ou)" "u = in_remaining ou"
    and pos: "0 < u" "0 < ord_remaining r" and fit: "unat w + unat u < 2 ^ 64"
    and eq: "unat w' + unat u' = unat w + unat u"
    and one: "a_match_one ins price r (tid, ou) = (again, r', tid', ou')"
  shows "ret \<and> u' \<noteq> 0 \<or>
    (out_stp_cancelled ou' = out_stp_cancelled ou \<and> in_remaining ou' = u' \<and>
     ord_account (out_incoming ou') = account \<and> again \<and> (ret \<longleftrightarrow> u' = 0) \<and> (\<not> ret \<longrightarrow> r' = None))"
proof (cases "meeting ins r ou")
  case Traded
  then have na: "ord_account r \<noteq> account"
    using pol inc by (auto simp: meeting_def prevention_active_def split: if_splits SelfTradePolicy.splits)
  then have u': "u' = u - min u (ord_remaining r)" "ret \<longleftrightarrow> u' = 0"
    using f by (auto simp: fillable_order_def Let_def)
  have tr: "a_trade ins price r (tid, ou) = (again, r', tid', ou')"
    using one Traded by (simp add: a_match_one_meeting)
  have "in_remaining ou' = u'" using a_trade_remaining(1)[OF tr] u'(1) inc(2)
    by (simp add: word_unat_eq_iff unat_minus_min)
  moreover have "r' = None" if "u' \<noteq> 0"
  proof -
    have "unat u - unat (ord_remaining r) \<noteq> 0" using that u'(1) unat_minus_min(1)[of u "ord_remaining r"]
      by (metis unat_eq_0)
    then show ?thesis using a_trade_remaining(5)[OF tr] inc(2) by (simp add: word_le_nat_alt)
  qed
  ultimately show ?thesis using a_trade_remaining(2-4)[OF tr] u'(2) inc(1) by auto
next
  case Decremented
  then have "policy = DecrementBoth" "ord_account r = account"
    using pol inc by (auto simp: meeting_def split: if_splits SelfTradePolicy.splits)
  then have "u' = u - min u (ord_remaining r)" "w' = w" using f by (auto simp: fillable_order_def Let_def)
  then have "unat u' < unat u" using pos by (simp add: unat_minus_min word_pos_unat)
  then show ?thesis using eq \<open>w' = w\<close> by simp
next
  case TookAside
  then have "policy = CancelResting" "ord_account r = account"
    using pol inc by (auto simp: meeting_def split: if_splits SelfTradePolicy.splits)
  then show ?thesis using f one TookAside inc pos by (auto simp: fillable_order_def a_match_one_meeting Let_def)
next
  case StoppedBy
  then have "policy = CancelIncoming" "ord_account r = account"
    using pol inc by (auto simp: meeting_def split: if_splits SelfTradePolicy.splits)
  then show ?thesis using f pos by (auto simp: fillable_order_def Let_def)
next
  case StoppedAndTook
  then have "policy = CancelBoth" "ord_account r = account"
    using pol inc by (auto simp: meeting_def split: if_splits SelfTradePolicy.splits)
  then show ?thesis using f pos by (auto simp: fillable_order_def Let_def)
qed

lemma a_fillable_queue_bound:
  "a_fillable_queue policy account q u w = (ret, u', w') \<Longrightarrow> unat w + unat u < 2 ^ 64 \<Longrightarrow>
   unat w' + unat u' \<le> unat w + unat u"
proof (induction q arbitrary: u w)
  case (Cons r rs)
  obtain ret1 u1 w1 where f: "fillable_order policy account r u w = (ret1, u1, w1)" by (metis surj_pair)
  note b = fillable_order_bound[OF f Cons.prems(2)]
  show ?case using Cons.prems(1) f b Cons.IH[of u1 w1] Cons.prems(2) by (auto split: if_splits)
qed simp

lemma a_fillable_queue_match:
  assumes "a_fillable_queue policy account q u w = (ret, u', w')"
    and "a_match_queue ins price q (tid, ou) = (q', tid', ou')"
    and "policy = ins_self_trade_policy ins" "prevention_active policy account"
    and "account = ord_account (out_incoming ou)" "u = in_remaining ou" "0 < u"
    and "\<forall>x\<in>set q. 0 < ord_remaining x"
    and "unat w + unat u < 2 ^ 64" "unat w' + unat u' = unat w + unat u"
  shows "ret \<and> u' \<noteq> 0 \<or>
    (out_stp_cancelled ou' = out_stp_cancelled ou \<and> in_remaining ou' = u' \<and>
     ord_account (out_incoming ou') = account \<and> (ret \<longleftrightarrow> u' = 0) \<and> (\<not> ret \<longrightarrow> q' = []))"
  using assms
proof (induction q arbitrary: u w tid ou)
  case Nil
  from Nil.prems(1,2) have "ret = False" "u' = u" "q' = []" "ou' = ou" by simp_all
  moreover have "u \<noteq> 0" using Nil.prems(7) by simp
  ultimately show ?case using Nil.prems(5,6) by simp
next
  case (Cons r rs)
  obtain ret1 u1 w1 where f: "fillable_order policy account r u w = (ret1, u1, w1)" by (metis surj_pair)
  obtain again r' tid1 ou1 where one: "a_match_one ins price r (tid, ou) = (again, r', tid1, ou1)" by (metis surj_pair)
  note b = fillable_order_bound(1)[OF f Cons.prems(9)]
  have eq1: "unat w1 + unat u1 = unat w + unat u"
  proof (cases ret1)
    case True
    then show ?thesis using Cons.prems(1,10) f by simp
  next
    case False
    then have "a_fillable_queue policy account rs u1 w1 = (ret, u', w')" using Cons.prems(1) f by simp
    from a_fillable_queue_bound[OF this] b Cons.prems(9,10) show ?thesis by simp
  qed
  have rpos: "0 < ord_remaining r" using Cons.prems(8) by simp
  note step = fillable_order_step[OF f Cons.prems(3-7) rpos Cons.prems(9) eq1 one]
  show ?case
  proof (cases ret1)
    case True
    then have eqs: "ret" "u' = u1" "w' = w1" using Cons.prems(1) f by auto
    show ?thesis
    proof (cases "u1 = 0")
      case True
      then have st: "out_stp_cancelled ou1 = out_stp_cancelled ou" "in_remaining ou1 = 0"
        "ord_account (out_incoming ou1) = account" using step \<open>ret1\<close> by auto
      have "ou' = ou1"
        using Cons.prems(2,6,7) one st(2) by (cases r'; cases again; cases rs) (auto split: if_splits)
      then show ?thesis using st eqs True by auto
    next
      case False
      then show ?thesis using eqs by simp
    qed
  next
    case False
    then have st: "out_stp_cancelled ou1 = out_stp_cancelled ou" "in_remaining ou1 = u1"
      "ord_account (out_incoming ou1) = account" "again" "u1 \<noteq> 0" "r' = None" using step by auto
    have fq: "a_fillable_queue policy account rs u1 w1 = (ret, u', w')" using Cons.prems(1) f False by simp
    have mq: "a_match_queue ins price rs (tid1, ou1) = (q', tid', ou')"
      using Cons.prems(2,6,7) one st(4,6) by (auto split: if_splits)
    have fit1: "unat w1 + unat u1 < 2 ^ 64" "unat w' + unat u' = unat w1 + unat u1"
      using eq1 Cons.prems(9,10) by simp_all
    show ?thesis
      using Cons.IH[OF fq mq Cons.prems(3,4) st(3)[symmetric] st(2)[symmetric] _ _ fit1] st(1,5) Cons.prems(8)
      by (simp add: word_neq_0_conv)
  qed
qed

lemma a_fillable_walk_bound:
  "unat w + unat u < 2 ^ 64 \<Longrightarrow> unat (a_fillable_walk crosses policy account ls u w) \<le> unat w + unat u"
proof (induction ls arbitrary: u w)
  case (Cons l ls)
  obtain p q where l: "l = (p, q)" by (cases l)
  obtain ret u1 w1 where f: "a_fillable_queue policy account q u w = (ret, u1, w1)" by (metis surj_pair)
  note b = a_fillable_queue_bound[OF f Cons.prems]
  show ?case using l f b Cons.IH[of w1 u1] Cons.prems by (auto split: if_splits)
qed simp

lemma a_fillable_walk_match:
  assumes "a_match_levels ins crosses ls (tid, ou) = (ls', tid', ou')"
    and "policy = ins_self_trade_policy ins" "prevention_active policy account"
    and "account = ord_account (out_incoming ou)" "u = in_remaining ou" "0 < u"
    and "\<forall>x\<in>set (side_orders ls). 0 < ord_remaining x"
    and "unat w + unat u < 2 ^ 64" "unat (a_fillable_walk crosses policy account ls u w) = unat w + unat u"
  shows "in_remaining ou' = 0 \<and> out_stp_cancelled ou' = out_stp_cancelled ou"
  using assms
proof (induction ls arbitrary: u w tid ou)
  case Nil
  then show ?case by (simp add: word_pos_unat)
next
  case (Cons l ls)
  obtain p q where l: "l = (p, q)" by (cases l)
  obtain ret u1 w1 where f: "a_fillable_queue policy account q u w = (ret, u1, w1)" by (metis surj_pair)
  obtain q' tid1 ou1 where mq: "a_match_queue ins p q (tid, ou) = (q', tid1, ou1)" by (metis surj_pair)
  have cr: "crosses p" using Cons.prems(6,9) l by (auto simp: word_pos_unat split: if_splits)
  have nz: "in_remaining ou \<noteq> 0" using Cons.prems(5,6) by auto
  note b = a_fillable_queue_bound[OF f Cons.prems(8)]
  have walk: "unat (if ret then w1 else a_fillable_walk crosses policy account ls u1 w1) = unat w + unat u"
    using Cons.prems(9) l f cr by simp
  have le: "unat (a_fillable_walk crosses policy account ls u1 w1) \<le> unat w1 + unat u1"
    using a_fillable_walk_bound[of w1 u1] b Cons.prems(8) by simp
  have eq1: "unat w1 + unat u1 = unat w + unat u" using walk le b by (auto split: if_splits)
  have qpos: "\<forall>x\<in>set q. 0 < ord_remaining x" using Cons.prems(7) l by simp
  note step = a_fillable_queue_match[OF f mq Cons.prems(2-6) qpos Cons.prems(8) eq1]
  show ?case
  proof (cases ret)
    case True
    then have "u1 = 0" using walk eq1 by (simp add: unat_eq_0)
    then have st: "in_remaining ou1 = 0" "out_stp_cancelled ou1 = out_stp_cancelled ou" using step by auto
    have "ou' = ou1" using Cons.prems(1) l mq cr nz st(1) by (cases ls) (auto split: if_splits)
    then show ?thesis using st by simp
  next
    case False
    then have st: "in_remaining ou1 = u1" "out_stp_cancelled ou1 = out_stp_cancelled ou"
      "ord_account (out_incoming ou1) = account" "q' = []" "0 < u1"
      using step by (auto simp: word_neq_0_conv)
    have ml: "a_match_levels ins crosses ls (tid1, ou1) = (ls', tid', ou')"
      using Cons.prems(1) l mq cr nz st(4) by simp
    have fit1: "unat w1 + unat u1 < 2 ^ 64"
      "unat (a_fillable_walk crosses policy account ls u1 w1) = unat w1 + unat u1"
      using eq1 Cons.prems(8) walk False by simp_all
    show ?thesis
      using Cons.IH[OF ml Cons.prems(2,3) st(3)[symmetric] st(1)[symmetric] st(5) _ fit1] Cons.prems(7) l st(2)
      by simp
  qed
qed

section \<open>The decision is right\<close>

lemma a_fillable_match:
  assumes m: "a_match_levels (ab_instrument A) crosses (ab_levels A s) (tid, ou) = (ls', tid', ou')"
    and enough: "in_remaining ou \<le> a_fillable A s crosses (in_remaining ou) (ord_account (out_incoming ou))"
    and pos: "\<forall>x\<in>set (side_orders (ab_levels A s)). 0 < ord_remaining x" and fits: "side_fits (ab_levels A s)"
  shows "in_remaining ou' = 0 \<and> out_stp_cancelled ou' = out_stp_cancelled ou"
proof (cases "prevention_active (ins_self_trade_policy (ab_instrument A)) (ord_account (out_incoming ou))")
  case False
  let ?ls = "ab_levels A s"
  have "unat (in_remaining ou) \<le> unat (a_fillable_totals crosses (in_remaining ou) ?ls 0)"
    using enough False by (simp add: a_fillable_def word_le_nat_alt)
  also have "\<dots> \<le> qty_sum (side_orders (crossing crosses ?ls))"
    using a_fillable_totals_bound[of 0 ?ls crosses "in_remaining ou"] fits by (simp add: side_fits_def)
  finally show ?thesis using a_match_levels_open[OF m] False by (simp add: unat_eq_0)
next
  case True
  let ?ls = "ab_levels A s"
  show ?thesis
  proof (cases "in_remaining ou = 0")
    case True
    then show ?thesis using m by (cases ?ls) auto
  next
    case nz: False
    let ?W = "a_fillable_walk crosses (ins_self_trade_policy (ab_instrument A)) (ord_account (out_incoming ou)) ?ls
      (in_remaining ou) 0"
    have "unat ?W \<le> unat (in_remaining ou)" using a_fillable_walk_bound[of 0 "in_remaining ou"]
        unsigned_less[of "in_remaining ou"] by simp
    moreover have "unat (in_remaining ou) \<le> unat ?W" using enough True by (simp add: a_fillable_def word_le_nat_alt)
    ultimately show ?thesis
      using a_fillable_walk_match[OF m refl True refl refl _ pos, of 0] nz
        unsigned_less[of "in_remaining ou"] by (simp add: word_neq_0_conv)
  qed
qed

end
