(* ===== verification/Book_Invariant.thy ===== *)
theory Book_Invariant
  imports Book_Fok "HOL-Library.Multiset"
begin

text \<open>
  The invariant of the abstract book, \<open>wf_book\<close>, and that every operation keeps it: levels are
  sorted and hold live limit orders at their own price, identifiers are unique, and no bid is at
  or above an ask.
\<close>

section \<open>Sides and identifiers\<close>

lemma set_side_fields [simp]:
  "ab_instrument (set_side s A ls) = ab_instrument A" "ab_next_trade_id (set_side s A ls) = ab_next_trade_id A"
  "ab_levels (set_side s A ls) t = (if t = s then ls else ab_levels A t)"
  "ab_levels (A\<lparr>ab_next_trade_id := n\<rparr>) = ab_levels A"
  by (simp_all add: set_side_def)

lemma subseq_distinct: "subseq xs ys \<Longrightarrow> distinct ys \<Longrightarrow> distinct xs"
  by (auto simp: subseq_conv_nths)

lemma set_order_ids: "set (order_ids A) = (\<Union>s. ord_id ` set (side_orders (ab_levels A s)))"
proof -
  have u: "(UNIV :: Side set) = {Buy, Sell}" by (auto intro: Side.exhaust)
  show ?thesis unfolding u by (simp add: order_ids_def all_orders_def image_Un)
qed

lemma distinct_order_ids:
  "distinct (order_ids A) \<longleftrightarrow>
   distinct (map ord_id (side_orders (ab_levels A s)) @ map ord_id (side_orders (ab_levels A (opposite s))))"
  by (cases s) (auto simp: order_ids_def all_orders_def)

lemma all_sides: "(\<forall>t. P t) \<longleftrightarrow> P s \<and> P (opposite s)" for P :: "Side \<Rightarrow> bool"
  by (metis Side.exhaust opposite.simps)

text \<open>A price of side \<open>s\<close> that does not reach the price \<open>b\<close> of the other side.\<close>

definition apart :: "Side \<Rightarrow> Price \<Rightarrow> Price \<Rightarrow> bool" where
  "apart s a b = (if s = Buy then a < b else b < a)"

lemma uncrossed_side:
  "uncrossed A \<longleftrightarrow> (\<forall>l\<in>set (ab_levels A s). \<forall>m\<in>set (ab_levels A (opposite s)). apart s (fst l) (fst m))"
  by (cases s) (auto simp: uncrossed_def apart_def)

lemma wf_book_pos: "wf_book A \<Longrightarrow> \<forall>x\<in>set (side_orders (ab_levels A s)). 0 < ord_remaining x"
  by (fastforce simp: wf_book_def wf_side_def wf_level_def wf_order_def side_orders_def)

text \<open>A side that shrinks, in prices, identifiers and quantity, keeps the invariant.\<close>

lemma wf_book_shrink:
  assumes wf: "wf_book A" and side: "wf_side (ab_instrument A) s ls"
    and prices: "fst ` set ls \<subseteq> fst ` set (ab_levels A s)"
    and ids: "subseq (map ord_id (side_orders ls)) (map ord_id (side_orders (ab_levels A s)))"
    and qty: "qty_sum (side_orders ls) \<le> qty_sum (side_orders (ab_levels A s))"
  shows "wf_book ((set_side s A ls)\<lparr>ab_next_trade_id := n\<rparr>)"
proof -
  let ?A = "(set_side s A ls)\<lparr>ab_next_trade_id := n\<rparr>"
  have ne: "opposite s \<noteq> s" by simp
  have "\<forall>t. wf_side (ab_instrument ?A) t (ab_levels ?A t)"
    using wf side by (simp add: wf_book_def)
  moreover have "uncrossed ?A"
  proof -
    have "uncrossed A" using wf by (simp add: wf_book_def)
    then have "apart s (fst l) (fst m)"
      if l: "l \<in> set ls" and m: "m \<in> set (ab_levels A (opposite s))" for l m
    proof -
      have "fst l \<in> fst ` set (ab_levels A s)" using prices l by blast
      then obtain l' where "l' \<in> set (ab_levels A s)" "fst l' = fst l" by auto
      then show ?thesis using \<open>uncrossed A\<close> m unfolding uncrossed_side[of A s] by metis
    qed
    then show ?thesis unfolding uncrossed_side[of ?A s] using ne by simp
  qed
  moreover have "distinct (order_ids ?A)"
  proof -
    have "distinct (order_ids A)" using wf by (simp add: wf_book_def)
    moreover have "subseq (map ord_id (side_orders ls) @ map ord_id (side_orders (ab_levels A (opposite s))))
        (map ord_id (side_orders (ab_levels A s)) @ map ord_id (side_orders (ab_levels A (opposite s))))"
      using ids by simp
    ultimately have "distinct (map ord_id (side_orders ls) @ map ord_id (side_orders (ab_levels A (opposite s))))"
      unfolding distinct_order_ids[of A s] by (rule subseq_distinct[rotated])
    then show ?thesis unfolding distinct_order_ids[of ?A s] using ne by simp
  qed
  moreover have "\<forall>t. side_fits (ab_levels ?A t)"
    using wf qty by (auto simp: wf_book_def side_fits_def intro: le_less_trans)
  ultimately show ?thesis unfolding wf_book_def by blast
qed

section \<open>Matching\<close>

text \<open>The aggressor keeps its identity and only shrinks.\<close>

definition shrunk :: "Order \<Rightarrow> Order \<Rightarrow> bool" where
  "shrunk x y \<longleftrightarrow> order_core y = order_core x \<and> ord_remaining y \<le> ord_remaining x \<and>
     (ord_remaining x \<le> ord_quantity x \<longrightarrow> ord_remaining y \<le> ord_quantity y)"

lemma shrunk_refl: "shrunk x x"
  by (simp add: shrunk_def)

lemma shrunk_trans: "shrunk x y \<Longrightarrow> shrunk y z \<Longrightarrow> shrunk x z"
  by (auto simp: shrunk_def)

lemma a_match_one_incoming:
  assumes "a_match_one ins price r (tid, ou) = (again, r', tid', ou')"
  shows "shrunk (out_incoming ou) (out_incoming ou')"
proof -
  let ?x = "out_incoming ou" and ?q = "min (in_remaining ou) (ord_remaining r)"
  have "out_incoming ou' \<in> {?x, ?x\<lparr>ord_remaining := 0\<rparr>, ?x\<lparr>ord_remaining := ord_remaining ?x - ?q\<rparr>,
      ?x\<lparr>ord_remaining := ord_remaining ?x - ?q, ord_quantity := ord_quantity ?x - ?q\<rparr>}"
    using assms unfolding a_match_one_meeting
    by (cases "meeting ins r ou") (auto simp: a_trade_def a_decrement_def cancel_incoming_def Let_def)
  then show ?thesis
    by (auto simp: shrunk_def word_le_nat_alt unat_minus_min unat_sub_if' unat_min split: if_splits)
qed

lemma a_match_queue_incoming:
  "a_match_queue ins price q (tid, ou) = (q', tid', ou') \<Longrightarrow> shrunk (out_incoming ou) (out_incoming ou')"
  by (induction rule: a_match_queue_induct)
     (auto intro: shrunk_refl shrunk_trans dest: a_match_one_incoming)

lemma a_match_levels_incoming:
  "a_match_levels ins crosses ls (tid, ou) = (ls', tid', ou') \<Longrightarrow> shrunk (out_incoming ou) (out_incoming ou')"
  by (induction rule: a_match_levels_induct)
     (auto intro: shrunk_refl shrunk_trans dest: a_match_queue_incoming)

lemma a_match_wf:
  assumes wf: "wf_book A" and m: "a_match A s crosses ou = (A', ou')"
  shows "wf_book A'" and "ab_instrument A' = ab_instrument A"
    and "ab_levels A' (opposite s) = ab_levels A (opposite s)"
    and "set (order_ids A') \<subseteq> set (order_ids A)"
    and "shrunk (out_incoming ou) (out_incoming ou')"
    and "in_remaining ou' \<noteq> 0 \<Longrightarrow> ab_levels A' s = [] \<or> \<not> crosses (fst (hd (ab_levels A' s)))"
proof -
  obtain ls tid where ml: "a_match_levels (ab_instrument A) crosses (ab_levels A s) (ab_next_trade_id A, ou) =
      (ls, tid, ou')" and A': "A' = (set_side s A ls)\<lparr>ab_next_trade_id := tid\<rparr>"
    using m by (auto simp: a_match_def split: prod.splits)
  have cons: "consumed (side_orders (ab_levels A s)) (side_orders ls)" by (rule a_match_levels_consumed[OF ml])
  have suf: "suffix (map ord_id (side_orders ls)) (map ord_id (side_orders (ab_levels A s)))"
    by (rule consumed_suffix[OF cons])
  have side: "wf_side (ab_instrument A) s ls"
    using a_match_levels_wf[OF ml] wf by (simp add: wf_book_def)
  have prices: "fst ` set ls \<subseteq> fst ` set (ab_levels A s)"
    using set_mono_suffix[OF a_match_levels_prices[OF ml]] by simp
  show "wf_book A'" unfolding A'
    by (rule wf_book_shrink[OF wf side prices suffix_imp_subseq[OF suf] consumed_qty_sum[OF cons]])
  show "ab_instrument A' = ab_instrument A" "ab_levels A' (opposite s) = ab_levels A (opposite s)"
    by (simp_all add: A')
  have "set (map ord_id (side_orders ls)) \<subseteq> set (map ord_id (side_orders (ab_levels A s)))"
    by (rule set_mono_suffix[OF suf])
  then show "set (order_ids A') \<subseteq> set (order_ids A)"
    unfolding set_order_ids by (intro UN_mono) (auto simp: A')
  show "shrunk (out_incoming ou) (out_incoming ou')" by (rule a_match_levels_incoming[OF ml])
  show "in_remaining ou' \<noteq> 0 \<Longrightarrow> ab_levels A' s = [] \<or> \<not> crosses (fst (hd (ab_levels A' s)))"
    using a_match_levels_stop[OF ml] by (simp add: A')
qed

section \<open>Resting\<close>

lemma a_queue_in_mset: "mset (side_orders (a_queue_in d x ls)) = add_mset x (mset (side_orders ls))"
  by (induction d x ls rule: a_queue_in.induct) auto

lemma a_queue_in_qty:
  "qty_sum (side_orders (a_queue_in d x ls)) = qty_sum (side_orders ls) + unat (ord_remaining x)"
  by (induction d x ls rule: a_queue_in.induct) auto

lemma a_queue_in_prices: "fst ` set (a_queue_in d x ls) = insert (ord_price x) (fst ` set ls)"
  by (induction d x ls rule: a_queue_in.induct) auto

lemma price_before_trans: "price_before d a b \<Longrightarrow> price_before d b c \<Longrightarrow> price_before d a c"
  by (auto simp: price_before_def split: if_splits)

lemma price_before_linear: "a \<noteq> b \<Longrightarrow> \<not> price_before d a b \<Longrightarrow> price_before d b a"
  by (auto simp: price_before_def split: if_splits)

lemma a_queue_in_sorted:
  "sorted_wrt (\<lambda>a b. price_before d (fst a) (fst b)) ls \<Longrightarrow>
   sorted_wrt (\<lambda>a b. price_before d (fst a) (fst b)) (a_queue_in d x ls)"
proof (induction d x ls rule: a_queue_in.induct)
  case (2 d x price q ls)
  consider "ord_price x = price" | "ord_price x \<noteq> price" "price_before d (ord_price x) price"
    | "ord_price x \<noteq> price" "\<not> price_before d (ord_price x) price" by blast
  then show ?case
  proof cases
    case 2
    then show ?thesis using "2.prems" price_before_trans by fastforce
  next
    case 3
    have "\<forall>b\<in>set (a_queue_in d x ls). price_before d price (fst b)"
    proof
      fix b assume "b \<in> set (a_queue_in d x ls)"
      then have "fst b \<in> insert (ord_price x) (fst ` set ls)" using a_queue_in_prices by (metis imageI)
      then show "price_before d price (fst b)"
        using "2.prems" 3 price_before_linear[of "ord_price x" price d] by auto
    qed
    then show ?thesis using 3 "2.IH" "2.prems" by simp
  qed (use "2.prems" in simp)
qed simp

lemma a_queue_in_wf:
  assumes "wf_side ins s ls" and "wf_order ins s (ord_price x) x" and "is_valid_price ins (ord_price x)"
  shows "wf_side ins s (a_queue_in (desc s) x ls)"
proof -
  have "\<forall>l\<in>set (a_queue_in d x ls). wf_level ins s l" if "\<forall>l\<in>set ls. wf_level ins s l" for d
    using that assms(2,3) by (induction d x ls rule: a_queue_in.induct) (auto simp: wf_level_def)
  then show ?thesis using assms(1) a_queue_in_sorted by (auto simp: wf_side_def)
qed

lemma a_rest_wf:
  assumes wf: "wf_book A" and x: "wf_order (ab_instrument A) (ord_side x) (ord_price x) x"
    and vp: "is_valid_price (ab_instrument A) (ord_price x)" and new: "ord_id x \<notin> set (order_ids A)"
    and ap: "\<forall>m\<in>set (ab_levels A (opposite (ord_side x))). apart (ord_side x) (ord_price x) (fst m)"
    and fits: "qty_sum (side_orders (ab_levels A (ord_side x))) + unat (ord_remaining x) < 2 ^ 64"
  shows "wf_book (a_rest A x)"
proof -
  let ?s = "ord_side x"
  let ?ls = "a_queue_in (desc ?s) x (ab_levels A ?s)"
  let ?A = "set_side ?s A ?ls"
  have eq: "a_rest A x = ?A" by (simp add: a_rest_def Let_def)
  have ne: "opposite ?s \<noteq> ?s" by simp
  have "wf_side (ab_instrument A) ?s ?ls"
    using wf x vp by (intro a_queue_in_wf) (auto simp: wf_book_def)
  then have "\<forall>t. wf_side (ab_instrument ?A) t (ab_levels ?A t)" using wf by (simp add: wf_book_def)
  moreover have "uncrossed ?A"
  proof -
    have "uncrossed A" using wf by (simp add: wf_book_def)
    then have "apart ?s (fst l) (fst m)"
      if l: "l \<in> set ?ls" and m: "m \<in> set (ab_levels A (opposite ?s))" for l m
    proof -
      have "fst l \<in> insert (ord_price x) (fst ` set (ab_levels A ?s))"
        unfolding a_queue_in_prices[of "desc ?s", symmetric] using l by (rule imageI)
      then consider "fst l = ord_price x" | l' where "l' \<in> set (ab_levels A ?s)" "fst l' = fst l" by auto
      then show ?thesis
      proof cases
        case 1
        then show ?thesis using ap m by simp
      next
        case (2 l')
        then show ?thesis using m \<open>uncrossed A\<close> unfolding uncrossed_side[of A ?s] by metis
      qed
    qed
    then show ?thesis unfolding uncrossed_side[of ?A ?s] using ne by simp
  qed
  moreover have "distinct (order_ids ?A)"
  proof -
    have m: "mset (map ord_id (side_orders ?ls)) = add_mset (ord_id x) (mset (map ord_id (side_orders (ab_levels A ?s))))"
      by (simp add: a_queue_in_mset)
    have "mset (map ord_id (side_orders ?ls) @ map ord_id (side_orders (ab_levels A (opposite ?s)))) =
        mset (ord_id x # map ord_id (side_orders (ab_levels A ?s)) @ map ord_id (side_orders (ab_levels A (opposite ?s))))"
      using m by simp
    then have "distinct (map ord_id (side_orders ?ls) @ map ord_id (side_orders (ab_levels A (opposite ?s)))) =
        distinct (ord_id x # map ord_id (side_orders (ab_levels A ?s)) @ map ord_id (side_orders (ab_levels A (opposite ?s))))"
      by (rule mset_eq_imp_distinct_iff)
    moreover have "distinct (map ord_id (side_orders (ab_levels A ?s)) @ map ord_id (side_orders (ab_levels A (opposite ?s))))"
      using wf unfolding wf_book_def distinct_order_ids[of A ?s] by simp
    moreover have "ord_id x \<notin> set (map ord_id (side_orders (ab_levels A ?s)) @ map ord_id (side_orders (ab_levels A (opposite ?s))))"
      using new unfolding set_order_ids by auto
    ultimately show ?thesis unfolding distinct_order_ids[of ?A ?s] using ne by simp
  qed
  moreover have "\<forall>t. side_fits (ab_levels ?A t)"
    using wf fits a_queue_in_qty[of "desc ?s" x] by (auto simp: wf_book_def side_fits_def)
  ultimately show ?thesis unfolding eq wf_book_def by blast
qed

section \<open>Submitting\<close>

text \<open>The room a command needs: what it may leave resting still fits its side.\<close>

definition room_for :: "ABook \<Rightarrow> Side \<Rightarrow> Quantity \<Rightarrow> bool" where
  "room_for A s q \<longleftrightarrow> qty_sum (side_orders (ab_levels A s)) + unat q < 2 ^ 64"

lemma apart_beyond_first:
  assumes "wf_side ins (opposite s) ls" and "ls = [] \<or> \<not> crosses_at False p (s = Buy) (fst (hd ls))"
  shows "\<forall>m\<in>set ls. apart s p (fst m)"
proof (cases ls)
  case (Cons l ms)
  have "apart s p (fst l)" using assms(2) Cons by (auto simp: crosses_at_def apart_def split: if_splits)
  moreover have "price_before (desc (opposite s)) (fst l) (fst m)" if "m \<in> set ms" for m
    using assms(1) Cons that by (simp add: wf_side_def)
  ultimately show ?thesis using Cons
    by (cases s) (fastforce simp: apart_def price_before_def desc_def)+
qed simp

lemma a_insert_matched_wf:
  assumes wf: "wf_book A" and r: "a_insert_matched A ord out = (res, out', A')"
    and vp: "ord_type ord = Limit \<longrightarrow> is_valid_price (ab_instrument A) (ord_price ord)"
    and new: "ord_id ord \<notin> set (order_ids A)" and ins: "ord_instrument ord = ins_id (ab_instrument A)"
    and le: "ord_remaining ord \<le> ord_quantity ord" and room: "room_for A (ord_side ord) (ord_remaining ord)"
  shows "wf_book A'" and "ab_instrument A' = ab_instrument A"
proof -
  let ?s = "ord_side ord"
  let ?cr = "crosses_at (ord_type ord = Market) (ord_price ord) (is_buy ord)"
  let ?ou = "\<lparr>out_incoming = ord, out_fills = fst out, out_withdrawals = snd out, out_stp_cancelled = 0\<rparr>"
  obtain A1 ou where m: "a_match A (opposite ?s) ?cr ?ou = (A1, ou)" by (metis surj_pair)
  note mw = a_match_wf[OF wf m]
  let ?x = "out_incoming ou"
  have sh: "shrunk ord ?x" using mw(5) by simp
  then have core: "order_core ?x = order_core ord" by (simp add: shrunk_def)
  note f = order_core_fields[OF core]
  consider "A' = A" | "A' = A1"
    | "ord_remaining ?x \<noteq> 0" "ord_type ord = Limit" "ord_tif ord \<noteq> ImmediateOrCancel" "A' = a_rest A1 ?x"
      "ord_tif ord = FillOrKill \<longrightarrow> \<not> a_fillable A (opposite ?s) ?cr (ord_remaining ord) (ord_account ord) < ord_remaining ord"
    using r m f(6) by (cases "ord_type ord") (auto simp: a_insert_matched_def Let_def split: if_splits)
  then have "wf_book A' \<and> ab_instrument A' = ab_instrument A"
  proof cases
    case 3
    have "ord_tif ord \<noteq> FillOrKill"
    proof
      assume "ord_tif ord = FillOrKill"
      then have "ord_remaining ord \<le> a_fillable A (opposite ?s) ?cr (ord_remaining ord) (ord_account ord)"
        using 3(5) by simp
      moreover obtain ls tid where "a_match_levels (ab_instrument A) ?cr (ab_levels A (opposite ?s))
          (ab_next_trade_id A, ?ou) = (ls, tid, ou)"
        using m by (auto simp: a_match_def split: prod.splits)
      ultimately have "ord_remaining ?x = 0"
        using a_fillable_match[of A ?cr "opposite ?s" "ab_next_trade_id A" ?ou ls tid ou] wf wf_book_pos[OF wf]
        by (simp add: wf_book_def)
      then show False using 3(1) by simp
    qed
    then have xwf: "wf_order (ab_instrument A1) (ord_side ?x) (ord_price ?x) ?x"
      using 3 f ins sh le mw(2) by (auto simp: wf_order_def shrunk_def word_neq_0_conv)
    have vpx: "is_valid_price (ab_instrument A1) (ord_price ?x)" using vp 3(2) f(3) mw(2) by simp
    have newx: "ord_id ?x \<notin> set (order_ids A1)" using new mw(4) f(1) by auto
    have "\<forall>m\<in>set (ab_levels A1 (opposite ?s)). apart ?s (ord_price ord) (fst m)"
    proof (rule apart_beyond_first)
      show "wf_side (ab_instrument A1) (opposite ?s) (ab_levels A1 (opposite ?s))"
        using mw(1) by (simp add: wf_book_def)
      show "ab_levels A1 (opposite ?s) = [] \<or>
          \<not> crosses_at False (ord_price ord) (?s = Buy) (fst (hd (ab_levels A1 (opposite ?s))))"
        using mw(6) 3(1,2) by (simp add: is_buy_def)
    qed
    then have apx: "\<forall>m\<in>set (ab_levels A1 (opposite (ord_side ?x))). apart (ord_side ?x) (ord_price ?x) (fst m)"
      using f(3,4) by simp
    have fx: "qty_sum (side_orders (ab_levels A1 (ord_side ?x))) + unat (ord_remaining ?x) < 2 ^ 64"
      using mw(3) room sh f(4) by (simp add: room_for_def shrunk_def word_le_nat_alt)
    have "wf_book (a_rest A1 ?x)" by (rule a_rest_wf[OF mw(1) xwf vpx newx apx fx])
    then show ?thesis using 3(4) mw(2) by (simp add: a_rest_def Let_def)
  qed (use wf mw in simp_all)
  then show "wf_book A'" and "ab_instrument A' = ab_instrument A" by auto
qed

lemma a_validate_ok:
  "a_validate A ord = RejectNone \<longleftrightarrow> ord_instrument ord = ins_id (ab_instrument A) \<and>
     is_valid_quantity (ab_instrument A) (ord_quantity ord) \<and>
     (ord_type ord = Limit \<longrightarrow> is_valid_price (ab_instrument A) (ord_price ord)) \<and>
     ord_id ord \<notin> set (order_ids A)"
  by (simp add: a_validate_def)

lemma a_insert_wf:
  assumes wf: "wf_book A" and r: "a_insert A ord out = (res, out', A')"
    and le: "ord_remaining ord \<le> ord_quantity ord" and room: "room_for A (ord_side ord) (ord_remaining ord)"
  shows "wf_book A'" and "ab_instrument A' = ab_instrument A"
proof -
  consider "A' = A" | "a_validate A ord = RejectNone" "a_insert_matched A ord out = (res, out', A')"
    using r by (auto simp: a_insert_def Let_def split: if_splits)
  then have "wf_book A' \<and> ab_instrument A' = ab_instrument A"
  proof cases
    case 2
    then show ?thesis using a_insert_matched_wf[OF wf 2(2)] le room by (simp add: a_validate_ok)
  qed (use wf in simp)
  then show "wf_book A'" and "ab_instrument A' = ab_instrument A" by auto
qed

lemma a_submit_wf:
  assumes "wf_book A" and "a_submit A ord out = (res, out', A')" and "room_for A (ord_side ord) (ord_quantity ord)"
  shows "wf_book A'" and "ab_instrument A' = ab_instrument A"
  using a_insert_wf[OF assms(1), of "ord\<lparr>ord_remaining := ord_quantity ord\<rparr>" out res out' A'] assms(2,3)
  by (simp_all add: a_submit_def)

section \<open>Cancelling and amending\<close>

lemma side_orders_take_out: "side_orders (take_out oid ls) = filter (\<lambda>x. ord_id x \<noteq> oid) (side_orders ls)"
  by (induction ls) (auto simp: take_out_def)

lemma side_orders_rewrite:
  "side_orders (rewrite_order oid g ls) = map (\<lambda>x. if ord_id x = oid then g x else x) (side_orders ls)"
  by (induction ls) (auto simp: rewrite_order_def)

lemma a_find_Some:
  assumes "wf_book A" and "a_find A oid = Some x"
  shows "ord_id x = oid" and "x \<in> set (side_orders (ab_levels A (ord_side x)))"
    and "is_valid_price (ab_instrument A) (ord_price x)"
    and "wf_order (ab_instrument A) (ord_side x) (ord_price x) x"
proof -
  have x: "x \<in> set (all_orders A)" "ord_id x = oid"
    using assms(2) by (auto simp: a_find_def find_Some_iff in_set_conv_nth)
  then obtain s where s: "x \<in> set (side_orders (ab_levels A s))" by (auto simp: all_orders_def)
  then obtain l where l: "l \<in> set (ab_levels A s)" "x \<in> set (snd l)" by (auto simp: side_orders_def)
  then have w: "is_valid_price (ab_instrument A) (fst l)" "wf_order (ab_instrument A) s (fst l) x"
    using assms(1) by (auto simp: wf_book_def wf_side_def wf_level_def)
  then have f: "ord_side x = s" "ord_price x = fst l" by (auto simp: wf_order_def)
  show "ord_id x = oid" by (rule x(2))
  show "x \<in> set (side_orders (ab_levels A (ord_side x)))" using s f(1) by simp
  show "is_valid_price (ab_instrument A) (ord_price x)" using w(1) f(2) by simp
  show "wf_order (ab_instrument A) (ord_side x) (ord_price x) x" using w(2) f by simp
qed

lemma a_find_None: "a_find A oid = None \<longleftrightarrow> oid \<notin> set (order_ids A)"
  by (auto simp: a_find_def find_None_iff order_ids_def)

lemma wf_side_take_out:
  assumes "wf_side ins s ls"
  shows "wf_side ins s (take_out oid ls)" and "fst ` set (take_out oid ls) \<subseteq> fst ` set ls"
proof -
  show "fst ` set (take_out oid ls) \<subseteq> fst ` set ls" by (force simp: take_out_def)
  have "\<forall>l\<in>set (take_out oid ls). wf_level ins s l"
    using assms by (fastforce simp: take_out_def wf_side_def wf_level_def)
  moreover have "sorted_wrt (\<lambda>a b. price_before (desc s) (fst a) (fst b))
      (map (\<lambda>(p, q). (p, filter (\<lambda>x. ord_id x \<noteq> oid) q)) ls)"
    using assms by (auto simp: wf_side_def sorted_wrt_map case_prod_beta)
  ultimately show "wf_side ins s (take_out oid ls)"
    by (simp add: wf_side_def take_out_def sorted_wrt_filter)
qed

lemma filter_qty_sum: "qty_sum (filter P q) \<le> qty_sum q"
  by (induction q) auto

lemma wf_book_side:
  "wf_book A \<Longrightarrow> wf_side (ab_instrument A) s ls \<Longrightarrow> fst ` set ls \<subseteq> fst ` set (ab_levels A s) \<Longrightarrow>
   subseq (map ord_id (side_orders ls)) (map ord_id (side_orders (ab_levels A s))) \<Longrightarrow>
   qty_sum (side_orders ls) \<le> qty_sum (side_orders (ab_levels A s)) \<Longrightarrow> wf_book (set_side s A ls)"
  using wf_book_shrink[of A s ls "ab_next_trade_id A"] by (simp add: set_side_def)

lemma a_cancel_wf:
  assumes "wf_book A" and "a_cancel A oid = (res, A')"
  shows "wf_book A'" and "ab_instrument A' = ab_instrument A"
    and "set (order_ids A') = set (order_ids A) - {oid}"
    and "qty_sum (side_orders (ab_levels A' s)) \<le> qty_sum (side_orders (ab_levels A s))"
proof -
  have "wf_book A' \<and> ab_instrument A' = ab_instrument A \<and> set (order_ids A') = set (order_ids A) - {oid} \<and>
    qty_sum (side_orders (ab_levels A' s)) \<le> qty_sum (side_orders (ab_levels A s))"
  proof (cases "a_find A oid")
    case None
    then show ?thesis using assms a_find_None[of A oid] by (simp add: a_cancel_def)
  next
    case (Some x)
    let ?s = "ord_side x"
    have A': "A' = set_side ?s A (take_out oid (ab_levels A ?s))" using assms(2) Some by (simp add: a_cancel_def)
    have side: "wf_side (ab_instrument A) ?s (ab_levels A ?s)" using assms(1) by (simp add: wf_book_def)
    have ids: "map ord_id (side_orders (take_out oid (ab_levels A ?s))) =
        filter (\<lambda>i. i \<noteq> oid) (map ord_id (side_orders (ab_levels A ?s)))"
      by (simp add: side_orders_take_out filter_map comp_def)
    have wf': "wf_book A'" unfolding A'
      using wf_side_take_out[OF side] assms(1) ids
      by (intro wf_book_side) (auto simp: side_orders_take_out filter_qty_sum)
    have "oid \<notin> ord_id ` set (side_orders (ab_levels A (opposite ?s)))"
      using assms(1) a_find_Some[OF assms(1) Some] unfolding wf_book_def distinct_order_ids[of A ?s] by auto
    moreover have "set (order_ids B) = ord_id ` set (side_orders (ab_levels B ?s)) \<union>
        ord_id ` set (side_orders (ab_levels B (opposite ?s)))" for B
      by (cases ?s) (auto simp: order_ids_def all_orders_def)
    ultimately have "set (order_ids A') = set (order_ids A) - {oid}"
      by (auto simp: A' side_orders_take_out)
    then show ?thesis using wf' by (auto simp: A' side_orders_take_out filter_qty_sum)
  qed
  then show "wf_book A'" and "ab_instrument A' = ab_instrument A"
    and "set (order_ids A') = set (order_ids A) - {oid}"
    and "qty_sum (side_orders (ab_levels A' s)) \<le> qty_sum (side_orders (ab_levels A s))" by auto
qed

text \<open>Reducing an order in place.\<close>

lemma reduced_remaining:
  assumes x: "0 < ord_remaining x" "ord_remaining x \<le> ord_quantity x"
    and q: "\<not> q \<le> filled x" "q < ord_quantity x"
  shows "0 < q - filled x" "q - filled x \<le> q" "q - filled x < ord_remaining x"
proof -
  have fl: "unat (filled x) = unat (ord_quantity x) - unat (ord_remaining x)"
    using x(2) by (simp add: filled_def unat_sub word_le_nat_alt)
  have lt: "unat (filled x) < unat q" using q(1) by (simp add: word_le_nat_alt)
  have r: "unat (q - filled x) = unat q - unat (filled x)"
    using q(1) by (simp add: unat_sub word_le_nat_alt)
  show "0 < q - filled x" using lt r by (simp add: word_pos_unat)
  show "q - filled x \<le> q" using r by (simp add: word_le_nat_alt)
  have "unat q < unat (ord_quantity x)" "unat (ord_remaining x) \<le> unat (ord_quantity x)"
    using q(2) x(2) by (simp_all add: word_less_nat_alt word_le_nat_alt)
  then have "unat (q - filled x) < unat (ord_remaining x)" using r fl lt by linarith
  then show "q - filled x < ord_remaining x" by (simp add: word_less_nat_alt)
qed

lemma same_id_same_order:
  "distinct (map ord_id xs) \<Longrightarrow> x \<in> set xs \<Longrightarrow> y \<in> set xs \<Longrightarrow> ord_id x = ord_id y \<Longrightarrow> x = y"
  by (auto simp: distinct_map dest: inj_onD)

lemma wf_side_rewrite:
  assumes "wf_side ins s ls" and "\<And>x p. wf_order ins s p x \<Longrightarrow> wf_order ins s p (g x)"
  shows "wf_side ins s (rewrite_order oid g ls)" and "fst ` set (rewrite_order oid g ls) = fst ` set ls"
proof -
  show "fst ` set (rewrite_order oid g ls) = fst ` set ls" by (force simp: rewrite_order_def)
  have "\<forall>l\<in>set (rewrite_order oid g ls). wf_level ins s l"
    using assms by (fastforce simp: rewrite_order_def wf_side_def wf_level_def)
  moreover have "sorted_wrt (\<lambda>a b. price_before (desc s) (fst a) (fst b)) (rewrite_order oid g ls)"
    using assms(1) by (auto simp: rewrite_order_def wf_side_def sorted_wrt_map case_prod_beta)
  ultimately show "wf_side ins s (rewrite_order oid g ls)" by (simp add: wf_side_def)
qed

lemma qty_sum_rewrite_le:
  "(\<And>x. x \<in> set q \<Longrightarrow> ord_id x = oid \<Longrightarrow> ord_remaining (g x) \<le> ord_remaining x) \<Longrightarrow>
   qty_sum (map (\<lambda>x. if ord_id x = oid then g x else x) q) \<le> qty_sum q"
  by (induction q) (auto simp: word_le_nat_alt intro: add_mono)

lemma reduce_in_place_wf:
  assumes wf: "wf_book A" and x: "a_find A oid = Some x" and q: "\<not> q \<le> filled x" "q < ord_quantity x"
  shows "wf_book (set_side (ord_side x) A (rewrite_order oid
    (\<lambda>y. y\<lparr>ord_quantity := q, ord_remaining := q - filled x\<rparr>) (ab_levels A (ord_side x))))"
proof -
  let ?s = "ord_side x" and ?g = "\<lambda>y. y\<lparr>ord_quantity := q, ord_remaining := q - filled x\<rparr>"
  let ?ls = "ab_levels A ?s"
  note fx = a_find_Some[OF wf x]
  have rem: "0 < ord_remaining x" "ord_remaining x \<le> ord_quantity x" using fx(4) by (auto simp: wf_order_def)
  note rr = reduced_remaining[OF rem q]
  have side: "wf_side (ab_instrument A) ?s ?ls" using wf by (simp add: wf_book_def)
  have g: "wf_order (ab_instrument A) ?s p (?g y)" if "wf_order (ab_instrument A) ?s p y" for p y
    using that rr by (auto simp: wf_order_def)
  have dist: "distinct (map ord_id (side_orders ?ls))"
    using wf unfolding wf_book_def distinct_order_ids[of A ?s] by simp
  have ids: "map ord_id (side_orders (rewrite_order oid ?g ?ls)) = map ord_id (side_orders ?ls)"
    by (simp add: side_orders_rewrite)
  have "qty_sum (side_orders (rewrite_order oid ?g ?ls)) \<le> qty_sum (side_orders ?ls)"
    unfolding side_orders_rewrite
  proof (rule qty_sum_rewrite_le)
    fix y assume "y \<in> set (side_orders ?ls)" "ord_id y = oid"
    then have "y = x" using same_id_same_order[OF dist _ fx(2)] fx(1) by simp
    then show "ord_remaining (?g y) \<le> ord_remaining y" using rr(3) by simp
  qed
  then show ?thesis
    using wf_side_rewrite[OF side g] ids by (intro wf_book_side[OF wf]) auto
qed

lemma amended_fields [simp]:
  "ord_side (amended_order x p q n t) = ord_side x" "ord_id (amended_order x p q n t) = ord_id x"
  "ord_remaining (amended_order x p q n t) = q - filled x" "ord_quantity (amended_order x p q n t) = q"
  "ord_type (amended_order x p q n t) = ord_type x" "ord_tif (amended_order x p q n t) = ord_tif x"
  "ord_price (amended_order x p q n t) = p" "ord_instrument (amended_order x p q n t) = ord_instrument x"
  "ord_account (amended_order x p q n t) = ord_account x"
  "ord_post_only (amended_order x p q n t) = ord_post_only x"
  by (simp_all add: amended_order_def)

lemma unfilled_le: "\<not> q \<le> filled x \<Longrightarrow> q - filled x \<le> q"
  by (simp add: word_le_nat_alt unat_sub)

lemma a_replace_wf:
  assumes wf: "wf_book A" and r: "a_replace A oid p q n t out = (res, out', A')" and room: "\<And>s. room_for A s q"
  shows "wf_book A'" and "ab_instrument A' = ab_instrument A"
proof -
  have "wf_book A' \<and> ab_instrument A' = ab_instrument A"
  proof (cases "a_find A oid")
    case None
    then show ?thesis using r wf by (simp add: a_replace_def)
  next
    case (Some x)
    obtain c A1 where c: "a_cancel A oid = (c, A1)" by (metis surj_pair)
    note cw = a_cancel_wf[OF wf c]
    obtain sr so A2 where i: "a_insert A1 (amended_order x p q n t) out = (sr, so, A2)" by (metis surj_pair)
    consider "A' = A" | "A' = A1"
      | "\<not> q \<le> filled x" "q < ord_quantity x" "A' = set_side (ord_side x) A (rewrite_order oid
          (\<lambda>y. y\<lparr>ord_quantity := q, ord_remaining := q - filled x\<rparr>) (ab_levels A (ord_side x)))"
      | "\<not> q \<le> filled x" "A' = A2"
      using r Some c i unfolding a_replace_def by (simp add: Let_def split: if_splits)
    then show ?thesis
    proof cases
      case 3
      then show ?thesis using reduce_in_place_wf[OF wf Some 3(1,2)] by simp
    next
      case 4
      have "room_for A1 (ord_side x) (q - filled x)"
        using room[of "ord_side x"] cw(4)[of "ord_side x"] unfilled_le[OF 4(1)]
        by (auto simp: room_for_def word_le_nat_alt)
      then show ?thesis using a_insert_wf[OF cw(1) i] unfilled_le[OF 4(1)] 4(2) cw(2) by simp
    qed (use wf cw in simp_all)
  qed
  then show "wf_book A'" and "ab_instrument A' = ab_instrument A" by auto
qed

lemma ABook_new_wf: "wf_book (ABook_new ins)"
  by (simp add: wf_book_def ABook_new_def wf_side_def uncrossed_def order_ids_def all_orders_def side_fits_def)

end
