(* ===== verification/Book_Refinement.thy ===== *)
theory Book_Refinement
  imports Book_Invariant
begin

text \<open>
  The order book of the code implements the abstract book.  The representation names, per side,
  the occupied ticks in walking order with the handles queued at each of them; from it the
  abstract side is read off the slab.  Every operation of \<open>Order_Book\<close> that starts from a
  represented book returns, and its result represents what the specification computes.
\<close>

section \<open>Representation\<close>

type_synonym Queues = "(nat \<times> OrderHandle list) list"

definition handles :: "Queues \<Rightarrow> OrderHandle list" where
  "handles hs = concat (map snd hs)"

definition side_rep :: "bool \<Rightarrow> OrderPool \<Rightarrow> PriceLadder \<Rightarrow> Queues \<Rightarrow> bool" where
  "side_rep d p l hs \<longleftrightarrow> ladder_rep l (set (map fst hs)) \<and> sorted_wrt (walk_before d) (map fst hs) \<and>
     (\<forall>x\<in>set hs. level_rep p (lad_levels l ! fst x) (snd x))"

definition level_abs :: "OrderPool \<Rightarrow> PriceLadder \<Rightarrow> nat \<times> OrderHandle list \<Rightarrow> Level" where
  "level_abs p l x = (price_at l (fst x), map (ordr p) (snd x))"

definition side_abs :: "OrderPool \<Rightarrow> PriceLadder \<Rightarrow> Queues \<Rightarrow> Level list" where
  "side_abs p l hs = map (level_abs p l) hs"

definition all_handles :: "(Side \<Rightarrow> Queues) \<Rightarrow> OrderHandle list" where
  "all_handles H = handles (H Buy) @ handles (H Sell)"

definition index_rep :: "FlatHashMap \<Rightarrow> OrderPool \<Rightarrow> OrderHandle set \<Rightarrow> bool" where
  "index_rep ix p L \<longleftrightarrow> (\<exists>M. fhm_rep ix M \<and> (\<forall>oid h. M oid = Some h \<longleftrightarrow> h \<in> L \<and> ord_id (ordr p h) = oid))"

definition band_ok :: "Instrument \<Rightarrow> PriceLadder \<Rightarrow> bool" where
  "band_ok ins l \<longleftrightarrow> lad_min_price l = ladder_base ins \<and> lad_tick l = ins_tick_size ins \<and>
     length (lad_levels l) = tick_count ins"

definition book_rep :: "OrderBook \<Rightarrow> (Side \<Rightarrow> Queues) \<Rightarrow> bool" where
  "book_rep b H \<longleftrightarrow> pool_rep (bk_pool b) (set (all_handles H)) \<and> distinct (all_handles H) \<and>
     (\<forall>s. side_rep (desc s) (bk_pool b) (book_levels s b) (H s)) \<and>
     index_rep (bk_index b) (bk_pool b) (set (all_handles H)) \<and>
     (\<forall>s. band_ok (bk_instrument b) (book_levels s b))"

definition book_abs :: "OrderBook \<Rightarrow> (Side \<Rightarrow> Queues) \<Rightarrow> ABook" where
  "book_abs b H = \<lparr>ab_instrument = bk_instrument b,
     ab_levels = (\<lambda>s. side_abs (bk_pool b) (book_levels s b) (H s)),
     ab_next_trade_id = bk_next_trade_id b\<rparr>"

section \<open>Sides\<close>

lemma handles_simps [simp]:
  "handles [] = []" "handles (x # hs) = snd x @ handles hs" "handles (hs @ ks) = handles hs @ handles ks"
  by (simp_all add: handles_def)

lemma side_abs_simps [simp]:
  "side_abs p l [] = []" "side_abs p l (x # hs) = level_abs p l x # side_abs p l hs"
  "side_abs p l (hs @ ks) = side_abs p l hs @ side_abs p l ks"
  by (simp_all add: side_abs_def)

lemma side_orders_abs: "side_orders (side_abs p l hs) = map (ordr p) (handles hs)"
  by (induction hs) (simp_all add: level_abs_def)

lemma side_abs_frame:
  assumes "\<And>h. h \<in> set (handles hs) \<Longrightarrow> nd p' h = nd p h" and "same_band l l'"
  shows "side_abs p' l' hs = side_abs p l hs"
  using assms(1) same_band_price(1)[OF assms(2)]
  by (induction hs) (auto simp: level_abs_def)

lemma side_rep_levels:
  assumes "\<And>x. x \<in> set hs \<Longrightarrow> level_rep p (lad_levels l ! fst x) (snd x)"
    and "\<And>h. h \<in> set (handles hs) \<Longrightarrow> nd p' h = nd p h" and "x \<in> set hs"
  shows "level_rep p' (lad_levels l ! fst x) (snd x)"
proof (rule level_rep_frame)
  show "level_rep p (lad_levels l ! fst x) (snd x)" by (rule assms(1)[OF assms(3)])
  fix h assume "h \<in> set (snd x)"
  then have "h \<in> set (handles hs)" using assms(3) by (auto simp: handles_def)
  then show "nd p' h = nd p h" by (rule assms(2))
qed

lemma side_rep_frame:
  assumes "side_rep d p l hs" and "\<And>h. h \<in> set (handles hs) \<Longrightarrow> nd p' h = nd p h"
  shows "side_rep d p' l hs"
  using assms side_rep_levels[of hs p l p'] by (simp add: side_rep_def)

lemma side_rep_index:
  assumes "side_rep d p l hs" and "x \<in> set hs"
  shows "fst x < length (lad_levels l)" and "level_get l (fst x) = Some (lad_levels l ! fst x)"
proof -
  show "fst x < length (lad_levels l)"
    using assms by (auto simp: side_rep_def intro: ladder_rep_index)
  then show "level_get l (fst x) = Some (lad_levels l ! fst x)" by (rule level_get_rep)
qed

lemma side_rep_best: "side_rep d p l hs \<Longrightarrow> best_occupied d l = Some (hd_opt (map fst hs))"
  by (simp add: side_rep_def sd.best_hd del: set_map)

lemma side_rep_next:
  assumes "side_rep d p l (xs @ x # ys)"
  shows "next_occupied d l (Some (fst x)) = Some (hd_opt (map fst ys))"
  using assms sd.succ_next[of l "map fst xs" "fst x" "map fst ys" d] by (simp add: side_rep_def)

lemma side_rep_distinct: "side_rep d p l hs \<Longrightarrow> distinct (map fst hs)"
proof -
  assume "side_rep d p l hs"
  then have "sorted_wrt (walk_before d) (map fst hs)" by (simp add: side_rep_def)
  moreover have "\<not> walk_before d i i" for i by (simp add: walk_before_def)
  ultimately show ?thesis by (induction hs) fastforce+
qed

lemma side_rep_empty: "side_rep d p l hs \<Longrightarrow> ladder_empty l \<longleftrightarrow> hs = []"
  by (auto simp: side_rep_def ladder_empty_def ladder_rep_def)

lemma side_rep_size: "side_rep d p l hs \<Longrightarrow> ladder_size l = length hs"
proof -
  assume rep: "side_rep d p l hs"
  then have "lad_occupied l = card (set (map fst hs))" by (simp add: side_rep_def ladder_rep_def)
  also have "\<dots> = length hs" using distinct_card[OF side_rep_distinct[OF rep]] by simp
  finally show ?thesis by (simp add: ladder_size_def)
qed

text \<open>Replacing the queue of one tick.\<close>

lemma side_rep_update:
  assumes rep: "side_rep d p l (xs @ (i, q) # ys)" and lvl: "level_rep p' lvl' q'"
    and fr: "\<And>h. h \<in> set (handles (xs @ ys)) \<Longrightarrow> nd p' h = nd p h"
  shows "\<exists>l'. level_put l i lvl' = Some l' \<and> side_rep d p' l' (xs @ (i, q') # ys) \<and> same_band l l' \<and>
    side_abs p' l' (xs @ (i, q') # ys) =
      side_abs p l xs @ (price_at l i, map (ordr p') q') # side_abs p l ys"
proof -
  let ?l = "l\<lparr>lad_levels := (lad_levels l)[i := lvl']\<rparr>"
  have lr: "ladder_rep l (set (map fst (xs @ (i, q) # ys)))" using rep by (simp add: side_rep_def)
  have i: "i \<in> set (map fst (xs @ (i, q) # ys))" by simp
  note put = level_put_rep[OF lr i, of lvl']
  have il: "i < length (lad_levels l)" by (rule ladder_rep_index[OF lr i])
  have ne: "fst x \<noteq> i" if "x \<in> set (xs @ ys)" for x
    using side_rep_distinct[OF rep] that by force
  have "level_rep p' (lad_levels ?l ! fst x) (snd x)" if "x \<in> set (xs @ ys)" for x
  proof -
    have "level_rep p' (lad_levels l ! fst x) (snd x)"
      using rep fr that by (intro side_rep_levels[of "xs @ ys" p l p']) (auto simp: side_rep_def)
    then show ?thesis using ne[OF that] by simp
  qed
  then have "side_rep d p' ?l (xs @ (i, q') # ys)"
    using rep put(2) lvl il by (auto simp: side_rep_def)
  moreover have "side_abs p' ?l xs = side_abs p l xs" "side_abs p' ?l ys = side_abs p l ys"
    using fr put(3) by (auto intro!: side_abs_frame)
  ultimately show ?thesis using put by (auto simp: level_abs_def same_band_price)
qed

lemma side_rep_erase:
  assumes rep: "side_rep d p l (xs @ (i, []) # ys)"
  shows "\<exists>l'. ladder_erase l (Some i) = Some l' \<and> side_rep d p l' (xs @ ys) \<and> same_band l l' \<and>
    side_abs p l' (xs @ ys) = side_abs p l xs @ side_abs p l ys"
proof -
  have lr: "ladder_rep l (set (map fst (xs @ (i, []) # ys)))" using rep by (simp add: side_rep_def)
  have i: "i \<in> set (map fst (xs @ (i, []) # ys))" by simp
  obtain l' where l': "ladder_erase l (Some i) = Some l'" "ladder_rep l' (set (map fst (xs @ (i, []) # ys)) - {i})"
      "lad_levels l' = (lad_levels l)[i := PriceLevel_default]" "same_band l l'"
    using ladder_erase_rep[OF lr i] by (elim exE conjE) (rule that)
  have ne: "fst x \<noteq> i" if "x \<in> set (xs @ ys)" for x
    using side_rep_distinct[OF rep] that by force
  have "i \<notin> set (map fst (xs @ ys))" using ne by force
  then have "set (map fst (xs @ (i, []) # ys)) - {i} = set (map fst (xs @ ys))" by auto
  moreover have "level_rep p (lad_levels l' ! fst x) (snd x)" if "x \<in> set (xs @ ys)" for x
    using rep that ne[OF that] l'(3) by (auto simp: side_rep_def)
  ultimately have "side_rep d p l' (xs @ ys)"
    using rep l'(2) by (auto simp: side_rep_def sorted_wrt_append)
  moreover have "side_abs p l' (xs @ ys) = side_abs p l (xs @ ys)" using l'(4) by (intro side_abs_frame) auto
  ultimately show ?thesis using l' by auto
qed

text \<open>Opening the level of a price: the queue that is there, or a new empty one in its place.\<close>

lemma walk_before_total: "i \<noteq> j \<Longrightarrow> walk_before d i j \<or> walk_before d j i"
  by (auto simp: walk_before_def)

lemma walk_before_trans: "walk_before d i j \<Longrightarrow> walk_before d j k \<Longrightarrow> walk_before d i k"
  by (auto simp: walk_before_def split: if_splits)

lemma sorted_position:
  "sorted_wrt (walk_before d) (map fst hs) \<Longrightarrow> i \<notin> set (map fst hs) \<Longrightarrow>
   \<exists>xs ys. hs = xs @ ys \<and> sorted_wrt (walk_before d) (map fst (xs @ (i, q) # ys))"
proof (induction hs)
  case Nil
  show ?case by (intro exI[of _ "[]"]) simp
next
  case (Cons x hs)
  show ?case
  proof (cases "walk_before d i (fst x)")
    case True
    then have "sorted_wrt (walk_before d) (map fst ([] @ (i, q) # x # hs))"
      using Cons.prems(1) walk_before_trans[of d i "fst x"] by auto
    then show ?thesis by (metis append_Nil)
  next
    case False
    then have xi: "walk_before d (fst x) i" using Cons.prems(2) walk_before_total[of i "fst x" d] by auto
    obtain xs ys where "hs = xs @ ys" "sorted_wrt (walk_before d) (map fst (xs @ (i, q) # ys))"
      using Cons.IH Cons.prems by auto
    moreover have "sorted_wrt (walk_before d) (map fst ((x # xs) @ (i, q) # ys))"
      using calculation Cons.prems(1) xi by auto
    ultimately show ?thesis by (metis append_Cons)
  qed
qed

lemma side_rep_open:
  assumes rep: "side_rep d p l hs" and i: "index_of l price = Some i"
  shows "\<exists>l' xs q ys. ladder_at l price = Some (i, l') \<and> side_rep d p l' (xs @ (i, q) # ys) \<and> same_band l l' \<and>
    (hs = xs @ (i, q) # ys \<or> (q = [] \<and> hs = xs @ ys \<and> i \<notin> set (map fst hs)))"
proof -
  have lr: "ladder_rep l (set (map fst hs))" using rep by (simp add: side_rep_def)
  obtain l' where l': "ladder_at l price = Some (i, l')" "ladder_rep l' (insert i (set (map fst hs)))"
      "lad_levels l' = lad_levels l" "same_band l l'"
    using ladder_at_rep[OF lr i] by (elim exE conjE) (rule that)
  show ?thesis
  proof (cases "i \<in> set (map fst hs)")
    case True
    then obtain q where "(i, q) \<in> set hs" by auto
    then obtain xs ys where hs: "hs = xs @ (i, q) # ys" by (meson split_list)
    have "side_rep d p l' (xs @ (i, q) # ys)" using rep l'(2,3) True hs by (simp add: side_rep_def insert_absorb)
    then show ?thesis using l'(1,4) hs by blast
  next
    case False
    then obtain xs ys where xy: "hs = xs @ ys" "sorted_wrt (walk_before d) (map fst (xs @ (i, []) # ys))"
      using rep sorted_position[of d hs i "[]"] by (auto simp: side_rep_def)
    have il: "i < length (lad_levels l)" using i index_of_iff[OF lr] by simp
    then have "lad_levels l ! i = PriceLevel_default" using lr False by (simp add: ladder_rep_def)
    then have "level_rep p (lad_levels l' ! i) []" using l'(3) level_rep_default by simp
    then have "side_rep d p l' (xs @ (i, []) # ys)"
      using rep l'(2,3) xy by (auto simp: side_rep_def)
    then show ?thesis using l'(1,4) xy False by blast
  qed
qed

section \<open>Changing one side of the book\<close>

lemma all_handles_side:
  "set (all_handles H) = set (handles (H s)) \<union> set (handles (H (opposite s)))"
  "distinct (all_handles H) \<longleftrightarrow> distinct (handles (H s) @ handles (H (opposite s)))"
  by (cases s; auto simp: all_handles_def)+

lemma band_ok_same: "band_ok ins l \<Longrightarrow> same_band l l' \<Longrightarrow> band_ok ins l'"
  by (simp add: band_ok_def same_band_def)

lemma set_side_abs:
  assumes "bk_instrument b' = bk_instrument b" and "bk_next_trade_id b' = bk_next_trade_id b"
    and "side_abs (bk_pool b') (book_levels (opposite s) b') (H (opposite s)) =
         side_abs (bk_pool b) (book_levels (opposite s) b) (H (opposite s))"
  shows "book_abs b' (H(s := hs)) =
    set_side s (book_abs b H) (side_abs (bk_pool b') (book_levels s b') hs)"
proof -
  have "(\<lambda>t. side_abs (bk_pool b') (book_levels t b') ((H(s := hs)) t)) =
      (\<lambda>t. side_abs (bk_pool b) (book_levels t b) (H t))
        (s := side_abs (bk_pool b') (book_levels s b') hs)"
  proof
    fix t
    consider "t = s" | "t = opposite s" by (metis Side.exhaust opposite.simps)
    then show "side_abs (bk_pool b') (book_levels t b') ((H(s := hs)) t) =
        ((\<lambda>t. side_abs (bk_pool b) (book_levels t b) (H t))
          (s := side_abs (bk_pool b') (book_levels s b') hs)) t"
      using assms(3) by cases auto
  qed
  then show ?thesis using assms(1,2) by (simp add: book_abs_def set_side_def)
qed

lemma book_rep_update:
  assumes rep: "book_rep b H" and side: "side_rep (desc s) (bk_pool b') (book_levels s b') hs"
    and band: "same_band (book_levels s b) (book_levels s b')"
    and other: "book_levels (opposite s) b' = book_levels (opposite s) b" "bk_instrument b' = bk_instrument b"
      "bk_next_trade_id b' = bk_next_trade_id b"
    and fr: "\<And>h. h \<in> set (handles (H (opposite s))) \<Longrightarrow> nd (bk_pool b') h = nd (bk_pool b) h"
    and dist: "distinct (handles hs @ handles (H (opposite s)))"
    and pool: "pool_rep (bk_pool b') (set (handles hs) \<union> set (handles (H (opposite s))))"
    and index: "index_rep (bk_index b') (bk_pool b') (set (handles hs) \<union> set (handles (H (opposite s))))"
  shows "book_rep b' (H(s := hs))"
    and "book_abs b' (H(s := hs)) = set_side s (book_abs b H) (side_abs (bk_pool b') (book_levels s b') hs)"
proof -
  let ?H = "H(s := hs)"
  have ne: "opposite s \<noteq> s" by simp
  have L: "set (all_handles ?H) = set (handles hs) \<union> set (handles (H (opposite s)))"
    "distinct (all_handles ?H)"
    using dist unfolding all_handles_side[of ?H s] by (simp_all add: ne)
  have os: "side_rep (desc (opposite s)) (bk_pool b') (book_levels (opposite s) b') (H (opposite s))"
    using rep fr side_rep_frame[of "desc (opposite s)" "bk_pool b"] other(1) by (simp add: book_rep_def)
  have "side_rep (desc t) (bk_pool b') (book_levels t b') (?H t)" for t
  proof -
    consider "t = s" | "t = opposite s" by (metis Side.exhaust opposite.simps)
    then show ?thesis using side os by cases auto
  qed
  moreover have "band_ok (bk_instrument b') (book_levels t b')" for t
  proof -
    consider "t = s" | "t = opposite s" by (metis Side.exhaust opposite.simps)
    moreover have "band_ok (bk_instrument b) (book_levels s b')"
      using rep band band_ok_same[of "bk_instrument b" "book_levels s b"] by (simp add: book_rep_def)
    ultimately show ?thesis using rep other by cases (auto simp: book_rep_def)
  qed
  ultimately show "book_rep b' ?H" using L pool index by (simp add: book_rep_def)
  have "side_abs (bk_pool b') (book_levels (opposite s) b') (H (opposite s)) =
      side_abs (bk_pool b) (book_levels (opposite s) b) (H (opposite s))"
    using fr other(1) by (intro side_abs_frame) auto
  then show "book_abs b' ?H = set_side s (book_abs b H) (side_abs (bk_pool b') (book_levels s b') hs)"
    using other(2,3) by (intro set_side_abs)
qed

lemma index_rep_frame:
  assumes "index_rep ix p L" and "\<And>h. h \<in> L \<Longrightarrow> ord_id (ordr p' h) = ord_id (ordr p h)"
  shows "index_rep ix p' L"
  using assms unfolding index_rep_def by (elim exE) (rule exI, auto)

lemma book_rep_side: "book_rep b H \<Longrightarrow> side_rep (desc s) (bk_pool b) (book_levels s b) (H s)"
  by (simp add: book_rep_def)

lemma book_rep_live:
  assumes "book_rep b H" and "h \<in> set (handles (H s))"
  shows "h \<in> set (all_handles H)" and "pool_order (bk_pool b) h = Some (ordr (bk_pool b) h)"
    and "pool_node (bk_pool b) h = Some (nd (bk_pool b) h)"
proof -
  show "h \<in> set (all_handles H)" using assms(2) by (simp add: all_handles_side(1)[of H s])
  then show "pool_order (bk_pool b) h = Some (ordr (bk_pool b) h)" "pool_node (bk_pool b) h = Some (nd (bk_pool b) h)"
    using assms(1) pool_order_live pool_node_live by (auto simp: book_rep_def)
qed

section \<open>Shrinking and dropping a resting order\<close>

text \<open>\<open>at_tick p l xs i q ys\<close>: the abstract side whose tick \<open>i\<close> holds the orders \<open>q\<close>.\<close>

definition at_tick :: "OrderPool \<Rightarrow> PriceLadder \<Rightarrow> Queues \<Rightarrow> nat \<Rightarrow> Order list \<Rightarrow> Queues \<Rightarrow> Level list" where
  "at_tick p l xs i q ys = side_abs p l xs @ (price_at l i, q) # side_abs p l ys"

lemma shrink_resting_rep:
  assumes rep: "book_rep b H" and Hs: "H s = xs @ (i, as @ h # bs) # ys"
    and q: "q \<le> ord_remaining (ordr (bk_pool b) h)"
    and ord': "ord_remaining ord' = ord_remaining (ordr (bk_pool b) h) - q" "ord_id ord' = ord_id (ordr (bk_pool b) h)"
  shows "\<exists>b'. do { b1 \<leftarrow> set_resting h ord' b; reduce_level s i q b1 } = Some b' \<and>
    do { b1 \<leftarrow> reduce_level s i q b; set_resting h ord' b1 } = Some b' \<and> book_rep b' H \<and>
    ordr (bk_pool b') h = ord' \<and> bk_instrument b' = bk_instrument b \<and> bk_next_trade_id b' = bk_next_trade_id b \<and>
    book_abs b' H = set_side s (book_abs b H) (at_tick (bk_pool b) (book_levels s b) xs i
      (map (ordr (bk_pool b)) as @ ord' # map (ordr (bk_pool b)) bs) ys)"
proof -
  let ?p = "bk_pool b" and ?l = "book_levels s b"
  have side: "side_rep (desc s) ?p ?l (xs @ (i, as @ h # bs) # ys)" using book_rep_side[OF rep, of s] Hs by simp
  have lvl: "level_rep ?p (lad_levels ?l ! i) (as @ h # bs)" using side by (simp add: side_rep_def)
  have pr: "pool_rep ?p (set (all_handles H))" and dist: "distinct (handles (H s) @ handles (H (opposite s)))"
    using rep unfolding book_rep_def all_handles_side(2)[of H s] by auto
  have sub: "set (as @ h # bs) \<subseteq> set (all_handles H)" by (auto simp: all_handles_side(1)[of H s] Hs)
  obtain p' lvl' where sh: "pool_set_order ?p h ord' = Some p'" "level_reduce (lad_levels ?l ! i) q = Some lvl'"
      "pool_rep p' (set (all_handles H))" "level_rep p' lvl' (as @ h # bs)" "ordr p' h = ord'"
      "\<forall>k. k \<noteq> h \<longrightarrow> nd p' k = nd ?p k"
    using level_shrink_rep[OF pr lvl sub q ord'(1)] by (elim exE conjE) (rule that)
  have hn: "h \<notin> set (handles (xs @ ys))" "h \<notin> set (handles (H (opposite s)))" "h \<notin> set as" "h \<notin> set bs"
    using dist Hs by auto
  have "nd p' k = nd ?p k" if "k \<in> set (handles (xs @ ys))" for k using that hn(1) sh(6) by metis
  then obtain l' where l': "level_put ?l i lvl' = Some l'" "side_rep (desc s) p' l' (xs @ (i, as @ h # bs) # ys)"
      "same_band ?l l'" "side_abs p' l' (xs @ (i, as @ h # bs) # ys) =
        side_abs ?p ?l xs @ (price_at ?l i, map (ordr p') (as @ h # bs)) # side_abs ?p ?l ys"
    using side_rep_update[OF side sh(4)] by blast
  have "fst (i, as @ h # bs) < length (lad_levels ?l)" by (rule side_rep_index(1)[OF side]) simp
  then have gl: "level_get ?l i = Some (lad_levels ?l ! i)" by (simp add: level_get_rep)
  let ?b = "(set_book_levels s b l')\<lparr>bk_pool := p'\<rparr>"
  have eq: "do { b1 \<leftarrow> set_resting h ord' b; reduce_level s i q b1 } = Some ?b"
    "do { b1 \<leftarrow> reduce_level s i q b; set_resting h ord' b1 } = Some ?b"
    using sh(1,2) gl l'(1) by (cases s; simp add: set_resting_def reduce_level_def set_book_levels_def book_levels_def)+
  have HH: "H(s := xs @ (i, as @ h # bs) # ys) = H" using Hs by auto
  have L: "set (handles (xs @ (i, as @ h # bs) # ys)) \<union> set (handles (H (opposite s))) = set (all_handles H)"
    unfolding all_handles_side(1)[of H s] Hs ..
  have "ord_id (ordr p' k) = ord_id (ordr ?p k)" for k using sh(5,6) ord'(2) by (cases "k = h") auto
  then have ix: "index_rep (bk_index b) p' (set (all_handles H))"
    using rep index_rep_frame[of "bk_index b" ?p "set (all_handles H)" p'] by (simp add: book_rep_def)
  note up = book_rep_update[OF rep, of s ?b "xs @ (i, as @ h # bs) # ys", unfolded HH]
  have fr: "nd p' k = nd ?p k" if "k \<in> set (handles (H (opposite s)))" for k using that hn(2) sh(6) by metis
  have mapeq: "map (ordr p') (as @ h # bs) = map (ordr ?p) as @ ord' # map (ordr ?p) bs"
    using sh(5,6) hn(3,4) by (auto intro!: map_cong)
  have up': "book_rep ?b H" "book_abs ?b H = set_side s (book_abs b H) (side_abs p' l' (xs @ (i, as @ h # bs) # ys))"
    using up l'(2,3) fr dist sh(3) ix L Hs by simp_all
  have "book_abs ?b H = set_side s (book_abs b H) (at_tick ?p ?l xs i (map (ordr ?p) as @ ord' # map (ordr ?p) bs) ys)"
    unfolding up'(2) l'(4) mapeq at_tick_def ..
  then show ?thesis using eq up'(1) sh(5) by (intro exI[of _ ?b]) simp
qed

lemma drop_resting_rep:
  assumes rep: "book_rep b H" and Hs: "H s = xs @ (i, as @ h # bs) # ys"
  shows "\<exists>b'. drop_resting s i h b = Some b' \<and> book_rep b' (H(s := xs @ (i, as @ bs) # ys)) \<and>
    bk_instrument b' = bk_instrument b \<and> bk_next_trade_id b' = bk_next_trade_id b \<and>
    (\<forall>k\<in>set (all_handles H) - {h}. ordr (bk_pool b') k = ordr (bk_pool b) k) \<and>
    same_band (book_levels s b) (book_levels s b') \<and>
    book_abs b' (H(s := xs @ (i, as @ bs) # ys)) = set_side s (book_abs b H)
      (at_tick (bk_pool b) (book_levels s b) xs i (map (ordr (bk_pool b)) (as @ bs)) ys)"
proof -
  let ?p = "bk_pool b" and ?l = "book_levels s b" and ?L = "set (all_handles H)"
  have side: "side_rep (desc s) ?p ?l (xs @ (i, as @ h # bs) # ys)" using book_rep_side[OF rep, of s] Hs by simp
  have lvl: "level_rep ?p (lad_levels ?l ! i) (as @ h # bs)" using side by (simp add: side_rep_def)
  have pr: "pool_rep ?p ?L" and dist: "distinct (handles (H s) @ handles (H (opposite s)))"
    using rep unfolding book_rep_def all_handles_side(2)[of H s] by auto
  have sub: "set (as @ h # bs) \<subseteq> ?L" by (auto simp: all_handles_side(1)[of H s] Hs)
  have hL: "h \<in> ?L" using sub by simp
  obtain p1 lvl' where un: "unlink ?p (lad_levels ?l ! i) h = Some (p1, lvl')" "pool_rep p1 ?L"
      "level_rep p1 lvl' (as @ bs)" "\<forall>k. ordr p1 k = ordr ?p k" "\<forall>k. k \<notin> set (as @ h # bs) \<longrightarrow> nd p1 k = nd ?p k"
    using unlink_rep[OF pr lvl sub] by (elim exE conjE) (rule that)
  obtain p2 where re: "release p1 h = Some p2" "pool_rep p2 (?L - {h})" "\<forall>k\<in>?L - {h}. nd p2 k = nd p1 k"
    using release_live[OF un(2) hL] by (elim exE conjE) (rule that)
  have L': "?L - {h} = set (handles (xs @ (i, as @ bs) # ys)) \<union> set (handles (H (opposite s)))"
    using dist Hs unfolding all_handles_side(1)[of H s] by auto
  have lvl2: "level_rep p2 lvl' (as @ bs)"
    by (rule level_rep_frame[OF un(3)]) (use re(3) L' in auto)
  have ord2: "ordr p2 k = ordr ?p k" if "k \<in> ?L - {h}" for k using re(3) un(4) that by simp
  have nd2: "nd p2 k = nd ?p k" if "k \<in> ?L - {h}" "k \<notin> set (as @ bs)" for k using re(3) un(5) that by auto
  have "nd p2 k = nd ?p k" if "k \<in> set (handles (xs @ ys))" for k
    using that dist Hs L' by (intro nd2) auto
  then obtain l' where l': "level_put ?l i lvl' = Some l'" "side_rep (desc s) p2 l' (xs @ (i, as @ bs) # ys)"
      "same_band ?l l'" "side_abs p2 l' (xs @ (i, as @ bs) # ys) =
        side_abs ?p ?l xs @ (price_at ?l i, map (ordr p2) (as @ bs)) # side_abs ?p ?l ys"
    using side_rep_update[OF side lvl2] by blast
  have "fst (i, as @ h # bs) < length (lad_levels ?l)" by (rule side_rep_index(1)[OF side]) simp
  then have gl: "level_get ?l i = Some (lad_levels ?l ! i)" by (simp add: level_get_rep)
  obtain M where M: "fhm_rep (bk_index b) M" "\<And>oid k. M oid = Some k \<longleftrightarrow> k \<in> ?L \<and> ord_id (ordr ?p k) = oid"
    using rep unfolding book_rep_def index_rep_def by blast
  let ?id = "ord_id (ordr ?p h)"
  obtain ix' where ix': "fhm_erase (bk_index b) ?id = Some (M ?id \<noteq> None, ix')" "fhm_rep ix' (M(?id := None))"
    using fhm_erase_rep[OF M(1)] by blast
  have inj: "k = h" if "k \<in> ?L" "ord_id (ordr ?p k) = ?id" for k
    using M(2)[of ?id k] M(2)[of ?id h] that hL by simp
  have "(M(?id := None)) oid = Some k \<longleftrightarrow> k \<in> ?L - {h} \<and> ord_id (ordr p2 k) = oid" for oid k
    using M(2)[of oid k] inj[of k] ord2[of k] by (cases "k = h") auto
  then have ixr: "index_rep ix' p2 (?L - {h})" using ix'(2) unfolding index_rep_def by blast
  let ?b = "(set_book_levels s b l')\<lparr>bk_pool := p2, bk_index := ix'\<rparr>"
  have eq: "drop_resting s i h b = Some ?b"
    using un(1) re(1) l'(1) gl ix'(1) pool_order_live[OF pr hL] by (simp add: drop_resting_def)
  have lv: "book_levels s ?b = l'" "book_levels (opposite s) ?b = book_levels (opposite s) b"
    by (cases s; simp add: book_levels_def set_book_levels_def)+
  have fr: "nd p2 k = nd ?p k" if "k \<in> set (handles (H (opposite s)))" for k
    using that dist Hs L' by (intro nd2) auto
  have dist': "distinct (handles (xs @ (i, as @ bs) # ys) @ handles (H (opposite s)))" using dist Hs by auto
  have up: "book_rep ?b (H(s := xs @ (i, as @ bs) # ys))"
    "book_abs ?b (H(s := xs @ (i, as @ bs) # ys)) = set_side s (book_abs b H) (side_abs p2 l' (xs @ (i, as @ bs) # ys))"
    using book_rep_update[OF rep, of s ?b "xs @ (i, as @ bs) # ys"] l'(2,3) lv fr dist' re(2) ixr L' by simp_all
  have mapeq: "map (ordr p2) (as @ bs) = map (ordr ?p) (as @ bs)" using ord2 L' by auto
  have "book_abs ?b (H(s := xs @ (i, as @ bs) # ys)) =
      set_side s (book_abs b H) (at_tick ?p ?l xs i (map (ordr ?p) (as @ bs)) ys)"
    unfolding up(2) l'(4) mapeq at_tick_def ..
  then show ?thesis using eq up(1) ord2 l'(3) lv(1) by (intro exI[of _ ?b]) simp
qed

end
