(* ===== verification/Book_Match_Refinement.thy ===== *)
theory Book_Match_Refinement
  imports Book_Refinement
begin

text \<open>
  The matching loop of the code against the specification: one round of the inner loop, the whole
  of a level, the whole of a side.
\<close>

section \<open>Reading the abstract book\<close>

lemma set_side_twice [simp]: "set_side s (set_side s A ls) ms = set_side s A ms"
  by (simp add: set_side_def)

lemma set_side_next [simp]:
  "set_side s (A\<lparr>ab_next_trade_id := n\<rparr>) ls = (set_side s A ls)\<lparr>ab_next_trade_id := n\<rparr>"
  by (simp add: set_side_def)

lemma set_side_same [simp]: "set_side s A (ab_levels A s) = A"
  by (simp add: set_side_def)

lemma book_abs_levels: "ab_levels (book_abs b H) s = side_abs (bk_pool b) (book_levels s b) (H s)"
  by (simp add: book_abs_def)

lemma book_abs_fields [simp]:
  "ab_instrument (book_abs b H) = bk_instrument b" "ab_next_trade_id (book_abs b H) = bk_next_trade_id b"
  by (simp_all add: book_abs_def)

lemma book_rep_next [simp]: "book_rep (b\<lparr>bk_next_trade_id := n\<rparr>) H \<longleftrightarrow> book_rep b H"
  by (simp add: book_rep_def)

lemma book_abs_next [simp]: "book_abs (b\<lparr>bk_next_trade_id := n\<rparr>) H = (book_abs b H)\<lparr>ab_next_trade_id := n\<rparr>"
  by (simp add: book_abs_def)

lemma abs_at_tick:
  assumes abs: "ab_levels (book_abs b' H') s = at_tick p l xs i q ys"
    and H': "H' s = xs @ (i, k) # ys"
  shows "at_tick (bk_pool b') (book_levels s b') xs i Q ys = at_tick p l xs i Q ys"
    and "map (ordr (bk_pool b')) k = q" and "price_at (book_levels s b') i = price_at l i"
    and "side_abs (bk_pool b') (book_levels s b') ys = side_abs p l ys"
proof -
  have "side_abs (bk_pool b') (book_levels s b') (xs @ (i, k) # ys) = at_tick p l xs i q ys"
    using abs H' by (simp add: book_abs_levels)
  then have "side_abs (bk_pool b') (book_levels s b') xs = side_abs p l xs \<and>
      level_abs (bk_pool b') (book_levels s b') (i, k) = (price_at l i, q) \<and>
      side_abs (bk_pool b') (book_levels s b') ys = side_abs p l ys"
    by (simp add: at_tick_def side_abs_def append_eq_append_conv)
  then show "at_tick (bk_pool b') (book_levels s b') xs i Q ys = at_tick p l xs i Q ys"
    "map (ordr (bk_pool b')) k = q" "price_at (book_levels s b') i = price_at l i"
    "side_abs (bk_pool b') (book_levels s b') ys = side_abs p l ys"
    by (simp_all add: at_tick_def level_abs_def)
qed

section \<open>One round\<close>

definition opt_list :: "'a option \<Rightarrow> 'a list" where
  "opt_list r = (case r of None \<Rightarrow> [] | Some x \<Rightarrow> [x])"

lemma opt_list_simps [simp]: "opt_list None = []" "opt_list (Some x) = [x]"
  by (simp_all add: opt_list_def)

text \<open>What a round leaves behind, whatever the meeting was.\<close>

definition round_post ::
    "Side \<Rightarrow> nat \<Rightarrow> Queues \<Rightarrow> OrderHandle \<Rightarrow> OrderHandle list \<Rightarrow> OrderBook \<Rightarrow> (Side \<Rightarrow> Queues) \<Rightarrow>
     Order option \<Rightarrow> u64 \<Rightarrow> OrderBook \<Rightarrow> bool" where
  "round_post s i ys h hs b H r' tid' b' \<longleftrightarrow> (let q' = (if r' = None then hs else h # hs) in
     book_rep b' (H(s := (i, q') # ys)) \<and> bk_instrument b' = bk_instrument b \<and>
     book_abs b' (H(s := (i, q') # ys)) = (set_side s (book_abs b H)
       (at_tick (bk_pool b) (book_levels s b) [] i (opt_list r' @ map (ordr (bk_pool b)) hs) ys))
       \<lparr>ab_next_trade_id := tid'\<rparr>)"

text \<open>Shrinking the first order of the first level and dropping it when nothing is left.\<close>

lemma shrink_round:
  assumes rep: "book_rep b H" and Hs: "H s = (i, h # hs) # ys"
    and q: "q \<le> ord_remaining (ordr (bk_pool b) h)"
    and x: "ord_remaining x = ord_remaining (ordr (bk_pool b) h) - q" "ord_id x = ord_id (ordr (bk_pool b) h)"
  shows "\<exists>b2 b'. do { b1 \<leftarrow> set_resting h x b; reduce_level s i q b1 } = Some b2 \<and>
    bk_next_trade_id b2 = bk_next_trade_id b \<and>
    (if ord_remaining x = 0 then drop_resting s i h (b2\<lparr>bk_next_trade_id := n\<rparr>)
     else Some (b2\<lparr>bk_next_trade_id := n\<rparr>)) = Some b' \<and>
    round_post s i ys h hs b H (if ord_remaining x = 0 then None else Some x) n b'"
proof -
  obtain b2 where b2: "do { b1 \<leftarrow> set_resting h x b; reduce_level s i q b1 } = Some b2" "book_rep b2 H"
      "bk_instrument b2 = bk_instrument b" "bk_next_trade_id b2 = bk_next_trade_id b"
      "book_abs b2 H = set_side s (book_abs b H) (at_tick (bk_pool b) (book_levels s b) [] i
        (x # map (ordr (bk_pool b)) hs) ys)"
    using shrink_resting_rep[OF rep, of s "[]" i "[]" h hs ys q x] Hs q x by auto
  let ?b3 = "b2\<lparr>bk_next_trade_id := n\<rparr>"
  have HH: "H(s := (i, h # hs) # ys) = H" using Hs by auto
  show ?thesis
  proof (cases "ord_remaining x = 0")
    case False
    then have "round_post s i ys h hs b H (Some x) n ?b3" using b2(2-5) by (simp add: round_post_def HH)
    then show ?thesis using b2(1,4) False by auto
  next
    case True
    obtain b4 where b4: "drop_resting s i h ?b3 = Some b4" "book_rep b4 (H(s := (i, hs) # ys))"
        "bk_instrument b4 = bk_instrument b"
        "book_abs b4 (H(s := (i, hs) # ys)) = (set_side s (book_abs b2 H)
          (at_tick (bk_pool b2) (book_levels s b2) [] i (map (ordr (bk_pool b2)) hs) ys))\<lparr>ab_next_trade_id := n\<rparr>"
      using drop_resting_rep[of ?b3 H s "[]" i "[]" h hs ys] b2(2,3) Hs by auto
    have lv: "ab_levels (book_abs b2 H) s = at_tick (bk_pool b) (book_levels s b) [] i
        (x # map (ordr (bk_pool b)) hs) ys" by (simp add: b2(5))
    have Hs': "H s = [] @ (i, h # hs) # ys" using Hs by simp
    note t = abs_at_tick(1,2)[OF lv Hs']
    have hs: "map (ordr (bk_pool b2)) hs = map (ordr (bk_pool b)) hs" using t(2) by simp
    have "round_post s i ys h hs b H None n b4" using b4(2-4) unfolding round_post_def b2(5) t(1) hs by simp
    then show ?thesis using b2(1,4) b4(1) True by (intro exI[of _ b2] exI conjI) simp_all
  qed
qed

lemma abs_unchanged:
  assumes "H s = (i, hs) # ys"
  shows "H(s := (i, hs) # ys) = H"
    and "(set_side s (book_abs b H) (at_tick (bk_pool b) (book_levels s b) [] i (map (ordr (bk_pool b)) hs) ys))
      \<lparr>ab_next_trade_id := bk_next_trade_id b\<rparr> = book_abs b H"
proof -
  have eq: "at_tick (bk_pool b) (book_levels s b) [] i (map (ordr (bk_pool b)) hs) ys = ab_levels (book_abs b H) s"
    using assms by (simp add: at_tick_def book_abs_levels level_abs_def)
  show "(set_side s (book_abs b H) (at_tick (bk_pool b) (book_levels s b) [] i (map (ordr (bk_pool b)) hs) ys))
      \<lparr>ab_next_trade_id := bk_next_trade_id b\<rparr> = book_abs b H"
    unfolding eq set_side_same by (simp add: book_abs_def)
qed (use assms in auto)

lemma front_rep:
  assumes rep: "book_rep b H" and Hs: "H s = (i, q) # ys"
  shows "\<exists>lvl. level_get (book_levels s b) i = Some lvl \<and> (level_empty lvl \<longleftrightarrow> q = []) \<and>
    (q \<noteq> [] \<longrightarrow> level_front lvl = hd q)"
proof -
  have side: "side_rep (desc s) (bk_pool b) (book_levels s b) ((i, q) # ys)" using book_rep_side[OF rep, of s] Hs by simp
  have "level_get (book_levels s b) (fst (i, q)) = Some (lad_levels (book_levels s b) ! fst (i, q))"
    by (rule side_rep_index(2)[OF side]) simp
  moreover have "level_rep (bk_pool b) (lad_levels (book_levels s b) ! i) q" using side by (simp add: side_rep_def)
  moreover have "kNullHandle \<notin> set q"
    using rep pool_rep_notnull[of "bk_pool b" "set (all_handles H)"] Hs
    by (auto simp: book_rep_def all_handles_side(1)[of H s])
  ultimately show ?thesis using level_rep_front level_rep_empty by auto
qed

lemma round_post_same:
  assumes "book_rep b H" and "H s = (i, h # hs) # ys"
  shows "round_post s i ys h hs b H (Some (ordr (bk_pool b) h)) (bk_next_trade_id b) b"
  using abs_unchanged(1)[of H s i "h # hs" ys] abs_unchanged(2)[of H s i "h # hs" ys b] assms by (simp add: round_post_def del: fun_upd_apply)

lemma round_post_dropped:
  assumes "book_rep b H" and "H s = (i, h # hs) # ys"
  shows "\<exists>b'. drop_resting s i h b = Some b' \<and> round_post s i ys h hs b H None (bk_next_trade_id b) b'"
proof -
  obtain b' where b': "drop_resting s i h b = Some b'" "book_rep b' (H(s := (i, hs) # ys))"
      "bk_instrument b' = bk_instrument b"
      "book_abs b' (H(s := (i, hs) # ys)) = set_side s (book_abs b H)
        (at_tick (bk_pool b) (book_levels s b) [] i (map (ordr (bk_pool b)) hs) ys)"
    using drop_resting_rep[of b H s "[]" i "[]" h hs ys] assms by auto
  then have "round_post s i ys h hs b H None (bk_next_trade_id b) b'"
    by (simp add: round_post_def set_side_def)
  then show ?thesis using b'(1) by blast
qed

lemma match_trade_rep:
  assumes rep: "book_rep b H" and Hs: "H s = (i, h # hs) # ys"
    and one: "a_trade (bk_instrument b) price (ordr (bk_pool b) h) (bk_next_trade_id b, ou) = (again, r', tid', ou')"
  shows "\<exists>b'. match_trade s i price h (b, ou) = Some (again, b', ou') \<and> round_post s i ys h hs b H r' tid' b'"
proof -
  let ?r = "ordr (bk_pool b) h"
  define q where "q = min (in_remaining ou) (ord_remaining ?r)"
  define x where "x = ?r\<lparr>ord_remaining := ord_remaining ?r - q\<rparr>"
  have "q \<le> ord_remaining ?r" "ord_remaining x = ord_remaining ?r - q" "ord_id x = ord_id ?r"
    by (simp_all add: q_def x_def)
  from shrink_round[OF rep Hs this, of "bk_next_trade_id b + 1"] obtain b1 b2 b' where
    b: "set_resting h x b = Some b1" "reduce_level s i q b1 = Some b2" "bk_next_trade_id b2 = bk_next_trade_id b"
      "(if ord_remaining x = 0 then drop_resting s i h (b2\<lparr>bk_next_trade_id := bk_next_trade_id b + 1\<rparr>)
        else Some (b2\<lparr>bk_next_trade_id := bk_next_trade_id b + 1\<rparr>)) = Some b'"
      "round_post s i ys h hs b H (if ord_remaining x = 0 then None else Some x) (bk_next_trade_id b + 1) b'"
    by (auto simp: bind_eq_Some_conv)
  have po: "pool_order (bk_pool b) h = Some ?r" by (rule book_rep_live(2)[OF rep, of h s]) (simp add: Hs)
  have eq: "again" "r' = (if ord_remaining x = 0 then None else Some x)" "tid' = bk_next_trade_id b + 1"
    "ou' = ou\<lparr>out_incoming := (out_incoming ou)\<lparr>ord_remaining := in_remaining ou - q\<rparr>,
       out_fills := out_fills ou @ [make_fill (bk_instrument b) (bk_next_trade_id b) price q
         ((out_incoming ou)\<lparr>ord_remaining := in_remaining ou - q\<rparr>) x (ord_remaining x = 0)]\<rparr>"
    using one unfolding a_trade_def Let_def prod.case q_def[symmetric] x_def[symmetric] by auto
  have "match_trade s i price h (b, ou) = Some (True, b', ou')"
    using b(1-4) unfolding match_trade_def Let_def prod.case po bind.bind_lunit q_def[symmetric] x_def[symmetric] eq(4)
    by (auto split: if_splits)
  then show ?thesis using b(5) eq by auto
qed

lemma match_decrement_rep:
  assumes rep: "book_rep b H" and Hs: "H s = (i, h # hs) # ys"
    and one: "a_decrement (bk_instrument b) (ordr (bk_pool b) h) (bk_next_trade_id b, ou) = (again, r', tid', ou')"
  shows "\<exists>b'. match_decrement s i h (b, ou) = Some (again, b', ou') \<and> round_post s i ys h hs b H r' tid' b'"
proof -
  let ?r = "ordr (bk_pool b) h"
  define q where "q = min (in_remaining ou) (ord_remaining ?r)"
  define x where "x = ?r\<lparr>ord_remaining := ord_remaining ?r - q, ord_quantity := ord_quantity ?r - q\<rparr>"
  have "q \<le> ord_remaining ?r" "ord_remaining x = ord_remaining ?r - q" "ord_id x = ord_id ?r"
    by (simp_all add: q_def x_def)
  from shrink_round[OF rep Hs this, of "bk_next_trade_id b"] obtain b1 b2 b' where
    b: "set_resting h x b = Some b1" "reduce_level s i q b1 = Some b2" "bk_next_trade_id b2 = bk_next_trade_id b"
      "(if ord_remaining x = 0 then drop_resting s i h (b2\<lparr>bk_next_trade_id := bk_next_trade_id b\<rparr>)
        else Some (b2\<lparr>bk_next_trade_id := bk_next_trade_id b\<rparr>)) = Some b'"
      "round_post s i ys h hs b H (if ord_remaining x = 0 then None else Some x) (bk_next_trade_id b) b'"
    by (auto simp: bind_eq_Some_conv)
  have b2: "b2\<lparr>bk_next_trade_id := bk_next_trade_id b\<rparr> = b2" using b(3) by simp
  have po: "pool_order (bk_pool b) h = Some ?r" by (rule book_rep_live(2)[OF rep, of h s]) (simp add: Hs)
  have eq: "again" "r' = (if ord_remaining x = 0 then None else Some x)" "tid' = bk_next_trade_id b"
    "ou' = record_withdrawal (bk_instrument b) x q (ord_remaining x = 0)
       (ou\<lparr>out_incoming := (out_incoming ou)\<lparr>ord_remaining := in_remaining ou - q,
          ord_quantity := ord_quantity (out_incoming ou) - q\<rparr>, out_stp_cancelled := out_stp_cancelled ou + q\<rparr>)"
    using one unfolding a_decrement_def Let_def prod.case q_def[symmetric] x_def[symmetric] by auto
  have "match_decrement s i h (b, ou) = Some (True, b', ou')"
    using b(1,2,4) unfolding match_decrement_def Let_def prod.case po bind.bind_lunit q_def[symmetric]
      x_def[symmetric] eq(4) b2 by (auto split: if_splits)
  then show ?thesis using b(5) eq by auto
qed

lemma match_one_rep:
  assumes rep: "book_rep b H" and Hs: "H s = (i, h # hs) # ys"
    and one: "a_match_one (bk_instrument b) price (ordr (bk_pool b) h) (bk_next_trade_id b, ou) = (again, r', tid', ou')"
  shows "\<exists>b'. match_one s i price (b, ou) = Some (again, b', ou') \<and> round_post s i ys h hs b H r' tid' b'"
proof -
  let ?r = "ordr (bk_pool b) h" and ?ins = "bk_instrument b"
  obtain lvl where lvl: "level_get (book_levels s b) i = Some lvl" "level_front lvl = h"
    using front_rep[OF rep Hs] by auto
  have po: "pool_order (bk_pool b) h = Some ?r" by (rule book_rep_live(2)[OF rep, of h s]) (simp add: Hs)
  have mo: "match_one s i price (b, ou) = (case meeting ?ins ?r ou of
      Traded \<Rightarrow> match_trade s i price h (b, ou)
    | Decremented \<Rightarrow> match_decrement s i h (b, ou)
    | TookAside \<Rightarrow> do { b' \<leftarrow> drop_resting s i h b;
        Some (True, b', record_withdrawal ?ins ?r (ord_remaining ?r) True ou) }
    | StoppedBy \<Rightarrow> Some (False, b, cancel_incoming ou)
    | StoppedAndTook \<Rightarrow> do { b' \<leftarrow> drop_resting s i h b;
        Some (False, b', record_withdrawal ?ins ?r (ord_remaining ?r) True (cancel_incoming ou)) })"
    using lvl po by (simp add: match_one_def meeting_def prevention_active_def Let_def split: SelfTradePolicy.splits)
  note one' = one[unfolded a_match_one_meeting]
  obtain b1 where b1: "drop_resting s i h b = Some b1" "round_post s i ys h hs b H None (bk_next_trade_id b) b1"
    using round_post_dropped[OF rep Hs] by blast
  show ?thesis
  proof (cases "meeting ?ins ?r ou")
    case Traded
    then show ?thesis using match_trade_rep[OF rep Hs] one' mo by simp
  next
    case Decremented
    then show ?thesis using match_decrement_rep[OF rep Hs] one' mo by simp
  next
    case StoppedBy
    then show ?thesis using round_post_same[OF rep Hs] one' mo by auto
  qed (use b1 one' mo in auto)
qed

section \<open>A level\<close>

text \<open>What is left when the first level has been walked.\<close>

definition level_post ::
    "Side \<Rightarrow> nat \<Rightarrow> Queues \<Rightarrow> OrderBook \<Rightarrow> (Side \<Rightarrow> Queues) \<Rightarrow> OrderHandle list \<Rightarrow> Order list \<Rightarrow> u64 \<Rightarrow> OrderBook \<Rightarrow> bool" where
  "level_post s i ys b H hs' q' tid' b' \<longleftrightarrow> book_rep b' (H(s := (i, hs') # ys)) \<and>
     bk_instrument b' = bk_instrument b \<and> (hs' = [] \<longleftrightarrow> q' = []) \<and>
     book_abs b' (H(s := (i, hs') # ys)) = (set_side s (book_abs b H)
       (at_tick (bk_pool b) (book_levels s b) [] i q' ys))\<lparr>ab_next_trade_id := tid'\<rparr>"

lemma level_post_same:
  assumes "book_rep b H" and "H s = (i, hs) # ys"
  shows "level_post s i ys b H hs (map (ordr (bk_pool b)) hs) (bk_next_trade_id b) b"
  using abs_unchanged(1)[of H s i hs ys] abs_unchanged(2)[of H s i hs ys b] assms by (simp add: level_post_def del: fun_upd_apply)

lemma level_post_trans:
  assumes r: "round_post s i ys h hs b H r' tid1 b1" and l: "level_post s i ys b1 (H(s := (i, q1) # ys)) hs' q' tid' b'"
    and q1: "q1 = (if r' = None then hs else h # hs)"
  shows "level_post s i ys b H hs' q' tid' b'"
proof -
  let ?H1 = "H(s := (i, q1) # ys)"
  have rp: "bk_instrument b1 = bk_instrument b" "book_abs b1 ?H1 = (set_side s (book_abs b H)
       (at_tick (bk_pool b) (book_levels s b) [] i (opt_list r' @ map (ordr (bk_pool b)) hs) ys))\<lparr>ab_next_trade_id := tid1\<rparr>"
    using r q1 by (auto simp: round_post_def Let_def)
  have lv: "ab_levels (book_abs b1 ?H1) s =
      at_tick (bk_pool b) (book_levels s b) [] i (opt_list r' @ map (ordr (bk_pool b)) hs) ys"
    by (simp add: rp(2))
  have H1: "?H1 s = [] @ (i, q1) # ys" by simp
  note t = abs_at_tick(1)[OF lv H1]
  show ?thesis using l unfolding level_post_def rp(2) t by (simp add: rp(1))
qed

lemma match_level_rep:
  assumes "book_rep b H" and "H s = (i, hs) # ys"
    and "a_match_queue (bk_instrument b) price (map (ordr (bk_pool b)) hs) (bk_next_trade_id b, ou) = (q', tid', ou')"
  shows "\<exists>b' hs'. match_level s i price (b, ou) = Some (b', ou') \<and> level_post s i ys b H hs' q' tid' b'"
  using assms
proof (induction hs arbitrary: b H ou)
  case Nil
  then show ?case using front_rep[OF Nil.prems(1,2)] level_post_same[OF Nil.prems(1,2)]
    by (subst match_level.simps) auto
next
  case (Cons h hs)
  obtain lvl where lvl: "level_get (book_levels s b) i = Some lvl" "\<not> level_empty lvl"
    using front_rep[OF Cons.prems(1,2)] by auto
  show ?case
  proof (cases "in_remaining ou = 0")
    case True
    then show ?thesis using lvl Cons.prems(3) level_post_same[OF Cons.prems(1,2)]
      by (subst match_level.simps) auto
  next
    case False
    let ?r = "ordr (bk_pool b) h"
    obtain again r' tid1 ou1 where one: "a_match_one (bk_instrument b) price ?r (bk_next_trade_id b, ou) = (again, r', tid1, ou1)"
      by (metis surj_pair)
    obtain b1 where b1: "match_one s i price (b, ou) = Some (again, b1, ou1)" "round_post s i ys h hs b H r' tid1 b1"
      using match_one_rep[OF Cons.prems(1,2) one] by blast
    have ml: "match_level s i price (b, ou) = (if again then match_level s i price (b1, ou1) else Some (b1, ou1))"
      using lvl False b1(1) by (subst match_level.simps) (simp add: word_neq_0_conv)
    let ?q1 = "if r' = None then hs else h # hs"
    let ?H1 = "H(s := (i, ?q1) # ys)"
    have rp: "book_rep b1 ?H1" "bk_instrument b1 = bk_instrument b" "book_abs b1 ?H1 = (set_side s (book_abs b H)
         (at_tick (bk_pool b) (book_levels s b) [] i (opt_list r' @ map (ordr (bk_pool b)) hs) ys))\<lparr>ab_next_trade_id := tid1\<rparr>"
      using b1(2) by (auto simp: round_post_def Let_def)
    have H1: "?H1 s = (i, ?q1) # ys" "?H1 s = [] @ (i, ?q1) # ys" by simp_all
    have lv: "ab_levels (book_abs b1 ?H1) s =
        at_tick (bk_pool b) (book_levels s b) [] i (opt_list r' @ map (ordr (bk_pool b)) hs) ys"
      by (simp add: rp(3))
    have q1: "map (ordr (bk_pool b1)) ?q1 = opt_list r' @ map (ordr (bk_pool b)) hs" by (rule abs_at_tick(2)[OF lv H1(2)])
    have tid1: "bk_next_trade_id b1 = tid1" using arg_cong[OF rp(3), of ab_next_trade_id] by simp
    note same = level_post_same[OF rp(1) H1(1), unfolded q1 tid1]
    note same' = level_post_trans[OF b1(2) same refl]
    show ?thesis
    proof (cases r')
      case None
      show ?thesis
      proof (cases again)
        case True
        have mq: "a_match_queue (bk_instrument b1) price (map (ordr (bk_pool b1)) hs) (bk_next_trade_id b1, ou1) = (q', tid', ou')"
          using Cons.prems(3) one False None True rp(2) q1 tid1 by (simp cong: map_cong)
        have h1: "?H1 s = (i, hs) # ys" using None by simp
        obtain b' hs' where step: "match_level s i price (b1, ou1) = Some (b', ou')" "level_post s i ys b1 ?H1 hs' q' tid' b'"
          using Cons.IH[OF rp(1) h1 mq] by blast
        have "level_post s i ys b H hs' q' tid' b'" by (rule level_post_trans[OF b1(2) step(2) refl])
        then show ?thesis using ml True step(1) by metis
      next
        case stop: False
        then have "(q', tid', ou') = (map (ordr (bk_pool b)) hs, tid1, ou1)" using Cons.prems(3) one False None by simp
        then show ?thesis using ml stop same' None by auto
      qed
    next
      case (Some x)
      then have res: "q' = x # map (ordr (bk_pool b)) hs" "tid' = tid1" "ou' = ou1" using Cons.prems(3) one False by auto
      have z: "in_remaining ou1 = 0" using a_match_one_kept(2)[OF one[unfolded Some]] .
      obtain lvl1 where "level_get (book_levels s b1) i = Some lvl1" using front_rep[OF rp(1) H1(1)] by blast
      then have "match_level s i price (b1, ou1) = Some (b1, ou1)" using z by (subst match_level.simps) simp
      then show ?thesis using ml same' res Some by (cases again) auto
    qed
  qed
qed

end
