(* ===== verification/Book_Operations.thy ===== *)
theory Book_Operations
  imports Book_Match_Refinement
begin

text \<open>
  The operations of the order book against the specification: matching against a side, the
  fill-or-kill dry run, resting, submitting, cancelling, replacing, and the queries.
\<close>

section \<open>Matching against a side\<close>

lemma hd_opt_simps [simp]: "hd_opt [] = None" "hd_opt (x # xs) = Some x"
  by (simp_all add: hd_opt_def)

text \<open>The level a represented tick holds.\<close>

lemma level_at_rep:
  assumes rep: "book_rep b H" and Hs: "H s = xs @ (i, q) # ys"
  obtains lvl where "level_get (book_levels s b) i = Some lvl" "level_rep (bk_pool b) lvl q" "level_empty lvl \<longleftrightarrow> q = []"
    "level_front lvl = (if q = [] then kNullHandle else hd q)" "kNullHandle \<notin> set q"
proof -
  have side: "side_rep (desc s) (bk_pool b) (book_levels s b) (xs @ (i, q) # ys)" using book_rep_side[OF rep, of s] Hs by simp
  have "level_get (book_levels s b) (fst (i, q)) = Some (lad_levels (book_levels s b) ! fst (i, q))"
    by (rule side_rep_index(2)[OF side]) simp
  moreover have "level_rep (bk_pool b) (lad_levels (book_levels s b) ! i) q" using side by (simp add: side_rep_def)
  moreover have "kNullHandle \<notin> set q"
    using rep pool_rep_notnull[of "bk_pool b" "set (all_handles H)"] Hs
    by (auto simp: book_rep_def all_handles_side(1)[of H s])
  ultimately show ?thesis using that level_rep_front level_rep_empty by auto
qed

lemma erase_if_empty_rep:
  assumes rep: "book_rep b H" and Hs: "H s = xs @ (i, q) # ys"
  shows "\<exists>b'. erase_if_empty s i b = Some b' \<and> bk_instrument b' = bk_instrument b \<and>
    bk_next_trade_id b' = bk_next_trade_id b \<and> bk_pool b' = bk_pool b \<and>
    book_rep b' (if q = [] then H(s := xs @ ys) else H) \<and>
    book_abs b' (if q = [] then H(s := xs @ ys) else H) = (if q = [] then set_side s (book_abs b H)
      (side_abs (bk_pool b) (book_levels s b) (xs @ ys)) else book_abs b H)"
proof -
  let ?p = "bk_pool b" and ?l = "book_levels s b"
  have side: "side_rep (desc s) ?p ?l (xs @ (i, q) # ys)" using book_rep_side[OF rep, of s] Hs by simp
  obtain lvl where gl: "level_get ?l i = Some lvl" and em: "level_empty lvl \<longleftrightarrow> q = []" by (rule level_at_rep[OF rep Hs])
  show ?thesis
  proof (cases "q = []")
    case False
    then show ?thesis using gl em rep by (simp add: erase_if_empty_def)
  next
    case True
    obtain l' where l': "ladder_erase ?l (Some i) = Some l'" "side_rep (desc s) ?p l' (xs @ ys)" "same_band ?l l'"
        "side_abs ?p l' (xs @ ys) = side_abs ?p ?l xs @ side_abs ?p ?l ys"
      using side_rep_erase[of "desc s" ?p ?l xs i ys] side True by auto
    let ?b = "set_book_levels s b l'"
    have lv: "book_levels s ?b = l'" "book_levels (opposite s) ?b = book_levels (opposite s) b"
      by (cases s; simp add: book_levels_def set_book_levels_def)+
    have flds: "bk_pool ?b = ?p" "bk_index ?b = bk_index b" "bk_instrument ?b = bk_instrument b"
        "bk_next_trade_id ?b = bk_next_trade_id b"
      by (cases s; simp add: set_book_levels_def)+
    have dist: "distinct (handles (xs @ ys) @ handles (H (opposite s)))"
      using rep Hs True unfolding book_rep_def all_handles_side(2)[of H s] by auto
    have L: "set (all_handles H) = set (handles (xs @ ys)) \<union> set (handles (H (opposite s)))"
      using Hs True unfolding all_handles_side(1)[of H s] by simp
    have "pool_rep ?p (set (all_handles H))" "index_rep (bk_index b) ?p (set (all_handles H))"
      using rep by (simp_all add: book_rep_def)
    then have "book_rep ?b (H(s := xs @ ys))"
      "book_abs ?b (H(s := xs @ ys)) = set_side s (book_abs b H) (side_abs ?p l' (xs @ ys))"
      using book_rep_update[OF rep, of s ?b "xs @ ys"] l'(2,3) lv flds dist L by (simp_all del: handles_simps)
    then show ?thesis using True gl em l'(1,4) flds by (simp add: erase_if_empty_def)
  qed
qed

lemma match_loop_rep:
  assumes "book_rep b H"
    and "a_match_levels (bk_instrument b) crosses (side_abs (bk_pool b) (book_levels s b) (H s))
      (bk_next_trade_id b, ou) = (ls', tid', ou')"
  shows "\<exists>b' hs'. match_loop s crosses (b, ou) = Some (b', ou') \<and> book_rep b' (H(s := hs')) \<and>
    bk_instrument b' = bk_instrument b \<and>
    book_abs b' (H(s := hs')) = (set_side s (book_abs b H) ls')\<lparr>ab_next_trade_id := tid'\<rparr>"
  using assms
proof (induction "H s" arbitrary: b H ou)
  case Nil
  have em: "ladder_empty (book_levels s b)" using side_rep_empty[OF book_rep_side[OF Nil.prems(1), of s]] Nil.hyps by simp
  have HH: "H(s := []) = H" using Nil.hyps by auto
  have "ls' = ab_levels (book_abs b H) s" "tid' = bk_next_trade_id b" "ou' = ou"
    using Nil.prems(2) Nil.hyps[symmetric] by (simp_all add: book_abs_levels)
  then show ?case using em Nil.prems(1)
    by (intro exI[of _ b] exI[of _ "[]"]) (subst match_loop.simps, simp add: HH)
next
  case (Cons x ys)
  obtain i q where x: "x = (i, q)" by (cases x)
  have Hs: "H s = (i, q) # ys" using Cons.hyps(2) x by simp
  note side = book_rep_side[OF Cons.prems(1), of s]
  have em: "\<not> ladder_empty (book_levels s b)" using side_rep_empty[OF side] Hs by simp
  have best: "best_occupied (desc s) (book_levels s b) = Some (Some i)" using side_rep_best[OF side] Hs by simp
  let ?pr = "price_at (book_levels s b) i"
  have HH: "H(s := (i, q) # ys) = H" using Hs by auto
  show ?case
  proof (cases "in_remaining ou = 0 \<or> \<not> crosses ?pr")
    case True
    then have "ls' = ab_levels (book_abs b H) s" "tid' = bk_next_trade_id b" "ou' = ou"
      using Cons.prems(2) Hs by (auto simp: book_abs_levels level_abs_def)
    then show ?thesis using True em best Cons.prems(1)
      by (intro exI[of _ b] exI[of _ "(i, q) # ys"]) (subst match_loop.simps, auto simp: HH)
  next
    case False
    obtain q' tid1 ou1 where mq: "a_match_queue (bk_instrument b) ?pr (map (ordr (bk_pool b)) q) (bk_next_trade_id b, ou) = (q', tid1, ou1)"
      by (metis surj_pair)
    obtain b1 hs1 where b1: "match_level s i ?pr (b, ou) = Some (b1, ou1)" "level_post s i ys b H hs1 q' tid1 b1"
      using match_level_rep[OF Cons.prems(1) Hs mq] by blast
    let ?H1 = "H(s := (i, hs1) # ys)"
    have p1: "book_rep b1 ?H1" "bk_instrument b1 = bk_instrument b" "hs1 = [] \<longleftrightarrow> q' = []"
        "book_abs b1 ?H1 = (set_side s (book_abs b H) (at_tick (bk_pool b) (book_levels s b) [] i q' ys))\<lparr>ab_next_trade_id := tid1\<rparr>"
      using b1(2) by (simp_all add: level_post_def)
    have H1: "?H1 s = [] @ (i, hs1) # ys" by simp
    have lv: "ab_levels (book_abs b1 ?H1) s = at_tick (bk_pool b) (book_levels s b) [] i q' ys" by (simp add: p1(4))
    have t1: "bk_next_trade_id b1 = tid1" using arg_cong[OF p1(4), of ab_next_trade_id] by simp
    obtain b2 where b2: "erase_if_empty s i b1 = Some b2" "bk_instrument b2 = bk_instrument b1"
        "bk_next_trade_id b2 = bk_next_trade_id b1" "bk_pool b2 = bk_pool b1"
        "book_rep b2 (if hs1 = [] then ?H1(s := [] @ ys) else ?H1)"
        "book_abs b2 (if hs1 = [] then ?H1(s := [] @ ys) else ?H1) = (if hs1 = [] then set_side s (book_abs b1 ?H1)
          (side_abs (bk_pool b1) (book_levels s b1) ([] @ ys)) else book_abs b1 ?H1)"
      using erase_if_empty_rep[OF p1(1) H1] by (elim exE conjE) (rule that)
    have step: "match_loop s crosses (b, ou) = match_loop s crosses (b2, ou1)"
      using False em best b1(1) b2(1) by (subst match_loop.simps) (simp add: word_neq_0_conv)
    have absys: "side_abs (bk_pool b1) (book_levels s b1) ys = side_abs (bk_pool b) (book_levels s b) ys"
      using abs_at_tick(4)[OF lv H1] .
    show ?thesis
    proof (cases "hs1 = []")
      case True
      let ?H2 = "H(s := ys)"
      have r2: "book_rep b2 ?H2" "book_abs b2 ?H2 = (set_side s (book_abs b H)
          (side_abs (bk_pool b) (book_levels s b) ys))\<lparr>ab_next_trade_id := tid1\<rparr>"
        using b2(5,6) True p1(4) absys by simp_all
      have ys2: "side_abs (bk_pool b2) (book_levels s b2) (?H2 s) = side_abs (bk_pool b) (book_levels s b) ys"
        using arg_cong[OF r2(2), of "\<lambda>A. ab_levels A s"] by (simp add: book_abs_levels)
      have rest: "a_match_levels (bk_instrument b2) crosses (side_abs (bk_pool b2) (book_levels s b2) (?H2 s))
          (bk_next_trade_id b2, ou1) = (ls', tid', ou')"
        unfolding ys2 using Cons.prems(2) Hs False mq True p1(2,3) t1 b2(2,3) by (simp add: level_abs_def)
      obtain b' hs' where b': "match_loop s crosses (b2, ou1) = Some (b', ou')" "book_rep b' (?H2(s := hs'))"
          "bk_instrument b' = bk_instrument b2"
          "book_abs b' (?H2(s := hs')) = (set_side s (book_abs b2 ?H2) ls')\<lparr>ab_next_trade_id := tid'\<rparr>"
        using Cons.hyps(1)[of ?H2, OF _ r2(1) rest, OF fun_upd_same[symmetric]] by (elim exE conjE) (rule that)
      have "?H2(s := hs') = H(s := hs')" by simp
      then show ?thesis using b' step r2(2) b2(2) p1(2) by (intro exI[of _ b'] exI[of _ hs']) simp
    next
      case more: False
      have res: "ls' = (?pr, q') # side_abs (bk_pool b) (book_levels s b) ys" "tid' = tid1" "ou' = ou1"
        using Cons.prems(2) Hs False mq more p1(3) by (simp_all add: level_abs_def)
      have "in_remaining ou1 = 0" using a_match_queue_done[OF mq] more p1(3) by simp
      then have "match_loop s crosses (b2, ou1) = Some (b2, ou1)" by (subst match_loop.simps) simp
      then show ?thesis using step res b2(2,5,6) more p1(2,4)
        by (intro exI[of _ b2] exI[of _ "(i, hs1) # ys"]) (simp add: at_tick_def)
    qed
  qed
qed

end
