(* ===== verification/Book_Queries.thy ===== *)
theory Book_Queries
  imports Book_Operations
begin

text \<open>
  The read-only side of the order book against the specification: the fill-or-kill dry run,
  validation, the best prices, the depth snapshot and the visits.  Each of them walks the levels
  of a side with the ladder's iterator and returns what the abstract side says.
\<close>

section \<open>Walking a side\<close>

lemma side_level:
  assumes rep: "side_rep d p l (xs @ (i, q) # ys)"
  obtains lvl where "level_get l i = Some lvl" "level_rep p lvl q"
    "lvl_total_quantity lvl = level_total (map (ordr p) q)" "lvl_order_count lvl = of_nat (length q)"
proof -
  have "level_get l i = Some (lad_levels l ! i)" using side_rep_index(2)[OF rep, of "(i, q)"] by simp
  moreover have r: "level_rep p (lad_levels l ! i) q" using rep by (simp add: side_rep_def)
  moreover have "lvl_total_quantity (lad_levels l ! i) = level_total (map (ordr p) q)"
    using r unfolding level_rep_def level_total_def by (metis of_nat_unat ucast_id)
  ultimately show ?thesis using that by (simp add: level_rep_def)
qed

lemma side_step: "side_rep d p l (xs @ (i, q) # ys) \<Longrightarrow> next_occupied d l (Some i) = Some (hd_opt (map fst ys))"
  using side_rep_next[of d p l xs "(i, q)" ys] by simp

text \<open>The nodes of a queue, followed from its head.\<close>

fun chain :: "OrderPool \<Rightarrow> OrderHandle \<Rightarrow> OrderHandle list \<Rightarrow> bool" where
  "chain p h [] \<longleftrightarrow> h = kNullHandle"
| "chain p h (k # hs) \<longleftrightarrow> h = k \<and> k \<noteq> kNullHandle \<and> pool_node p k = Some (nd p k) \<and> chain p (node_next (nd p k)) hs"

lemma seg_chain:
  "seg (nd p) a h hs t kNullHandle \<Longrightarrow> \<forall>k\<in>set hs. k \<noteq> kNullHandle \<and> pool_node p k = Some (nd p k) \<Longrightarrow> chain p h hs"
  by (induction hs arbitrary: a h) auto

lemma level_chain:
  assumes "pool_rep p L" and "level_rep p lvl hs" and "set hs \<subseteq> L"
  shows "chain p (level_front lvl) hs"
proof (rule seg_chain)
  show "seg (nd p) kNullHandle (level_front lvl) hs (lvl_tail lvl) kNullHandle"
    using assms(2) by (simp add: level_rep_def level_front_def)
  show "\<forall>k\<in>set hs. k \<noteq> kNullHandle \<and> pool_node p k = Some (nd p k)"
    using assms(3) pool_node_live[OF assms(1)] pool_rep_notnull[OF assms(1)] by auto
qed

section \<open>Liquidity for fill-or-kill\<close>

lemma fillable_totals_rep:
  "side_rep d p l (xs @ ys) \<Longrightarrow>
   fillable_totals d l crosses needed (hd_opt (map fst ys)) acc = Some (a_fillable_totals crosses needed (side_abs p l ys) acc)"
proof (induction ys arbitrary: xs acc)
  case Nil
  show ?case by (subst fillable_totals.simps) simp
next
  case (Cons x ys)
  obtain i q where x: "x = (i, q)" by (cases x)
  note rep = Cons.prems[unfolded x]
  obtain lvl where lvl: "level_get l i = Some lvl" "lvl_total_quantity lvl = level_total (map (ordr p) q)"
    by (rule side_level[OF rep])
  note ih = Cons.IH[of "xs @ [(i, q)]"]
  show ?case using rep side_step[OF rep] lvl ih
    by (subst fillable_totals.simps) (simp add: x level_abs_def Let_def)
qed

lemma fillable_queue_rep:
  "chain p h hs \<Longrightarrow> fillable_queue p policy account h u w = Some (a_fillable_queue policy account (map (ordr p) hs) u w)"
proof (induction hs arbitrary: h u w)
  case Nil
  then show ?case by (subst fillable_queue.simps) simp
next
  case (Cons k hs)
  then show ?case
    by (subst fillable_queue.simps) (auto simp: pool_order_def split: prod.splits)
qed

lemma fillable_walk_rep:
  assumes pool: "pool_rep p L" and sub: "set (handles (xs @ ys)) \<subseteq> L" and rep: "side_rep d p l (xs @ ys)"
  shows "fillable_walk d p l crosses policy account (hd_opt (map fst ys)) u w =
    Some (a_fillable_walk crosses policy account (side_abs p l ys) u w)"
  using sub rep
proof (induction ys arbitrary: xs u w)
  case Nil
  show ?case by (subst fillable_walk.simps) simp
next
  case (Cons x ys)
  obtain i q where x: "x = (i, q)" by (cases x)
  note rep = Cons.prems(2)[unfolded x]
  obtain lvl where lvl: "level_get l i = Some lvl" "level_rep p lvl q" by (rule side_level[OF rep])
  have "chain p (level_front lvl) q" using Cons.prems(1) x by (intro level_chain[OF pool lvl(2)]) auto
  note fq = fillable_queue_rep[OF this]
  note ih = Cons.IH[of "xs @ [(i, q)]"]
  show ?case using rep side_step[OF rep] lvl(1) fq ih Cons.prems(1) x
    by (subst fillable_walk.simps) (auto simp: level_abs_def split: prod.splits)
qed

lemma book_rep_pool:
  assumes "book_rep b H"
  shows "pool_rep (bk_pool b) (set (all_handles H))" and "set (handles (H s)) \<subseteq> set (all_handles H)"
  using assms by (auto simp: book_rep_def all_handles_side(1)[of H s])

lemma fillable_rep:
  assumes rep: "book_rep b H"
  shows "fillable b s crosses needed account = Some (a_fillable (book_abs b H) s crosses needed account)"
proof -
  note side = book_rep_side[OF rep, of s]
  have w: "fillable_walk (desc s) (bk_pool b) (book_levels s b) crosses policy account (hd_opt (map fst (H s))) needed 0 =
      Some (a_fillable_walk crosses policy account (side_abs (bk_pool b) (book_levels s b) (H s)) needed 0)" for policy
    using fillable_walk_rep[OF book_rep_pool(1)[OF rep], of "[]" "H s" "desc s"] book_rep_pool(2)[OF rep] side by simp
  show ?thesis
    using fillable_totals_rep[of "desc s" "bk_pool b" "book_levels s b" "[]" "H s"] side side_rep_best[OF side] w
    by (simp add: fillable_def a_fillable_def book_abs_levels Let_def)
qed

section \<open>Looking an order up\<close>

lemma all_orders_abs: "all_orders (book_abs b H) = map (ordr (bk_pool b)) (all_handles H)"
  by (simp add: all_orders_def book_abs_levels side_orders_abs all_handles_def)

lemma order_ids_abs: "order_ids (book_abs b H) = map (ord_id \<circ> ordr (bk_pool b)) (all_handles H)"
  by (simp add: order_ids_def all_orders_abs)

lemma index_lookup:
  assumes rep: "book_rep b H"
  obtains M where "fhm_rep (bk_index b) M"
    "\<And>oid h. M oid = Some h \<longleftrightarrow> h \<in> set (all_handles H) \<and> ord_id (ordr (bk_pool b) h) = oid"
  using rep unfolding book_rep_def index_rep_def by blast

text \<open>The identifier index finds the handle of the order the specification finds.\<close>

lemma find_handle_rep:
  assumes rep: "book_rep b H"
  shows "\<exists>r. fhm_find (bk_index b) oid = Some r \<and> (case r of
      None \<Rightarrow> a_find (book_abs b H) oid = None
    | Some h \<Rightarrow> h \<in> set (all_handles H) \<and> ord_id (ordr (bk_pool b) h) = oid \<and>
        a_find (book_abs b H) oid = Some (ordr (bk_pool b) h))"
proof -
  obtain M where M: "fhm_rep (bk_index b) M"
    "\<And>oid h. M oid = Some h \<longleftrightarrow> h \<in> set (all_handles H) \<and> ord_id (ordr (bk_pool b) h) = oid"
    using index_lookup[OF rep] by blast
  show ?thesis
  proof (cases "M oid")
    case None
    then have "\<forall>h\<in>set (all_handles H). ord_id (ordr (bk_pool b) h) \<noteq> oid" using M(2)[of oid] by auto
    then have "a_find (book_abs b H) oid = None" by (auto simp: a_find_def all_orders_abs find_None_iff)
    then show ?thesis using fhm_find_rep[OF M(1), of oid] None by simp
  next
    case (Some h)
    then have h: "h \<in> set (all_handles H)" "ord_id (ordr (bk_pool b) h) = oid" using M(2)[of oid h] by auto
    have uniq: "k = h" if "k \<in> set (all_handles H)" "ord_id (ordr (bk_pool b) k) = oid" for k
      using M(2)[of oid k] that Some by simp
    obtain x where x: "a_find (book_abs b H) oid = Some x"
      using h by (cases "a_find (book_abs b H) oid") (auto simp: a_find_def all_orders_abs find_None_iff)
    then have "x \<in> set (all_orders (book_abs b H))" "ord_id x = oid"
      by (auto simp: a_find_def find_Some_iff)
    then have "x = ordr (bk_pool b) h" using uniq by (auto simp: all_orders_abs)
    then show ?thesis using fhm_find_rep[OF M(1), of oid] Some h x by simp
  qed
qed

lemma find_order_rep:
  assumes rep: "book_rep b H"
  shows "find_order b oid = Some (a_find (book_abs b H) oid)"
  using find_handle_rep[OF rep, of oid] pool_order_live[OF book_rep_pool(1)[OF rep]]
  by (auto simp: find_order_def split: option.splits)

lemma validate_rep:
  assumes rep: "book_rep b H"
  shows "validate b ord = Some (a_validate (book_abs b H) ord)"
proof -
  obtain M where M: "fhm_rep (bk_index b) M"
    "\<And>oid h. M oid = Some h \<longleftrightarrow> h \<in> set (all_handles H) \<and> ord_id (ordr (bk_pool b) h) = oid"
    using index_lookup[OF rep] by blast
  have "ord_id ord \<in> dom M \<longleftrightarrow> ord_id ord \<in> set (order_ids (book_abs b H))"
    using M(2)[of "ord_id ord"] by (force simp: order_ids_abs dom_def)
  then show ?thesis using fhm_contains_rep[OF M(1), of "ord_id ord"] by (simp add: validate_def a_validate_def)
qed

section \<open>Prices and depth\<close>

lemma best_of_rep:
  assumes rep: "book_rep b H"
  shows "best_of s b = Some (a_best (book_abs b H) s)"
proof -
  note side = book_rep_side[OF rep, of s]
  show ?thesis using side_rep_best[OF side] side_rep_empty[OF side]
    by (cases "H s") (auto simp: best_of_def a_best_def book_abs_levels level_abs_def)
qed

lemma would_cross_rep: "book_rep b H \<Longrightarrow> would_cross b ord = Some (a_would_cross (book_abs b H) ord)"
  by (simp add: would_cross_def a_would_cross_def best_ask_def best_bid_def best_of_rep)

definition depth_level :: "Level \<Rightarrow> DepthLevel" where
  "depth_level l = \<lparr>dl_price = fst l, dl_quantity = level_total (snd l), dl_order_count = of_nat (length (snd l))\<rparr>"

definition a_top :: "Level list \<Rightarrow> Price \<times> Quantity" where
  "a_top ls = (case ls of [] \<Rightarrow> (kNoPrice, 0) | l # _ \<Rightarrow> (fst l, level_total (snd l)))"

lemma top_side_rep:
  assumes rep: "book_rep b H"
  shows "top_side s b = Some (a_top (ab_levels (book_abs b H) s))"
proof (cases "H s")
  case Nil
  then show ?thesis using side_rep_empty[OF book_rep_side[OF rep, of s]]
    by (simp add: top_side_def a_top_def book_abs_levels)
next
  case (Cons x ys)
  obtain i q where x: "x = (i, q)" by (cases x)
  have side: "side_rep (desc s) (bk_pool b) (book_levels s b) ([] @ (i, q) # ys)"
    using book_rep_side[OF rep, of s] Cons x by simp
  obtain lvl where "level_get (book_levels s b) i = Some lvl" "lvl_total_quantity lvl = level_total (map (ordr (bk_pool b)) q)"
    by (rule side_level[OF side])
  then show ?thesis using side_rep_best[OF side] side_rep_empty[OF side]
    by (simp add: top_side_def a_top_def book_abs_levels Cons x level_abs_def)
qed

lemma depth_walk_rep:
  assumes "side_rep d p l (xs @ ys)" and "length acc \<le> n"
  shows "depth_walk d l n (hd_opt (map fst ys)) acc =
     Some (acc @ map depth_level (take (n - length acc) (side_abs p l ys)))"
  using assms
proof (induction ys arbitrary: xs acc)
  case Nil
  show ?case by (subst depth_walk.simps) simp
next
  case (Cons x ys)
  obtain i q where x: "x = (i, q)" by (cases x)
  note rep = Cons.prems(1)[unfolded x]
  obtain lvl where lvl: "level_get l i = Some lvl" "lvl_total_quantity lvl = level_total (map (ordr p) q)"
      "lvl_order_count lvl = of_nat (length q)"
    by (rule side_level[OF rep])
  show ?case
  proof (cases "length acc = n")
    case True
    then show ?thesis using lvl(1) by (subst depth_walk.simps) (simp add: x)
  next
    case False
    then have n: "n - length acc = Suc (n - Suc (length acc))" using Cons.prems(2) by simp
    show ?thesis
      using Cons.IH[of "xs @ [(i, q)]"] rep side_step[OF rep] lvl False Cons.prems(2)
      by (subst depth_walk.simps) (simp add: x level_abs_def depth_level_def n)
  qed
qed

lemma depth_side_rep:
  assumes rep: "book_rep b H"
  shows "depth_side b s n = Some (map depth_level (take n (ab_levels (book_abs b H) s)))"
proof -
  note side = book_rep_side[OF rep, of s]
  show ?thesis using side_rep_best[OF side] depth_walk_rep[of "desc s" "bk_pool b" "book_levels s b" "[]" "H s" "[]" n] side
    by (simp add: depth_side_def book_abs_levels)
qed

lemma total_walk_rep:
  "side_rep d p l (xs @ ys) \<Longrightarrow>
   total_walk d l (hd_opt (map fst ys)) acc = Some (acc + of_nat (qty_sum (side_orders (side_abs p l ys))))"
proof (induction ys arbitrary: xs acc)
  case Nil
  show ?case by (subst total_walk.simps) simp
next
  case (Cons x ys)
  obtain i q where x: "x = (i, q)" by (cases x)
  note rep = Cons.prems[unfolded x]
  obtain lvl where lvl: "level_get l i = Some lvl" "lvl_total_quantity lvl = level_total (map (ordr p) q)"
    by (rule side_level[OF rep])
  show ?case using Cons.IH[of "xs @ [(i, q)]"] rep side_step[OF rep] lvl
    by (subst total_walk.simps) (simp add: x level_abs_def level_total_def)
qed

lemma total_quantity_rep:
  assumes rep: "book_rep b H"
  shows "total_quantity b s = Some (of_nat (qty_sum (side_orders (ab_levels (book_abs b H) s))))"
proof -
  note side = book_rep_side[OF rep, of s]
  show ?thesis using side_rep_best[OF side] total_walk_rep[of "desc s" "bk_pool b" "book_levels s b" "[]" "H s" 0] side
    by (simp add: total_quantity_def book_abs_levels)
qed

section \<open>Visiting every resting order\<close>

lemma visit_queue_rep: "chain p h hs \<Longrightarrow> visit_queue p h acc = Some (acc @ map (ordr p) hs)"
proof (induction hs arbitrary: h acc)
  case Nil
  then show ?case by (subst visit_queue.simps) simp
next
  case (Cons k hs)
  then show ?case by (subst visit_queue.simps) simp
qed

lemma visit_levels_rep:
  assumes pool: "pool_rep p L" and sub: "set (handles (xs @ ys)) \<subseteq> L" and rep: "side_rep d p l (xs @ ys)"
  shows "visit_levels d p l (hd_opt (map fst ys)) acc = Some (acc @ map (ordr p) (handles ys))"
  using sub rep
proof (induction ys arbitrary: xs acc)
  case Nil
  show ?case by (subst visit_levels.simps) simp
next
  case (Cons x ys)
  obtain i q where x: "x = (i, q)" by (cases x)
  note rep = Cons.prems(2)[unfolded x]
  obtain lvl where lvl: "level_get l i = Some lvl" "level_rep p lvl q" by (rule side_level[OF rep])
  have "chain p (level_front lvl) q" using Cons.prems(1) x by (intro level_chain[OF pool lvl(2)]) auto
  note vq = visit_queue_rep[OF this]
  show ?case using Cons.IH[of "xs @ [(i, q)]"] rep side_step[OF rep] lvl(1) vq Cons.prems(1) x
    by (subst visit_levels.simps) simp
qed

lemma resting_orders_rep:
  assumes rep: "book_rep b H"
  shows "resting_orders b = Some (all_orders (book_abs b H))"
proof -
  have v: "visit_levels (desc s) (bk_pool b) (book_levels s b) (hd_opt (map fst (H s))) acc =
      Some (acc @ map (ordr (bk_pool b)) (handles (H s)))" for s acc
    using visit_levels_rep[OF book_rep_pool(1)[OF rep], of "[]" "H s" "desc s"] book_rep_pool(2)[OF rep]
      book_rep_side[OF rep, of s] by simp
  show ?thesis
    using v[of Buy] v[of Sell] side_rep_best[OF book_rep_side[OF rep, of Buy]] side_rep_best[OF book_rep_side[OF rep, of Sell]]
    by (simp add: resting_orders_def desc_def book_levels_def all_orders_abs all_handles_def)
qed

lemma level_count_rep: "book_rep b H \<Longrightarrow> level_count s b = length (ab_levels (book_abs b H) s)"
  using side_rep_size[OF book_rep_side[of b H s]] by (simp add: level_count_def book_abs_levels side_abs_def)

lemma resting_order_count_rep:
  assumes rep: "book_rep b H"
  shows "resting_order_count b = length (all_orders (book_abs b H))"
proof -
  obtain M where M: "fhm_rep (bk_index b) M"
    "\<And>oid h. M oid = Some h \<longleftrightarrow> h \<in> set (all_handles H) \<and> ord_id (ordr (bk_pool b) h) = oid"
    using index_lookup[OF rep] by blast
  have "bij_betw (\<lambda>h. ord_id (ordr (bk_pool b) h)) (set (all_handles H)) (dom M)"
    unfolding bij_betw_def
  proof
    show "inj_on (\<lambda>h. ord_id (ordr (bk_pool b) h)) (set (all_handles H))"
      by (rule inj_onI) (metis M(2) option.inject)
    show "(\<lambda>h. ord_id (ordr (bk_pool b) h)) ` set (all_handles H) = dom M"
      using M(2) by (force simp: dom_def)
  qed
  then have "card (dom M) = length (all_handles H)"
    using rep distinct_card[of "all_handles H"] bij_betw_same_card by (metis book_rep_def)
  then show ?thesis using fhm_size_rep[OF M(1)] by (simp add: resting_order_count_def all_orders_abs)
qed

end
