(* ===== verification/Book_Commands.thy ===== *)
theory Book_Commands
  imports Book_Queries
begin

text \<open>
  The commands of the order book against the specification: resting, submitting, cancelling and
  replacing.  The hypotheses are the capacities the code relies on, a free slot in the slab and
  room in the 64-bit totals of a side.
\<close>

section \<open>A valid price has a tick\<close>

lemma ladder_base_le:
  assumes "ins_tick_size ins > 0" and "is_valid_price ins p"
  shows "ladder_base ins \<le> p" and "ins_tick_size ins dvd p - ladder_base ins"
proof -
  let ?t = "ins_tick_size ins" and ?m = "ins_min_price ins"
  have p: "0 < p" "p mod ?t = 0" "?m \<le> p"
    using assms by (auto simp: is_valid_price_def signed_modulo_int_def signed_divide_int_def modulo_int_def split: if_splits)
  show "?t dvd p - ladder_base ins" using p(2) by (auto simp: ladder_base_def mod_eq_0_iff_dvd)
  show "ladder_base ins \<le> p"
  proof (cases "?m \<ge> 0")
    case True
    then have "?m sdiv ?t = ?m div ?t" using assms(1) by (auto simp: signed_divide_int_def sgn_if)
    then show ?thesis using p(3) assms(1) by (simp add: ladder_base_def) (metis le_less_trans minus_mod_eq_div_mult not_less pos_mod_sign diff_ge_0_iff_ge order_trans le_add_same_cancel1 diff_add_cancel)
  next
    case False
    then have "?m sdiv ?t = - (\<bar>?m\<bar> div ?t)" using assms(1) by (auto simp: signed_divide_int_def sgn_if)
    moreover have "(\<bar>?m\<bar> div ?t) * ?t \<ge> 0" using assms(1) by (simp add: pos_imp_zdiv_nonneg_iff)
    ultimately show ?thesis using p(1) by (simp add: ladder_base_def)
  qed
qed

lemma valid_price_index:
  assumes rep: "ladder_rep l S" and band: "band_ok ins l" and v: "is_valid_price ins p"
  shows "\<exists>i. index_of l p = Some i"
proof -
  let ?t = "ins_tick_size ins" and ?b = "ladder_base ins"
  have t: "?t > 0" using rep band by (simp add: ladder_rep_def band_ok_def)
  note b = ladder_base_le[OF t v]
  then obtain m where m: "p - ?b = ?t * m" by (elim dvdE)
  have m0: "m \<ge> 0" using m b(1) t by (metis diff_ge_0_iff_ge zero_le_mult_iff not_less order.asym)
  have mx: "p \<le> ins_max_price ins" using v by (simp add: is_valid_price_def)
  then have "(ins_max_price ins - ?b) sdiv ?t = (ins_max_price ins - ?b) div ?t"
    using b(1) t by (auto simp: signed_divide_int_def sgn_if)
  moreover have "m \<le> (ins_max_price ins - ?b) div ?t"
    using m mx t by (metis diff_right_mono nonzero_mult_div_cancel_left order_less_irrefl zdiv_mono1)
  ultimately have "nat m < length (lad_levels l)" using band m0 by (simp add: band_ok_def tick_count_def)
  moreover have "p = price_at l (nat m)" using m m0 band by (simp add: price_at_def band_ok_def algebra_simps)
  ultimately show ?thesis using index_of_iff[OF rep] by auto
qed

section \<open>Resting\<close>

lemma a_queue_in_append:
  "\<forall>l\<in>set ls. fst l \<noteq> ord_price ord \<and> \<not> price_before d (ord_price ord) (fst l) \<Longrightarrow>
   a_queue_in d ord (ls @ ms) = ls @ a_queue_in d ord ms"
proof (induction ls)
  case (Cons l ls)
  then show ?case by (cases l) auto
qed simp

lemma a_queue_in_here:
  assumes "\<forall>l\<in>set ms. price_before d (ord_price ord) (fst l)"
  shows "a_queue_in d ord ms = (ord_price ord, [ord]) # ms"
proof (cases ms)
  case (Cons l ls)
  then show ?thesis using assms by (cases l) (auto simp: price_before_def split: if_splits)
qed simp

lemma price_before_ticks:
  "ladder_rep l S \<Longrightarrow> price_before d (price_at l i) (price_at l j) \<longleftrightarrow> walk_before d i j"
  by (simp add: price_before_def walk_before_def price_at_mono)

lemma a_queue_in_rep:
  assumes rep: "side_rep d p l' (xs @ (i, q) # ys)" and price: "ord_price ord = price_at l' i"
    and hs: "hs = xs @ (i, q) # ys \<or> (q = [] \<and> hs = xs @ ys)"
  shows "a_queue_in d ord (side_abs p l' hs) = side_abs p l' xs @ (price_at l' i, map (ordr p) q @ [ord]) # side_abs p l' ys"
proof -
  have lr: "ladder_rep l' (set (map fst (xs @ (i, q) # ys)))" using rep by (simp add: side_rep_def)
  have before: "\<And>x. x \<in> set xs \<Longrightarrow> walk_before d (fst x) i" and after: "\<And>x. x \<in> set ys \<Longrightarrow> walk_before d i (fst x)"
    using rep by (auto simp: side_rep_def sorted_wrt_append)
  have irr: "\<not> (walk_before d j k \<and> walk_before d k j)" "\<not> walk_before d j j" for j k by (auto simp: walk_before_def)
  have l: "\<forall>m\<in>set (side_abs p l' xs). fst m \<noteq> ord_price ord \<and> \<not> price_before d (ord_price ord) (fst m)"
  proof
    fix m assume "m \<in> set (side_abs p l' xs)"
    then obtain x where x: "x \<in> set xs" "m = level_abs p l' x" by (auto simp: side_abs_def)
    then show "fst m \<noteq> ord_price ord \<and> \<not> price_before d (ord_price ord) (fst m)" using before[OF x(1)] irr price price_before_ticks[OF lr] price_at_inj[OF lr]
      by (auto simp: level_abs_def)
  qed
  have r: "\<forall>m\<in>set (side_abs p l' ys). price_before d (ord_price ord) (fst m)"
    using after price price_before_ticks[OF lr] by (auto simp: side_abs_def level_abs_def)
  from hs show ?thesis
  proof
    assume "hs = xs @ (i, q) # ys"
    then show ?thesis using a_queue_in_append[OF l] price by (simp add: level_abs_def)
  next
    assume "q = [] \<and> hs = xs @ ys"
    then show ?thesis using a_queue_in_append[OF l] a_queue_in_here[OF r] price by simp
  qed
qed

lemma qty_sum_handles_le: "(i, q) \<in> set hs \<Longrightarrow> qty_sum (map f q) \<le> qty_sum (map f (handles hs))"
  by (induction hs) auto

lemma index_insert:
  assumes ix: "index_rep ix p L" and new: "oid \<notin> (\<lambda>h. ord_id (ordr p h)) ` L" and h: "h \<notin> L"
    and p': "ord_id (ordr p' h) = oid" "\<And>k. k \<in> L \<Longrightarrow> ordr p' k = ordr p k"
  shows "\<exists>ix'. fhm_insert ix oid h = Some (True, ix') \<and> index_rep ix' p' (insert h L)"
proof -
  obtain M where M: "fhm_rep ix M" "\<And>oid k. M oid = Some k \<longleftrightarrow> k \<in> L \<and> ord_id (ordr p k) = oid"
    using ix unfolding index_rep_def by blast
  have none: "M oid = None" using M(2)[of oid] new by (cases "M oid") force+
  obtain ix' where ix': "fhm_insert ix oid h = Some (True, ix')" "fhm_rep ix' (M(oid \<mapsto> h))"
    using fhm_insert_rep[OF M(1), of oid h] none by auto
  have "(M(oid \<mapsto> h)) x = Some k \<longleftrightarrow> k \<in> insert h L \<and> ord_id (ordr p' k) = x" for x k
    using M(2)[of x k] none p'(1) p'(2)[of k] h new by (cases "k = h") (auto simp: image_iff)
  then show ?thesis using ix' unfolding index_rep_def by blast
qed

lemma enqueue_rep:
  assumes side: "side_rep d p l hs" and pool: "pool_rep p L" and sub: "set (handles hs) \<subseteq> L" and h: "h \<in> L" "h \<notin> set (handles hs)"
    and dist: "distinct (handles hs)" and i: "index_of l (ord_price (ordr p h)) = Some i"
    and fits: "qty_sum (map (ordr p) (handles hs)) + unat (ord_remaining (ordr p h)) < 2 ^ 64"
  shows "\<exists>l1 lvl p' lvl' l2 hs'. ladder_at l (ord_price (ordr p h)) = Some (i, l1) \<and> level_get l1 i = Some lvl \<and>
    push_back p lvl h = Some (p', lvl') \<and> level_put l1 i lvl' = Some l2 \<and> pool_rep p' L \<and> side_rep d p' l2 hs' \<and>
    same_band l l2 \<and> (\<forall>k. ordr p' k = ordr p k) \<and> (\<forall>k. k \<notin> set (handles hs) \<longrightarrow> k \<noteq> h \<longrightarrow> nd p' k = nd p k) \<and>
    set (handles hs') = insert h (set (handles hs)) \<and> distinct (handles hs') \<and>
    side_abs p' l2 hs' = a_queue_in d (ordr p h) (side_abs p l hs)"
proof -
  obtain l1 xs q ys where o: "ladder_at l (ord_price (ordr p h)) = Some (i, l1)" "side_rep d p l1 (xs @ (i, q) # ys)"
      "same_band l l1" "hs = xs @ (i, q) # ys \<or> (q = [] \<and> hs = xs @ ys \<and> i \<notin> set (map fst hs))"
    using side_rep_open[OF side i] by (elim exE conjE) (rule that)
  have set_hs: "set (handles hs) = set (handles (xs @ ys)) \<union> set q" and dq: "distinct (handles xs @ q @ handles ys)"
    using o(4) dist by auto
  obtain lvl where lvl: "level_get l1 i = Some lvl" "level_rep p lvl q" by (rule side_level[OF o(2)])
  have "qty_sum (map (ordr p) q) \<le> qty_sum (map (ordr p) (handles hs))"
    using o(4) qty_sum_handles_le[of i q hs] by auto
  then have fit: "qty_sum (map (ordr p) q) + unat (ord_remaining (ordr p h)) < 2 ^ 64" using fits by simp
  have subq: "set q \<subseteq> L" "h \<notin> set q" using sub h(2) set_hs by auto
  obtain p' lvl' where pb: "push_back p lvl h = Some (p', lvl')" "pool_rep p' L" "level_rep p' lvl' (q @ [h])"
      "\<forall>k. ordr p' k = ordr p k" "\<forall>k. k \<notin> set q \<longrightarrow> k \<noteq> h \<longrightarrow> nd p' k = nd p k"
    using push_back_rep[OF pool lvl(2) subq(1) h(1) subq(2) fit] by (elim exE conjE) (rule that)
  have fr: "nd p' k = nd p k" if "k \<in> set (handles (xs @ ys))" for k
    using that pb(5) dq h(2) set_hs by auto
  obtain l2 where l2: "level_put l1 i lvl' = Some l2" "side_rep d p' l2 (xs @ (i, q @ [h]) # ys)" "same_band l1 l2"
      "side_abs p' l2 (xs @ (i, q @ [h]) # ys) = side_abs p l1 xs @ (price_at l1 i, map (ordr p') (q @ [h])) # side_abs p l1 ys"
    using side_rep_update[OF o(2) pb(3)] fr by blast
  have lr: "ladder_rep l (set (map fst hs))" using side by (simp add: side_rep_def)
  have price: "ord_price (ordr p h) = price_at l1 i" using i index_of_iff[OF lr] same_band_price(1)[OF o(3)] by simp
  have "hs = xs @ (i, q) # ys \<or> (q = [] \<and> hs = xs @ ys)" using o(4) by auto
  from a_queue_in_rep[OF o(2) price this]
  have "a_queue_in d (ordr p h) (side_abs p l1 hs) = side_abs p' l2 (xs @ (i, q @ [h]) # ys)"
    using l2(4) pb(4) by (simp cong: map_cong)
  moreover have "side_abs p l1 hs = side_abs p l hs" by (rule side_abs_frame[OF refl o(3)])
  moreover have "set (handles (xs @ (i, q @ [h]) # ys)) = insert h (set (handles hs))" using set_hs by auto
  moreover have "distinct (handles (xs @ (i, q @ [h]) # ys))" using dq h(2) set_hs by auto
  moreover have "same_band l l2" using o(3) l2(3) by (simp add: same_band_def)
  moreover have "\<forall>k. k \<notin> set (handles hs) \<longrightarrow> k \<noteq> h \<longrightarrow> nd p' k = nd p k" using pb(5) set_hs by simp
  ultimately show ?thesis using o(1) lvl(1) pb(1,2,4) l2(1,2) by metis
qed

lemma rest_rep:
  assumes rep: "book_rep b H" and v: "is_valid_price (bk_instrument b) (ord_price ord)"
    and new: "ord_id ord \<notin> set (order_ids (book_abs b H))" and room: "pool_has_room (bk_pool b)"
    and fits: "room_for (book_abs b H) (ord_side ord) (ord_remaining ord)"
  shows "\<exists>b' H'. rest b ord = Some b' \<and> book_rep b' H' \<and> book_abs b' H' = a_rest (book_abs b H) ord"
proof -
  let ?s = "ord_side ord" let ?p = "bk_pool b" and ?l = "book_levels ?s b" and ?L = "set (all_handles H)"
  note side = book_rep_side[OF rep, of ?s]
  have pr: "pool_rep ?p ?L" and dist: "distinct (handles (H ?s) @ handles (H (opposite ?s)))"
    and L: "?L = set (handles (H ?s)) \<union> set (handles (H (opposite ?s)))"
    using rep unfolding book_rep_def all_handles_side(2)[of H ?s] all_handles_side(1)[of H ?s] by auto
  obtain h p1 where acq: "acquire ?p ord = Some (h, p1)" "h \<notin> ?L" "pool_rep p1 (insert h ?L)" "nd p1 h = fresh_node ord"
      "\<forall>k\<in>?L. nd p1 k = nd ?p k"
    using acquire_live[OF pr room] by blast
  have ordh: "ordr p1 h = ord" using acq(4) by (simp add: fresh_node_def)
  have "index_rep (bk_index b) ?p ?L" using rep by (simp add: book_rep_def)
  moreover have "ord_id ord \<notin> (\<lambda>h. ord_id (ordr ?p h)) ` ?L" using new by (simp add: order_ids_abs comp_def)
  ultimately obtain ix' where ix': "fhm_insert (bk_index b) (ord_id ord) h = Some (True, ix')" "index_rep ix' p1 (insert h ?L)"
    using index_insert[of "bk_index b" ?p ?L "ord_id ord" h p1] acq(2,5) ordh by auto
  have side1: "side_rep (desc ?s) p1 ?l (H ?s)" by (rule side_rep_frame[OF side]) (use acq(5) L in auto)
  have lr: "ladder_rep ?l (set (map fst (H ?s)))" and band: "band_ok (bk_instrument b) ?l"
    using side rep by (auto simp: side_rep_def book_rep_def)
  obtain i where i: "index_of ?l (ord_price (ordr p1 h)) = Some i" using valid_price_index[OF lr band v] ordh by auto
  have ords: "map (ordr p1) (handles (H ?s)) = map (ordr ?p) (handles (H ?s))" using acq(5) L by auto
  have fit: "qty_sum (map (ordr p1) (handles (H ?s))) + unat (ord_remaining (ordr p1 h)) < 2 ^ 64"
    using fits unfolding ords by (simp add: room_for_def book_abs_levels side_orders_abs ordh)
  have hh: "set (handles (H ?s)) \<subseteq> insert h ?L" "h \<in> insert h ?L" "h \<notin> set (handles (H ?s))" "distinct (handles (H ?s))"
    using L acq(2) dist by auto
  obtain l1 lvl p2 lvl' l2 hs' where e: "ladder_at ?l (ord_price ord) = Some (i, l1)" "level_get l1 i = Some lvl"
      "push_back p1 lvl h = Some (p2, lvl')" "level_put l1 i lvl' = Some l2" "pool_rep p2 (insert h ?L)"
      "side_rep (desc ?s) p2 l2 hs'" "same_band ?l l2" "\<forall>k. ordr p2 k = ordr p1 k"
      "\<forall>k. k \<notin> set (handles (H ?s)) \<longrightarrow> k \<noteq> h \<longrightarrow> nd p2 k = nd p1 k" "set (handles hs') = insert h (set (handles (H ?s)))"
      "distinct (handles hs')" "side_abs p2 l2 hs' = a_queue_in (desc ?s) ord (side_abs p1 ?l (H ?s))"
    using enqueue_rep[OF side1 acq(3) hh(1,2,3,4) i fit] unfolding ordh by (elim exE conjE) (rule that)
  let ?b = "(set_book_levels ?s b l2)\<lparr>bk_pool := p2, bk_index := ix'\<rparr>"
  have eq: "rest b ord = Some ?b" using acq(1) ix'(1) e(1-4) by (simp add: rest_def)
  have L': "set (handles hs') \<union> set (handles (H (opposite ?s))) = insert h ?L" using e(10) L by auto
  have fr: "nd p2 k = nd ?p k" if "k \<in> set (handles (H (opposite ?s)))" for k
  proof -
    have "k \<in> ?L" "k \<noteq> h" "k \<notin> set (handles (H ?s))" using that L acq(2) dist by auto
    then show ?thesis using e(9) acq(5) by simp
  qed
  have "index_rep ix' p2 (insert h ?L)" by (rule index_rep_frame[OF ix'(2)]) (simp add: e(8))
  moreover have "distinct (handles hs' @ handles (H (opposite ?s)))" using e(10,11) dist acq(2) L by auto
  ultimately have up: "book_rep ?b (H(?s := hs'))"
      "book_abs ?b (H(?s := hs')) = set_side ?s (book_abs b H) (side_abs p2 l2 hs')"
    using book_rep_update[OF rep, of ?s ?b hs'] e(5-7) fr L' by simp_all
  have "side_abs p1 ?l (H ?s) = side_abs ?p ?l (H ?s)" by (rule side_abs_frame) (use acq(5) L in \<open>auto simp: same_band_def\<close>)
  then have "book_abs ?b (H(?s := hs')) = a_rest (book_abs b H) ord"
    using up(2) e(12) by (simp add: a_rest_def book_abs_levels Let_def)
  then show ?thesis using eq up(1) by blast
qed

section \<open>Submitting\<close>

text \<open>A free slot in the slab, said of the abstract book: handles are 32 bits, one is the null handle.\<close>

definition slot_free :: "ABook \<Rightarrow> bool" where
  "slot_free A \<longleftrightarrow> length (all_orders A) < unat kNullHandle"

lemma slot_free_pool: "book_rep b H \<Longrightarrow> pool_has_room (bk_pool b) \<longleftrightarrow> slot_free (book_abs b H)"
  using pool_live_card[OF book_rep_pool(1)[of b H]] distinct_card[of "all_handles H"]
  by (simp add: pool_has_room_def slot_free_def all_orders_abs book_rep_def)

lemma slot_free_subset:
  assumes "slot_free A" and "set (order_ids B) \<subseteq> set (order_ids A)" and "distinct (order_ids B)"
  shows "slot_free B"
proof -
  have "length (order_ids B) = card (set (order_ids B))" using assms(3) distinct_card by metis
  also have "\<dots> \<le> length (order_ids A)" using assms(2) by (metis List.finite_set card_length card_mono le_trans)
  finally show ?thesis using assms(1) by (simp add: slot_free_def order_ids_def)
qed

lemma a_match_fok:
  assumes wf: "wf_book A" and m: "a_match A s cr ou = (A1, ou1)"
    and enough: "in_remaining ou \<le> a_fillable A s cr (in_remaining ou) (ord_account (out_incoming ou))"
  shows "in_remaining ou1 = 0" and "out_stp_cancelled ou1 = out_stp_cancelled ou"
proof -
  obtain ls tid where "a_match_levels (ab_instrument A) cr (ab_levels A s) (ab_next_trade_id A, ou) = (ls, tid, ou1)"
    using m by (auto simp: a_match_def split: prod.splits)
  from a_fillable_match[OF this enough] wf wf_book_pos[OF wf]
  show "in_remaining ou1 = 0" "out_stp_cancelled ou1 = out_stp_cancelled ou" by (auto simp: wf_book_def)
qed

lemma match_loop_abs:
  assumes rep: "book_rep b H" and m: "a_match (book_abs b H) s crosses ou = (A1, ou1)"
  shows "\<exists>b' H'. match_loop s crosses (b, ou) = Some (b', ou1) \<and> book_rep b' H' \<and> book_abs b' H' = A1"
proof -
  obtain ls tid where "a_match_levels (bk_instrument b) crosses (side_abs (bk_pool b) (book_levels s b) (H s))
      (bk_next_trade_id b, ou) = (ls, tid, ou1)" "A1 = (set_side s (book_abs b H) ls)\<lparr>ab_next_trade_id := tid\<rparr>"
    using m by (auto simp: a_match_def book_abs_levels split: prod.splits)
  then show ?thesis using match_loop_rep[OF rep] by metis
qed

lemma insert_matched_rep:
  assumes rep: "book_rep b H" and wf: "wf_book (book_abs b H)" and ok: "a_validate (book_abs b H) ord = RejectNone"
    and room: "room_for (book_abs b H) (ord_side ord) (ord_remaining ord)" "slot_free (book_abs b H)"
    and r: "a_insert_matched (book_abs b H) ord out = (res, out', A')"
  shows "\<exists>b' H'. insert_matched b ord out = Some (res, out', b') \<and> book_rep b' H' \<and> book_abs b' H' = A'"
proof -
  let ?A = "book_abs b H" and ?s = "opposite (ord_side ord)"
  let ?cr = "crosses_at (ord_type ord = Market) (ord_price ord) (is_buy ord)"
  let ?ou = "\<lparr>out_incoming = ord, out_fills = fst out, out_withdrawals = snd out, out_stp_cancelled = 0\<rparr>"
  let ?kill = "ord_tif ord = FillOrKill \<and> a_fillable ?A ?s ?cr (ord_remaining ord) (ord_account ord) < ord_remaining ord"
  have kill: "(if ord_tif ord = FillOrKill then do { available \<leftarrow> fillable b ?s ?cr (ord_remaining ord) (ord_account ord);
      Some (available < ord_remaining ord) } else Some False) = Some ?kill"
    using fillable_rep[OF rep] by simp
  show ?thesis
  proof (cases ?kill)
    case True
    then show ?thesis using r rep kill unfolding insert_matched_def a_insert_matched_def Let_def by auto
  next
    case False
    obtain A1 ou where m: "a_match ?A ?s ?cr ?ou = (A1, ou)" by (metis surj_pair)
    obtain b1 H1 where b1: "match_loop ?s ?cr (b, ?ou) = Some (b1, ou)" "book_rep b1 H1" "book_abs b1 H1 = A1"
      using match_loop_abs[OF rep m] by blast
    note mw = a_match_wf[OF wf m]
    let ?x = "out_incoming ou"
    have sh: "shrunk ord ?x" using mw(5) by simp
    then have core: "order_core ?x = order_core ord" by (simp add: shrunk_def)
    note f = order_core_fields[OF core]
    have fok: "ord_tif ?x \<noteq> FillOrKill" if "ord_remaining ?x \<noteq> 0"
      using a_match_fok(1)[OF wf m] False that f(6) by (auto simp: not_less)
    have step: "insert_matched b ord out = (let res0 = SubmitResult_default\<lparr>sr_stp_cancelled := out_stp_cancelled ou,
          sr_filled := ord_remaining ord - ord_remaining ?x - out_stp_cancelled ou\<rparr>; out0 = (out_fills ou, out_withdrawals ou) in
        if ord_remaining ?x = 0 \<or> ord_type ord = Market \<or> ord_tif ?x = ImmediateOrCancel then Some (res0, out0, b1)
        else do { b2 \<leftarrow> rest b1 ?x; Some (res0\<lparr>sr_rested := True\<rparr>, out0, b2) })"
      unfolding insert_matched_def Let_def kill using b1(1) fok False by (cases "ord_remaining ?x = 0") auto
    have spec: "(res, out', A') = (let res0 = SubmitResult_default\<lparr>sr_stp_cancelled := out_stp_cancelled ou,
          sr_filled := ord_remaining ord - ord_remaining ?x - out_stp_cancelled ou\<rparr>; out0 = (out_fills ou, out_withdrawals ou) in
        if ord_remaining ?x = 0 \<or> ord_type ord = Market \<or> ord_tif ?x = ImmediateOrCancel then (res0, out0, A1)
        else (res0\<lparr>sr_rested := True\<rparr>, out0, a_rest A1 ?x))"
      using r m False unfolding a_insert_matched_def Let_def by simp
    show ?thesis
    proof (cases "ord_remaining ?x = 0 \<or> ord_type ord = Market \<or> ord_tif ?x = ImmediateOrCancel")
      case True
      then show ?thesis using step spec b1(2,3) by (auto simp: Let_def)
    next
      case more: False
      then have "ord_type ord = Limit" by (cases "ord_type ord") auto
      then have "is_valid_price (bk_instrument b1) (ord_price ?x)"
        using ok mw(2) f(3) arg_cong[OF b1(3), of ab_instrument] by (simp add: a_validate_ok)
      moreover have "ord_id ?x \<notin> set (order_ids (book_abs b1 H1))"
        using ok mw(4) f(1) b1(3) by (auto simp: a_validate_ok)
      moreover have "pool_has_room (bk_pool b1)"
        using slot_free_subset[OF room(2) mw(4)] mw(1) slot_free_pool[OF b1(2)] b1(3) by (simp add: wf_book_def)
      moreover have "room_for (book_abs b1 H1) (ord_side ?x) (ord_remaining ?x)"
        using mw(3) room(1) sh f(4) b1(3) by (simp add: room_for_def shrunk_def word_le_nat_alt)
      ultimately obtain b2 H2 where "rest b1 ?x = Some b2" "book_rep b2 H2" "book_abs b2 H2 = a_rest A1 ?x"
        using rest_rep[OF b1(2)] b1(3) by blast
      then show ?thesis using step spec more by (auto simp: Let_def)
    qed
  qed
qed

lemma book_insert_rep:
  assumes rep: "book_rep b H" and wf: "wf_book (book_abs b H)"
    and room: "room_for (book_abs b H) (ord_side ord) (ord_remaining ord)" "slot_free (book_abs b H)"
    and r: "a_insert (book_abs b H) ord out = (res, out', A')"
  shows "\<exists>b' H'. book_insert b ord out = Some (res, out', b') \<and> book_rep b' H' \<and> book_abs b' H' = A'"
proof (cases "a_validate (book_abs b H) ord = RejectNone \<and> \<not> (ord_post_only ord \<and> a_would_cross (book_abs b H) ord)")
  case True
  then have "book_insert b ord out = insert_matched b ord out" "a_insert_matched (book_abs b H) ord out = (res, out', A')"
    using validate_rep[OF rep] would_cross_rep[OF rep] r by (auto simp: book_insert_def a_insert_def Let_def)
  then show ?thesis using insert_matched_rep[OF rep wf _ room] True by simp
next
  case False
  then show ?thesis using validate_rep[OF rep] would_cross_rep[OF rep] r rep
    by (auto simp: book_insert_def a_insert_def Let_def split: if_splits)
qed

lemma submit_rep:
  assumes "book_rep b H" and "wf_book (book_abs b H)"
    and "room_for (book_abs b H) (ord_side ord) (ord_quantity ord)" "slot_free (book_abs b H)"
    and "a_submit (book_abs b H) ord out = (res, out', A')"
  shows "\<exists>b' H'. submit b ord out = Some (res, out', b') \<and> book_rep b' H' \<and> book_abs b' H' = A'"
  using book_insert_rep[OF assms(1,2), of "ord\<lparr>ord_remaining := ord_quantity ord\<rparr>" out] assms(3-5)
  by (simp add: submit_def a_submit_def)

end
