(* ===== verification/Book_Amend.thy ===== *)
theory Book_Amend
  imports Book_Commands
begin

text \<open>Cancelling and replacing against the specification.\<close>

section \<open>Finding an order on its side\<close>

lemma take_out_at:
  assumes "distinct (map ord_id (side_orders (ls @ (p, as @ x # bs) # ms)))" and "\<forall>l\<in>set (ls @ ms). snd l \<noteq> []"
  shows "take_out (ord_id x) (ls @ (p, as @ x # bs) # ms) = ls @ (if as @ bs = [] then [] else [(p, as @ bs)]) @ ms"
proof -
  let ?o = "ord_id x"
  have keep: "filter (\<lambda>y. ord_id y \<noteq> ?o) q = q" if "?o \<notin> ord_id ` set q" for q
    using that by (metis (mono_tags, lifting) filter_True image_eqI)
  have "take_out ?o ks = ks" if "\<forall>l\<in>set ks. snd l \<noteq> []" "?o \<notin> ord_id ` set (side_orders ks)" for ks
    using that by (induction ks) (auto simp: take_out_def keep image_Un)
  moreover have "?o \<notin> ord_id ` set (side_orders ls)" "?o \<notin> ord_id ` set (side_orders ms)"
    using assms(1) by auto
  ultimately have "take_out ?o ls = ls" "take_out ?o ms = ms" using assms(2) by auto
  moreover have "filter (\<lambda>y. ord_id y \<noteq> ?o) (as @ x # bs) = as @ bs" using assms(1) by (auto simp: keep)
  ultimately show ?thesis by (auto simp: take_out_def)
qed

lemma rewrite_order_at:
  assumes "distinct (map ord_id (side_orders (ls @ (p, as @ x # bs) # ms)))"
  shows "rewrite_order (ord_id x) g (ls @ (p, as @ x # bs) # ms) = ls @ (p, as @ g x # bs) # ms"
proof -
  let ?o = "ord_id x"
  have keep: "map (\<lambda>y. if ord_id y = ?o then g y else y) q = q" if "?o \<notin> ord_id ` set q" for q
    using that by (induction q) auto
  have "rewrite_order ?o g ks = ks" if "?o \<notin> ord_id ` set (side_orders ks)" for ks
    using that by (induction ks) (auto simp: rewrite_order_def keep image_Un)
  moreover have "?o \<notin> ord_id ` set (side_orders ls)" "?o \<notin> ord_id ` set (side_orders ms)"
      "?o \<notin> ord_id ` set as" "?o \<notin> ord_id ` set bs"
    using assms(1) by auto
  ultimately show ?thesis by (simp add: rewrite_order_def keep)
qed

text \<open>Where a live handle is queued.\<close>

lemma locate_handle:
  assumes rep: "book_rep b H" and wf: "wf_book (book_abs b H)" and h: "h \<in> set (all_handles H)"
  defines "x \<equiv> ordr (bk_pool b) h"
  obtains xs i as bs ys where "H (ord_side x) = xs @ (i, as @ h # bs) # ys"
    "ladder_find (book_levels (ord_side x) b) (ord_price x) = Some (Some i)"
proof -
  obtain s where s: "h \<in> set (handles (H s))" using h by (auto simp: all_handles_def)
  then obtain m where m: "m \<in> set (H s)" "h \<in> set (snd m)" by (auto simp: handles_def)
  obtain i q where m': "m = (i, q)" by (cases m)
  obtain xs ys where xy: "H s = xs @ (i, q) # ys" using m(1) m' by (meson split_list)
  obtain as bs where q: "q = as @ h # bs" using m(2) m' by (metis snd_conv split_list)
  let ?l = "book_levels s b"
  have "level_abs (bk_pool b) ?l (i, q) \<in> set (ab_levels (book_abs b H) s)" by (simp add: book_abs_levels xy)
  then have "wf_order (bk_instrument b) s (price_at ?l i) x"
    using wf m(2) m' unfolding wf_book_def wf_side_def wf_level_def x_def
    by (metis (no_types, lifting) book_abs_fields(1) fst_conv image_eqI level_abs_def list.set_map snd_conv)
  then have f: "ord_side x = s" "ord_price x = price_at ?l i" by (auto simp: wf_order_def)
  note side = book_rep_side[OF rep, of s]
  have lr: "ladder_rep ?l (set (map fst (H s)))" using side by (simp add: side_rep_def)
  have "i \<in> set (map fst (H s))" by (simp add: xy)
  moreover have "index_of ?l (price_at ?l i) = Some i"
    using price_at_index[OF lr] ladder_rep_index[OF lr] calculation by simp
  ultimately have "ladder_find ?l (ord_price x) = Some (Some i)" using ladder_find_rep[OF lr] f(2) by simp
  then show ?thesis using that xy q f(1) by blast
qed

lemma wf_side_at:
  assumes wf: "wf_book (book_abs b H)" and Hs: "H s = xs @ (i, as @ h # bs) # ys"
  defines "p \<equiv> bk_pool b" and "l \<equiv> book_levels s b"
  shows "distinct (map ord_id (side_orders (side_abs p l xs @ (price_at l i, map (ordr p) as @ ordr p h # map (ordr p) bs) # side_abs p l ys)))"
    and "\<forall>m\<in>set (side_abs p l xs @ side_abs p l ys). snd m \<noteq> []"
    and "ab_levels (book_abs b H) s = side_abs p l xs @ (price_at l i, map (ordr p) as @ ordr p h # map (ordr p) bs) # side_abs p l ys"
proof -
  show lv: "ab_levels (book_abs b H) s = side_abs p l xs @ (price_at l i, map (ordr p) as @ ordr p h # map (ordr p) bs) # side_abs p l ys"
    by (simp add: book_abs_levels Hs level_abs_def p_def l_def)
  show "distinct (map ord_id (side_orders (side_abs p l xs @ (price_at l i, map (ordr p) as @ ordr p h # map (ordr p) bs) # side_abs p l ys)))"
    using wf unfolding wf_book_def distinct_order_ids[of "book_abs b H" s] lv by (simp del: map_append)
  show "\<forall>m\<in>set (side_abs p l xs @ side_abs p l ys). snd m \<noteq> []"
  proof -
    have "\<forall>m\<in>set (ab_levels (book_abs b H) s). snd m \<noteq> []" using wf by (simp add: wf_book_def wf_side_def wf_level_def)
    then show ?thesis unfolding lv by simp
  qed
qed

section \<open>Cancelling\<close>

lemma erase_if_empty_fields:
  "erase_if_empty s i (b\<lparr>bk_pool := p, bk_index := ix\<rparr>) =
   map_option (\<lambda>b. b\<lparr>bk_pool := p, bk_index := ix\<rparr>) (erase_if_empty s i b)"
  by (cases s; simp add: erase_if_empty_def book_levels_def set_book_levels_def map_option_bind comp_def
      split: Option.bind_splits)

text \<open>
  \<open>cancel\<close> unlinks, erases an emptied level, then forgets the identifier and the slot; the
  matching loop does the same in another order.
\<close>

lemma cancel_as_drop:
  assumes find: "fhm_find (bk_index b) oid = Some (Some h)" and x: "pool_order (bk_pool b) h = Some x" "ord_id x = oid"
    and i: "ladder_find (book_levels (ord_side x) b) (ord_price x) = Some (Some i)"
    and b1: "drop_resting (ord_side x) i h b = Some b1" and b2: "erase_if_empty (ord_side x) i b1 = Some b2"
  shows "cancel b oid = Some (CancelResult_default\<lparr>cr_order := x\<rparr>, b2)"
proof -
  let ?s = "ord_side x"
  obtain lvl p1 lvl' l' ix' p2 r where d: "level_get (book_levels ?s b) i = Some lvl" "unlink (bk_pool b) lvl h = Some (p1, lvl')"
      "level_put (book_levels ?s b) i lvl' = Some l'" "fhm_erase (bk_index b) oid = Some (r, ix')" "release p1 h = Some p2"
      "b1 = (set_book_levels ?s b l')\<lparr>bk_pool := p2, bk_index := ix'\<rparr>"
    using b1 x by (auto simp: drop_resting_def bind_eq_Some_conv)
  let ?c = "(set_book_levels ?s b l')\<lparr>bk_pool := p1\<rparr>"
  have b1': "b1 = ?c\<lparr>bk_pool := p2, bk_index := ix'\<rparr>" using d(6) by simp
  obtain c where c: "erase_if_empty ?s i ?c = Some c" "b2 = c\<lparr>bk_pool := p2, bk_index := ix'\<rparr>"
    using b2 unfolding b1' erase_if_empty_fields by auto
  have cf: "bk_index c = bk_index b" "bk_pool c = p1"
    using c(1) by (auto simp: erase_if_empty_def bind_eq_Some_conv split: if_splits)
  have "unlink_resting ?s (ord_price x) h b = Some c" using i d(1-3) c(1) by (simp add: unlink_resting_def)
  then show ?thesis using find x d(4,5) cf c(2) by (simp add: cancel_def)
qed

lemma cancel_rep:
  assumes rep: "book_rep b H" and wf: "wf_book (book_abs b H)" and r: "a_cancel (book_abs b H) oid = (res, A')"
  shows "\<exists>b' H'. cancel b oid = Some (res, b') \<and> book_rep b' H' \<and> book_abs b' H' = A'"
proof (cases "a_find (book_abs b H) oid")
  case None
  then have "fhm_find (bk_index b) oid = Some None" using find_handle_rep[OF rep, of oid] by (auto split: option.splits)
  then show ?thesis using None r rep by (auto simp: cancel_def a_cancel_def)
next
  case (Some x)
  then obtain h where h: "fhm_find (bk_index b) oid = Some (Some h)" "h \<in> set (all_handles H)" "ord_id x = oid" "x = ordr (bk_pool b) h"
    using find_handle_rep[OF rep, of oid] by (auto split: option.splits)
  let ?s = "ord_side x"
  obtain xs i as bs ys where loc: "H ?s = xs @ (i, as @ h # bs) # ys" "ladder_find (book_levels ?s b) (ord_price x) = Some (Some i)"
    using locate_handle[OF rep wf h(2)] h(4) by metis
  let ?p = "bk_pool b" and ?l = "book_levels ?s b"
  let ?H1 = "H(?s := xs @ (i, as @ bs) # ys)"
  obtain b1 where b1: "drop_resting ?s i h b = Some b1" "book_rep b1 ?H1"
      "book_abs b1 ?H1 = set_side ?s (book_abs b H) (at_tick ?p ?l xs i (map (ordr ?p) (as @ bs)) ys)"
    using drop_resting_rep[OF rep loc(1)] by (elim exE conjE) (rule that)
  have H1: "?H1 ?s = xs @ (i, as @ bs) # ys" by simp
  have lv: "ab_levels (book_abs b1 ?H1) ?s = at_tick ?p ?l xs i (map (ordr ?p) (as @ bs)) ys" by (simp add: b1(3))
  let ?H2 = "if as @ bs = [] then ?H1(?s := xs @ ys) else ?H1"
  obtain b2 where b2: "erase_if_empty ?s i b1 = Some b2" "book_rep b2 ?H2"
      "book_abs b2 ?H2 = (if as @ bs = [] then set_side ?s (book_abs b1 ?H1) (side_abs (bk_pool b1) (book_levels ?s b1) (xs @ ys))
        else book_abs b1 ?H1)"
    using erase_if_empty_rep[OF b1(2) H1] by (elim exE conjE) (rule that)
  have sp: "side_abs (bk_pool b1) (book_levels ?s b1) (xs @ ys) = side_abs ?p ?l (xs @ ys)"
    using lv unfolding book_abs_levels H1 by (simp add: at_tick_def side_abs_def append_eq_append_conv)
  have ord: "pool_order ?p h = Some x" using pool_order_live[OF book_rep_pool(1)[OF rep] h(2)] h(4) by simp
  note w = wf_side_at[OF wf loc(1)]
  have "take_out oid (ab_levels (book_abs b H) ?s) = side_abs ?p ?l xs @
      (if as @ bs = [] then [] else [(price_at ?l i, map (ordr ?p) (as @ bs))]) @ side_abs ?p ?l ys"
    unfolding w(3) using take_out_at[OF w(1,2)] h(3,4) by auto
  then have "book_abs b2 ?H2 = A'"
    using r Some b1(3) sp unfolding b2(3) by (auto simp: a_cancel_def at_tick_def)
  moreover have "res = CancelResult_default\<lparr>cr_order := x\<rparr>" using r Some by (simp add: a_cancel_def)
  ultimately show ?thesis using cancel_as_drop[OF h(1) ord h(3) loc(2) b1(1) b2(1)] b2(2) by blast
qed

section \<open>Replacing\<close>

lemma replace_in_place_rep:
  assumes rep: "book_rep b H" and wf: "wf_book (book_abs b H)" and h: "h \<in> set (all_handles H)" and x: "x = ordr (bk_pool b) h"
    and q: "\<not> q \<le> filled x" "q < ord_quantity x"
  shows "\<exists>b'. replace_in_place b h x q = Some b' \<and> book_rep b' H \<and>
    book_abs b' H = set_side (ord_side x) (book_abs b H) (rewrite_order (ord_id x)
      (\<lambda>y. y\<lparr>ord_quantity := q, ord_remaining := q - filled x\<rparr>) (ab_levels (book_abs b H) (ord_side x)))"
proof -
  let ?s = "ord_side x" and ?g = "\<lambda>y. y\<lparr>ord_quantity := q, ord_remaining := q - filled x\<rparr>"
  obtain xs i as bs ys where loc: "H ?s = xs @ (i, as @ h # bs) # ys" "ladder_find (book_levels ?s b) (ord_price x) = Some (Some i)"
    using locate_handle[OF rep wf h] x by metis
  note w = wf_side_at[OF wf loc(1)]
  have "x \<in> set (side_orders (ab_levels (book_abs b H) ?s))" unfolding w(3) by (simp add: x)
  then obtain l where "l \<in> set (ab_levels (book_abs b H) ?s)" "x \<in> set (snd l)" by (auto simp: side_orders_def)
  then have rem: "0 < ord_remaining x" "ord_remaining x \<le> ord_quantity x"
    using wf unfolding wf_book_def wf_side_def wf_level_def wf_order_def by blast+
  note rr = reduced_remaining[OF rem q]
  let ?d = "ord_remaining x - (q - filled x)"
  have d: "?d \<le> ord_remaining x" using rr(3) by (simp add: word_le_nat_alt unat_sub word_less_nat_alt)
  obtain b' where b': "do { b1 \<leftarrow> reduce_level ?s i ?d b; set_resting h (?g x) b1 } = Some b'" "book_rep b' H"
      "book_abs b' H = set_side ?s (book_abs b H) (at_tick (bk_pool b) (book_levels ?s b) xs i
        (map (ordr (bk_pool b)) as @ ?g x # map (ordr (bk_pool b)) bs) ys)"
    using shrink_resting_rep[OF rep loc(1), of ?d "?g x"] d x by auto
  have "replace_in_place b h x q = Some b'"
    using b'(1) loc(2) pool_order_live[OF book_rep_pool(1)[OF rep] h] x rr(3) by (simp add: replace_in_place_def)
  moreover have "rewrite_order (ord_id x) ?g (ab_levels (book_abs b H) ?s) = at_tick (bk_pool b) (book_levels ?s b) xs i
      (map (ordr (bk_pool b)) as @ ?g x # map (ordr (bk_pool b)) bs) ys"
    unfolding w(3) using rewrite_order_at[OF w(1), of ?g] by (simp add: at_tick_def x)
  ultimately show ?thesis using b'(2,3) by auto
qed

text \<open>The slab never holds more orders than there are handles, so a cancelled order leaves a free slot.\<close>

lemma slots_bound:
  assumes rep: "book_rep b H"
  shows "length (all_orders (book_abs b H)) \<le> unat kNullHandle"
proof -
  have "set (all_handles H) \<subseteq> UNIV - {kNullHandle}" using pool_rep_notnull[OF book_rep_pool(1)[OF rep]] by auto
  then have "card (set (all_handles H)) \<le> card (UNIV - {kNullHandle} :: OrderHandle set)" by (intro card_mono) auto
  also have "\<dots> = unat kNullHandle" by (simp add: card_word kNullHandle_def unsigned_minus_1_eq_mask mask_eq_exp_minus_1)
  finally show ?thesis using rep distinct_card[of "all_handles H"] by (simp add: all_orders_abs book_rep_def)
qed

lemma slot_after_cancel:
  assumes rep: "book_rep b H" and wf: "wf_book (book_abs b H)" and c: "a_cancel (book_abs b H) oid = (c, A1)"
    and x: "a_find (book_abs b H) oid = Some x"
  shows "slot_free A1"
proof -
  let ?A = "book_abs b H"
  note cw = a_cancel_wf[OF wf c]
  have "oid \<in> set (order_ids ?A)" using a_find_None[of ?A oid] x by simp
  then have "card (set (order_ids A1)) < card (set (order_ids ?A))" using cw(3) by (metis List.finite_set card_Diff1_less)
  moreover have "card (set (order_ids A1)) = length (all_orders A1)" using cw(1) distinct_card[of "order_ids A1"]
    by (simp add: wf_book_def order_ids_def)
  moreover have "card (set (order_ids ?A)) \<le> length (all_orders ?A)" by (metis card_length length_map order_ids_def)
  ultimately show ?thesis using slots_bound[OF rep] by (simp add: slot_free_def)
qed

lemma replace_rep:
  assumes rep: "book_rep b H" and wf: "wf_book (book_abs b H)" and room: "\<And>s. room_for (book_abs b H) s q"
    and r: "a_replace (book_abs b H) oid p q n t out = (res, out', A')"
  shows "\<exists>b' H'. replace b oid p q n t out = Some (res, out', b') \<and> book_rep b' H' \<and> book_abs b' H' = A'"
proof (cases "a_find (book_abs b H) oid")
  case None
  then have "fhm_find (bk_index b) oid = Some None" using find_handle_rep[OF rep, of oid] by (auto split: option.splits)
  then show ?thesis using None r rep by (auto simp: replace_def a_replace_def)
next
  case (Some x)
  let ?A = "book_abs b H"
  obtain h where h: "fhm_find (bk_index b) oid = Some (Some h)" "h \<in> set (all_handles H)" "ord_id x = oid" "x = ordr (bk_pool b) h"
    using Some find_handle_rep[OF rep, of oid] by (auto split: option.splits)
  have ord: "pool_order (bk_pool b) h = Some x" using pool_order_live[OF book_rep_pool(1)[OF rep] h(2)] h(4) by simp
  obtain c A1 where c: "a_cancel ?A oid = (c, A1)" by (metis surj_pair)
  obtain b1 H1 where b1: "cancel b oid = Some (c, b1)" "book_rep b1 H1" "book_abs b1 H1 = A1" using cancel_rep[OF rep wf c] by blast
  note unf = replace_def[of b oid p q n t out] a_replace_def[of ?A oid p q n t out]
  consider (price) "\<not> is_valid_price (bk_instrument b) p" | (qty) "is_valid_price (bk_instrument b) p" "\<not> is_valid_quantity (bk_instrument b) q"
    | (gone) "is_valid_price (bk_instrument b) p" "is_valid_quantity (bk_instrument b) q" "q \<le> filled x"
    | (less) "is_valid_price (bk_instrument b) p" "is_valid_quantity (bk_instrument b) q" "\<not> q \<le> filled x"
        "p = ord_price x" "q < ord_quantity x"
    | (requeue) "is_valid_price (bk_instrument b) p" "is_valid_quantity (bk_instrument b) q" "\<not> q \<le> filled x"
        "\<not> (p = ord_price x \<and> q < ord_quantity x)" by blast
  then show ?thesis
  proof cases
    case price
    then show ?thesis using r h(1) ord Some rep unfolding unf by auto
  next
    case qty
    then show ?thesis using r h(1) ord Some rep unfolding unf by auto
  next
    case gone
    then show ?thesis using r h(1) ord Some b1 c unfolding unf by auto
  next
    case less
    obtain b2 where b2: "replace_in_place b h x q = Some b2" "book_rep b2 H" "book_abs b2 H = set_side (ord_side x) ?A
        (rewrite_order oid (\<lambda>y. y\<lparr>ord_quantity := q, ord_remaining := q - filled x\<rparr>) (ab_levels ?A (ord_side x)))"
      using replace_in_place_rep[OF rep wf h(2,4) less(3,5)] h(3) by auto
    then show ?thesis using less r h(1) ord Some unfolding unf by (auto simp: Let_def)
  next
    case requeue
    let ?x = "amended_order x p q n t"
    obtain sr so A2 where i: "a_insert A1 ?x out = (sr, so, A2)" by (metis surj_pair)
    note cw = a_cancel_wf[OF wf c]
    have "room_for A1 (ord_side x) (q - filled x)"
      using room[of "ord_side x"] cw(4)[of "ord_side x"] unfilled_le[OF requeue(3)]
      by (auto simp: room_for_def word_le_nat_alt)
    then obtain b2 H2 where b2: "book_insert b1 ?x out = Some (sr, so, b2)" "book_rep b2 H2" "book_abs b2 H2 = A2"
      using book_insert_rep[OF b1(2), of ?x out sr so A2] cw(1) slot_after_cancel[OF rep wf c Some] i b1(3) by auto
    have "cr_accepted c" using c Some by (auto simp: a_cancel_def cr_accepted_def CancelResult_default_def)
    then have "replace b oid p q n t out = Some (ReplaceResult_default\<lparr>rr_previous := x, rr_reject := sr_reject sr,
         rr_filled := sr_filled sr, rr_stp_cancelled := sr_stp_cancelled sr,
         rr_rested := sr_rested sr, rr_priority_retained := False\<rparr>, so, b2)"
      using requeue h(1) ord b1(1) b2(1) unfolding unf by (auto simp: replace_requeue_def)
    moreover have "(res, out', A') = (ReplaceResult_default\<lparr>rr_previous := x, rr_reject := sr_reject sr,
         rr_filled := sr_filled sr, rr_stp_cancelled := sr_stp_cancelled sr,
         rr_rested := sr_rested sr, rr_priority_retained := False\<rparr>, so, A2)"
      using requeue r Some c i unfolding unf by (auto simp: Let_def)
    ultimately show ?thesis using b2(2,3) by blast
  qed
qed

section \<open>The empty book\<close>

lemma OrderBook_new_rep:
  assumes "ins_tick_size ins > 0"
  shows "\<exists>b. OrderBook_new ins n = Some b \<and> book_rep b (\<lambda>_. []) \<and> book_abs b (\<lambda>_. []) = ABook_new ins"
proof -
  obtain ix where ix: "FlatHashMap_new (n * 2) = Some ix" "fhm_rep ix Map.empty" using FlatHashMap_new_rep by blast
  have "0 < tick_count ins" by (simp add: tick_count_def)
  then obtain l where l: "configure (ladder_base ins) (ins_tick_size ins) (tick_count ins) = Some l" "ladder_rep l {}"
      "length (lad_levels l) = tick_count ins" "lad_min_price l = ladder_base ins" "lad_tick l = ins_tick_size ins"
    using configure_rep[OF assms, of "tick_count ins" "ladder_base ins"] by auto
  let ?b = "\<lparr>bk_instrument = ins, bk_pool = OrderPool_new n, bk_bids = l, bk_asks = l, bk_index = ix, bk_next_trade_id = 1\<rparr>"
  have lv: "book_levels s ?b = l" for s by (cases s) (simp_all add: book_levels_def)
  have "index_rep ix p {}" for p unfolding index_rep_def using ix(2) by (intro exI[of _ Map.empty]) simp
  then have "book_rep ?b (\<lambda>_. [])"
    using l OrderPool_new_rep[of n] by (simp add: book_rep_def lv all_handles_def side_rep_def band_ok_def)
  moreover have "book_abs ?b (\<lambda>_. []) = ABook_new ins" by (simp add: book_abs_def ABook_new_def)
  ultimately show ?thesis using ix(1) l(1) by (simp add: OrderBook_new_def)
qed

end
