(* ===== verification/Book_Machine.thy ===== *)
theory Book_Machine
  imports Book_Amend
begin

text \<open>
  The order book as a machine.  \<open>book_inv b A\<close> says that the book of the code represents the well
  formed abstract book \<open>A\<close>; every command keeps it and does to \<open>A\<close> what the specification says.
  The capacities the code relies on are stated with the book's own queries.  A book is reachable
  when it is made by the constructor and driven by commands that fit those capacities.
\<close>

section \<open>Commands and capacities\<close>

datatype BookCommand =
    BookSubmit Order
  | BookCancel OrderId
  | BookReplace OrderId Price Quantity SeqNum Nanos

definition book_step :: "BookCommand \<Rightarrow> OrderBook \<Rightarrow> OrderBook option" where
  "book_step c b = (case c of
       BookSubmit ord \<Rightarrow> do { (_, _, b') \<leftarrow> submit b ord ([], None); Some b' }
     | BookCancel oid \<Rightarrow> do { (_, b') \<leftarrow> cancel b oid; Some b' }
     | BookReplace oid p q n t \<Rightarrow> do { (_, _, b') \<leftarrow> replace b oid p q n t ([], None); Some b' })"

text \<open>The running total of a side stays within 64 bits.\<close>

definition side_has_room :: "OrderBook \<Rightarrow> Side \<Rightarrow> Quantity \<Rightarrow> bool" where
  "side_has_room b s q \<longleftrightarrow> (case total_quantity b s of None \<Rightarrow> False | Some t \<Rightarrow> unat t + unat q < 2 ^ 64)"

text \<open>The slab has a handle left.\<close>

definition slab_has_room :: "OrderBook \<Rightarrow> bool" where
  "slab_has_room b \<longleftrightarrow> resting_order_count b < unat kNullHandle"

definition fits_book :: "BookCommand \<Rightarrow> OrderBook \<Rightarrow> bool" where
  "fits_book c b = (case c of
       BookSubmit ord \<Rightarrow> side_has_room b (ord_side ord) (ord_quantity ord) \<and> slab_has_room b
     | BookCancel oid \<Rightarrow> True
     | BookReplace oid p q n t \<Rightarrow> side_has_room b Buy q \<and> side_has_room b Sell q)"

text \<open>A sequence of commands, each of which fits the book it meets.\<close>

fun run_fits :: "BookCommand list \<Rightarrow> OrderBook \<Rightarrow> bool" where
  "run_fits [] b = True"
| "run_fits (c # cs) b = (fits_book c b \<and> (case book_step c b of None \<Rightarrow> True | Some b' \<Rightarrow> run_fits cs b'))"

definition book_inv :: "OrderBook \<Rightarrow> ABook \<Rightarrow> bool" where
  "book_inv b A \<longleftrightarrow> (\<exists>H. book_rep b H \<and> book_abs b H = A) \<and> wf_book A"

inductive reachable :: "Instrument \<Rightarrow> OrderBook \<Rightarrow> bool" for ins where
  start: "ins_tick_size ins > 0 \<Longrightarrow> OrderBook_new ins n = Some b \<Longrightarrow> reachable ins b"
| step: "reachable ins b \<Longrightarrow> fits_book c b \<Longrightarrow> book_step c b = Some b' \<Longrightarrow> reachable ins b'"

section \<open>The commands keep the representation\<close>

lemma book_invE:
  assumes "book_inv b A"
  obtains H where "book_rep b H" "book_abs b H = A" "wf_book A"
  using assms by (auto simp: book_inv_def)

lemma book_inv_wf: "book_inv b A \<Longrightarrow> wf_book A"
  by (simp add: book_inv_def)

lemma book_inv_room:
  assumes "book_inv b A"
  shows "side_has_room b s q \<longleftrightarrow> room_for A s q" and "slab_has_room b \<longleftrightarrow> slot_free A"
proof -
  obtain H where H: "book_rep b H" "book_abs b H = A" "wf_book A" using assms by (rule book_invE)
  have "side_fits (ab_levels A s)" using H(3) by (simp add: wf_book_def)
  then show "side_has_room b s q \<longleftrightarrow> room_for A s q"
    using total_quantity_rep[OF H(1), of s] H(2)
    by (simp add: side_has_room_def room_for_def side_fits_def unat_of_nat take_bit_nat_eq_self)
  show "slab_has_room b \<longleftrightarrow> slot_free A"
    using resting_order_count_rep[OF H(1)] H(2) by (simp add: slab_has_room_def slot_free_def)
qed

lemma book_inv_submit:
  assumes inv: "book_inv b A" and room: "side_has_room b (ord_side ord) (ord_quantity ord)" "slab_has_room b"
    and r: "a_submit A ord out = (res, out', A')"
  shows "\<exists>b'. submit b ord out = Some (res, out', b') \<and> book_inv b' A'"
proof -
  obtain H where H: "book_rep b H" "book_abs b H = A" "wf_book A" using inv by (rule book_invE)
  have rm: "room_for A (ord_side ord) (ord_quantity ord)" "slot_free A" using room book_inv_room[OF inv] by auto
  then obtain b' H' where "submit b ord out = Some (res, out', b')" "book_rep b' H'" "book_abs b' H' = A'"
    using submit_rep[OF H(1)] H(2,3) r by metis
  then show ?thesis using a_submit_wf(1)[OF H(3) r rm(1)] by (auto simp: book_inv_def)
qed

lemma book_inv_cancel:
  assumes inv: "book_inv b A" and r: "a_cancel A oid = (res, A')"
  shows "\<exists>b'. cancel b oid = Some (res, b') \<and> book_inv b' A'"
proof -
  obtain H where H: "book_rep b H" "book_abs b H = A" "wf_book A" using inv by (rule book_invE)
  then obtain b' H' where "cancel b oid = Some (res, b')" "book_rep b' H'" "book_abs b' H' = A'"
    using cancel_rep[OF H(1)] r by metis
  then show ?thesis using a_cancel_wf(1)[OF H(3) r] by (auto simp: book_inv_def)
qed

lemma book_inv_replace:
  assumes inv: "book_inv b A" and room: "side_has_room b Buy q" "side_has_room b Sell q"
    and r: "a_replace A oid p q n t out = (res, out', A')"
  shows "\<exists>b'. replace b oid p q n t out = Some (res, out', b') \<and> book_inv b' A'"
proof -
  obtain H where H: "book_rep b H" "book_abs b H = A" "wf_book A" using inv by (rule book_invE)
  have rm: "room_for A s q" for s using room book_inv_room(1)[OF inv] by (cases s) auto
  obtain b' H' where "replace b oid p q n t out = Some (res, out', b')" "book_rep b' H'" "book_abs b' H' = A'"
    using replace_rep[OF H(1), of q oid p n t out res out' A'] H(2,3) rm r by auto
  then show ?thesis using a_replace_wf(1)[OF H(3) r rm] by (auto simp: book_inv_def)
qed

lemma book_inv_new:
  assumes "ins_tick_size ins > 0"
  shows "\<exists>b. OrderBook_new ins n = Some b \<and> book_inv b (ABook_new ins)"
  using OrderBook_new_rep[OF assms, of n] ABook_new_wf[of ins] by (auto simp: book_inv_def)

lemma book_step_inv:
  assumes inv: "book_inv b A" and fits: "fits_book c b"
  shows "\<exists>b' A'. book_step c b = Some b' \<and> book_inv b' A' \<and> ab_instrument A' = ab_instrument A"
proof (cases c)
  case (BookSubmit ord)
  obtain res out' A' where r: "a_submit A ord ([], None) = (res, out', A')" by (metis surj_pair)
  have room: "side_has_room b (ord_side ord) (ord_quantity ord)" "slab_has_room b"
    using fits BookSubmit by (auto simp: fits_book_def)
  have "room_for A (ord_side ord) (ord_quantity ord)" using book_inv_room(1)[OF inv] room by simp
  then show ?thesis using book_inv_submit[OF inv room r] a_submit_wf(2)[OF book_inv_wf[OF inv] r] BookSubmit by (auto simp: book_step_def)
next
  case (BookCancel oid)
  obtain res A' where r: "a_cancel A oid = (res, A')" by (metis surj_pair)
  then show ?thesis using book_inv_cancel[OF inv r] a_cancel_wf(2)[OF book_inv_wf[OF inv] r] BookCancel by (auto simp: book_step_def)
next
  case (BookReplace oid p q n t)
  obtain res out' A' where r: "a_replace A oid p q n t ([], None) = (res, out', A')" by (metis surj_pair)
  have room: "side_has_room b Buy q" "side_has_room b Sell q" using fits BookReplace by (auto simp: fits_book_def)
  then have rm: "room_for A s q" for s using book_inv_room(1)[OF inv] by (cases s) auto
  show ?thesis using book_inv_replace[OF inv room r] a_replace_wf(2)[OF book_inv_wf[OF inv] r rm] BookReplace
    by (auto simp: book_step_def)
qed

lemma reachable_inv: "reachable ins b \<Longrightarrow> \<exists>A. book_inv b A \<and> ab_instrument A = ins"
proof (induction rule: reachable.induct)
  case (start n b)
  then show ?case using book_inv_new[of ins n] by (force simp: ABook_new_def)
next
  case (step b c b')
  then show ?case using book_step_inv by (metis option.inject)
qed

interpretation bk: safe_machine book_step fits_book "reachable ins" for ins
proof
  fix b c assume "reachable ins b" "fits_book c b"
  then show "\<exists>b'. book_step c b = Some b' \<and> reachable ins b'"
    using reachable_inv[of ins b] book_step_inv reachable.step by metis
qed

lemma run_fits_admissible: "run_fits cs b \<longleftrightarrow> bk.admissible_run cs b"
  by (induction cs arbitrary: b) (auto split: option.splits)

end
