(* ===== verification/Book_Effects.thy ===== *)
theory Book_Effects
  imports Book_Machine
begin

text \<open>
  What an accepted order does to the specification's book, collected in one lemma per aspect:
  which fills it makes and in which order, where its quantity goes, what is left of the side it
  met, and when it rests.
\<close>

section \<open>The course of an insertion\<close>

abbreviation insert_outputs :: "Order \<Rightarrow> Streams \<Rightarrow> Outputs" where
  "insert_outputs ord out \<equiv>
     \<lparr>out_incoming = ord, out_fills = fst out, out_withdrawals = snd out, out_stp_cancelled = 0\<rparr>"

abbreviation reach_of :: "Order \<Rightarrow> Price \<Rightarrow> bool" where
  "reach_of ord \<equiv> crosses_at (ord_type ord = Market) (ord_price ord) (is_buy ord)"

definition keeps_open :: "Order \<Rightarrow> Outputs \<Rightarrow> bool" where
  "keeps_open ord ou \<longleftrightarrow> in_remaining ou \<noteq> 0 \<and> ord_type ord \<noteq> Market \<and> ord_tif ord \<noteq> ImmediateOrCancel"

lemma a_insert_rejected:
  assumes "a_insert A ord out = (res, out', A')" "\<not> sr_accepted res"
  shows "out' = out" "A' = A" "sr_filled res = 0" "\<not> sr_rested res"
proof -
  have "out' = out \<and> A' = A \<and> sr_filled res = 0 \<and> \<not> sr_rested res"
    using assms unfolding a_insert_def a_insert_matched_def Let_def
    by (auto simp: sr_accepted_def SubmitResult_default_def split: if_splits prod.splits)
  then show "out' = out" "A' = A" "sr_filled res = 0" "\<not> sr_rested res" by auto
qed

lemma a_insert_accepted:
  assumes r: "a_insert A ord out = (res, out', A')" and acc: "sr_accepted res"
  obtains ls tid ou where
    "a_match_levels (ab_instrument A) (reach_of ord) (ab_levels A (opposite (ord_side ord)))
       (ab_next_trade_id A, insert_outputs ord out) = (ls, tid, ou)"
    "a_validate A ord = RejectNone" "ord_post_only ord \<longrightarrow> \<not> a_would_cross A ord"
    "ord_tif ord = FillOrKill \<longrightarrow>
       ord_remaining ord \<le> a_fillable A (opposite (ord_side ord)) (reach_of ord) (ord_remaining ord) (ord_account ord)"
    "out' = (out_fills ou, out_withdrawals ou)" "sr_stp_cancelled res = out_stp_cancelled ou"
    "sr_filled res = ord_remaining ord - in_remaining ou - out_stp_cancelled ou"
    "sr_rested res \<longleftrightarrow> keeps_open ord ou"
    "A' = (let A1 = (set_side (opposite (ord_side ord)) A ls)\<lparr>ab_next_trade_id := tid\<rparr>
       in if keeps_open ord ou then a_rest A1 (out_incoming ou) else A1)"
proof -
  let ?s = "opposite (ord_side ord)"
  obtain ls tid ou where m: "a_match_levels (ab_instrument A) (reach_of ord) (ab_levels A ?s)
      (ab_next_trade_id A, insert_outputs ord out) = (ls, tid, ou)" by (metis surj_pair)
  have "shrunk ord (out_incoming ou)" using a_match_levels_incoming[OF m] by simp
  then have tif: "ord_tif (out_incoming ou) = ord_tif ord"
    using order_core_fields[of "out_incoming ou" ord] by (simp add: shrunk_def)
  have am: "a_match A ?s (reach_of ord) (insert_outputs ord out) =
      ((set_side ?s A ls)\<lparr>ab_next_trade_id := tid\<rparr>, ou)" using m by (simp add: a_match_def)
  have v: "a_validate A ord = RejectNone" "ord_post_only ord \<longrightarrow> \<not> a_would_cross A ord"
    and im: "a_insert_matched A ord out = (res, out', A')"
    using r acc by (auto simp: a_insert_def Let_def sr_accepted_def SubmitResult_default_def split: if_splits)
  have fok: "\<not> (ord_tif ord = FillOrKill \<and>
      a_fillable A ?s (reach_of ord) (ord_remaining ord) (ord_account ord) < ord_remaining ord)"
    using im acc by (auto simp: a_insert_matched_def Let_def sr_accepted_def SubmitResult_default_def)
  note im' = im[unfolded a_insert_matched_def Let_def am if_not_P[OF fok] prod.case tif]
  show thesis
  proof (rule that[OF m v])
    show "ord_tif ord = FillOrKill \<longrightarrow>
        ord_remaining ord \<le> a_fillable A ?s (reach_of ord) (ord_remaining ord) (ord_account ord)"
      using fok by auto
  qed (use im' in \<open>auto simp: keeps_open_def Let_def SubmitResult_default_def split: if_splits\<close>)
qed

section \<open>Orders of a side\<close>

lemma wf_book_orders:
  assumes "wf_book A" "x \<in> set (side_orders (ab_levels A s))"
  shows "ord_side x = s" "ord_remaining x > 0" "ord_remaining x \<le> ord_quantity x" "ord_type x = Limit"
    "ord_tif x \<noteq> FillOrKill" "ord_tif x \<noteq> ImmediateOrCancel" "ord_instrument x = ins_id (ab_instrument A)"
    "is_valid_price (ab_instrument A) (ord_price x)"
  using assms by (fastforce simp: wf_book_def wf_side_def wf_level_def wf_order_def side_orders_def)+

lemma orders_of_side:
  assumes "wf_book A"
  shows "filter (\<lambda>x. ord_side x = s) (all_orders A) = side_orders (ab_levels A s)"
proof -
  have "filter (\<lambda>x. ord_side x = s) (side_orders (ab_levels A t)) = (if t = s then side_orders (ab_levels A t) else [])" for t
    using wf_book_orders(1)[OF assms] by (auto simp: filter_id_conv filter_empty_conv)
  then show ?thesis by (cases s) (simp_all add: all_orders_def)
qed

lemma priority_list_orders:
  assumes "wf_book A"
  shows "priority_list (ab_levels A s) = map (\<lambda>x. (ord_price x, ord_id x)) (side_orders (ab_levels A s))"
proof -
  have "\<forall>l \<in> set (ab_levels A s). \<forall>x \<in> set (snd l). ord_price x = fst l"
    using assms by (auto simp: wf_book_def wf_side_def wf_level_def wf_order_def)
  moreover have "priority_list ls = map (\<lambda>x. (ord_price x, ord_id x)) (side_orders ls)"
    if "\<forall>l \<in> set ls. \<forall>x \<in> set (snd l). ord_price x = fst l" for ls
    using that by (induction ls) (auto simp: priority_list_def side_orders_def)
  ultimately show ?thesis by blast
qed

section \<open>Effects of an accepted order\<close>

lemma a_rest_levels [simp]:
  "ab_levels (a_rest A x) t = (if t = ord_side x then a_queue_in (desc t) x (ab_levels A t) else ab_levels A t)"
  "ab_next_trade_id (a_rest A x) = ab_next_trade_id A" "ab_instrument (a_rest A x) = ab_instrument A"
  by (simp_all add: a_rest_def Let_def)

text \<open>The fills: in priority order, at prices the order reaches, numbered on from the last trade.\<close>

lemma a_insert_fills:
  assumes wf: "wf_book A" and r: "a_insert A ord (fs0, ws0) = (res, (fs, ws), A')" and acc: "sr_accepted res"
  obtains gs where "fs = fs0 @ gs" "ab_next_trade_id A' = ab_next_trade_id A + of_nat (length gs)"
    "map fill_id gs = trade_ids (ab_next_trade_id A) (length gs)"
    "\<forall>f \<in> set gs. fill_of (ab_instrument A) ord (fill_price f) (fill_resting_order f) f \<and> reach_of ord (fill_price f)"
    "subseq (map (\<lambda>f. (fill_price f, fill_resting_order f)) gs)
       (map (\<lambda>x. (ord_price x, ord_id x)) (side_orders (ab_levels A (opposite (ord_side ord)))))"
proof -
  from a_insert_accepted[OF r acc] obtain ls tid ou where
    m: "a_match_levels (ab_instrument A) (reach_of ord) (ab_levels A (opposite (ord_side ord)))
       (ab_next_trade_id A, insert_outputs ord (fs0, ws0)) = (ls, tid, ou)"
    and o: "(fs, ws) = (out_fills ou, out_withdrawals ou)"
    and A': "A' = (let A1 = (set_side (opposite (ord_side ord)) A ls)\<lparr>ab_next_trade_id := tid\<rparr>
       in if keeps_open ord ou then a_rest A1 (out_incoming ou) else A1)" by metis
  obtain gs where "fills_of_side (ab_instrument A) (reach_of ord) (ab_levels A (opposite (ord_side ord)))
      (ab_next_trade_id A) (insert_outputs ord (fs0, ws0)) gs tid ou"
    using a_match_levels_fills[OF m] wf_book_pos[OF wf] by blast
  then show thesis
    using o A' priority_list_orders[OF wf] by (intro that[of gs]) (auto simp: fills_of_side_def extends_by_def Let_def)
qed

text \<open>The side it met: a tail of what was there, of which the first order may be partly taken.\<close>

lemma a_insert_consumes:
  assumes r: "a_insert A ord out = (res, out', A')"
  shows "consumed (side_orders (ab_levels A (opposite (ord_side ord)))) (side_orders (ab_levels A' (opposite (ord_side ord))))"
proof (cases "sr_accepted res")
  case False
  then show ?thesis using a_insert_rejected[OF r] by (auto simp: consumed_def intro: exI[of _ "[]"])
next
  case True
  from a_insert_accepted[OF r True] obtain ls tid ou where
    m: "a_match_levels (ab_instrument A) (reach_of ord) (ab_levels A (opposite (ord_side ord)))
       (ab_next_trade_id A, insert_outputs ord out) = (ls, tid, ou)"
    and A': "A' = (let A1 = (set_side (opposite (ord_side ord)) A ls)\<lparr>ab_next_trade_id := tid\<rparr>
       in if keeps_open ord ou then a_rest A1 (out_incoming ou) else A1)" by metis
  have "ord_side (out_incoming ou) = ord_side ord"
    using a_match_levels_incoming[OF m] order_core_fields[of "out_incoming ou" ord] by (simp add: shrunk_def)
  then show ?thesis using a_match_levels_consumed[OF m] A' by (auto simp: Let_def)
qed

text \<open>Where the quantity goes.\<close>

lemma a_insert_accounts:
  assumes wf: "wf_book A" and r: "a_insert A ord (fs0, ws0) = (res, (fs, ws), A')" and acc: "sr_accepted res"
  obtains x where "order_core x = order_core ord"
    "unat (ord_remaining ord) + fill_total fs0 = fill_total fs + unat (sr_stp_cancelled res) + unat (ord_remaining x)"
    "fill_total fs0 + unat (sr_filled res) = fill_total fs"
    "sr_rested res \<longleftrightarrow> ord_remaining x \<noteq> 0 \<and> ord_type ord \<noteq> Market \<and> ord_tif ord \<noteq> ImmediateOrCancel"
    "ab_levels A' (ord_side ord) = (if sr_rested res then a_queue_in (desc (ord_side ord)) x (ab_levels A (ord_side ord))
       else ab_levels A (ord_side ord))"
proof -
  from a_insert_accepted[OF r acc] obtain ls tid ou where
    m: "a_match_levels (ab_instrument A) (reach_of ord) (ab_levels A (opposite (ord_side ord)))
       (ab_next_trade_id A, insert_outputs ord (fs0, ws0)) = (ls, tid, ou)"
    and o: "(fs, ws) = (out_fills ou, out_withdrawals ou)" "sr_stp_cancelled res = out_stp_cancelled ou"
      "sr_filled res = ord_remaining ord - in_remaining ou - out_stp_cancelled ou" "sr_rested res \<longleftrightarrow> keeps_open ord ou"
    and A': "A' = (let A1 = (set_side (opposite (ord_side ord)) A ls)\<lparr>ab_next_trade_id := tid\<rparr>
       in if keeps_open ord ou then a_rest A1 (out_incoming ou) else A1)" by metis
  let ?x = "out_incoming ou"
  have core: "order_core ?x = order_core ord" using a_match_levels_incoming[OF m] by (simp add: shrunk_def)
  note f = order_core_fields[OF core]
  have "stp_fits (insert_outputs ord (fs0, ws0))"
    using unsigned_less[of "ord_remaining ord", where 'a = nat] by (simp add: stp_fits_def)
  then have total: "unat (ord_remaining ord) + fill_total fs0 = fill_total fs + unat (out_stp_cancelled ou) + unat (in_remaining ou)"
    and fit: "unat (in_remaining ou) + unat (out_stp_cancelled ou) < 2 ^ 64"
    using a_match_levels_accounted[OF m] o(1) by (auto simp: accounted_def stp_fits_def)
  have ge: "fill_total fs0 \<le> fill_total fs"
    using a_insert_fills[OF wf r acc] by (metis fill_total_simps(3) le_add1)
  have "unat (sr_filled res) = unat (ord_remaining ord) - unat (in_remaining ou) - unat (out_stp_cancelled ou)"
    unfolding o(3) using total ge by (subst unat_sub, simp add: word_le_nat_alt unat_sub, subst unat_sub) (auto simp: word_le_nat_alt)
  then show thesis
    using that[OF core] total ge o A' f by (auto simp: keeps_open_def Let_def)
qed

text \<open>What the side it met loses is printed as fills or recorded as withdrawals.\<close>

lemma a_insert_printed:
  assumes r: "a_insert A ord (fs0, Some ws0) = (res, (fs, ws), A')"
  obtains ws' where "ws = Some ws'"
    "qty_sum (side_orders (ab_levels A (opposite (ord_side ord)))) + fill_total fs0 + wd_total ws0 =
     qty_sum (side_orders (ab_levels A' (opposite (ord_side ord)))) + fill_total fs + wd_total ws'"
proof (cases "sr_accepted res")
  case False
  then show ?thesis using a_insert_rejected[OF r] that by auto
next
  case True
  from a_insert_accepted[OF r True] obtain ls tid ou where
    m: "a_match_levels (ab_instrument A) (reach_of ord) (ab_levels A (opposite (ord_side ord)))
       (ab_next_trade_id A, insert_outputs ord (fs0, Some ws0)) = (ls, tid, ou)"
    and o: "(fs, ws) = (out_fills ou, out_withdrawals ou)"
    and A': "A' = (let A1 = (set_side (opposite (ord_side ord)) A ls)\<lparr>ab_next_trade_id := tid\<rparr>
       in if keeps_open ord ou then a_rest A1 (out_incoming ou) else A1)" by metis
  have side: "ord_side (out_incoming ou) = ord_side ord"
    using a_match_levels_incoming[OF m] order_core_fields[of "out_incoming ou" ord] by (simp add: shrunk_def)
  have p: "qty_sum (side_orders (ab_levels A (opposite (ord_side ord)))) + printed (insert_outputs ord (fs0, Some ws0)) =
      qty_sum (side_orders ls) + printed ou" "recording ou"
    using a_match_levels_printed[OF m] by (auto simp: recording_def)
  then obtain ws' where "out_withdrawals ou = Some ws'" by (auto simp: recording_def)
  then show ?thesis using p(1) o A' side by (intro that[of ws']) (auto simp: printed_def Let_def)
qed

text \<open>Fill-or-kill: an accepted one is traded in full.\<close>

lemma a_insert_fok:
  assumes wf: "wf_book A" and r: "a_insert A ord (fs0, ws0) = (res, (fs, ws), A')" and acc: "sr_accepted res"
    and fok: "ord_tif ord = FillOrKill"
  shows "fill_total fs = fill_total fs0 + unat (ord_remaining ord)" "\<not> sr_rested res" "sr_filled res = ord_remaining ord"
proof -
  from a_insert_accepted[OF r acc] obtain ls tid ou where
    m: "a_match_levels (ab_instrument A) (reach_of ord) (ab_levels A (opposite (ord_side ord)))
       (ab_next_trade_id A, insert_outputs ord (fs0, ws0)) = (ls, tid, ou)"
    and en: "ord_tif ord = FillOrKill \<longrightarrow>
       ord_remaining ord \<le> a_fillable A (opposite (ord_side ord)) (reach_of ord) (ord_remaining ord) (ord_account ord)"
    and o: "(fs, ws) = (out_fills ou, out_withdrawals ou)"
      "sr_filled res = ord_remaining ord - in_remaining ou - out_stp_cancelled ou" "sr_rested res \<longleftrightarrow> keeps_open ord ou" by metis
  have z: "in_remaining ou = 0 \<and> out_stp_cancelled ou = 0"
    using a_fillable_match[OF m] en fok wf wf_book_pos[OF wf] by (simp add: wf_book_def)
  then show "\<not> sr_rested res" "sr_filled res = ord_remaining ord" using o by (auto simp: keeps_open_def)
  then show "fill_total fs = fill_total fs0 + unat (ord_remaining ord)"
    using a_insert_accounts[OF wf r acc] by metis
qed

text \<open>Post-only: an accepted one meets nobody.\<close>

lemma a_insert_post_only:
  assumes r: "a_insert A ord (fs0, ws0) = (res, (fs, ws), A')" and acc: "sr_accepted res" and po: "ord_post_only ord"
  shows "fs = fs0" "ws = ws0" "sr_filled res = 0" "sr_stp_cancelled res = 0"
    "ab_levels A' (opposite (ord_side ord)) = ab_levels A (opposite (ord_side ord))"
proof -
  let ?s = "opposite (ord_side ord)"
  from a_insert_accepted[OF r acc] obtain ls tid ou where
    m: "a_match_levels (ab_instrument A) (reach_of ord) (ab_levels A ?s) (ab_next_trade_id A, insert_outputs ord (fs0, ws0)) = (ls, tid, ou)"
    and nc: "ord_post_only ord \<longrightarrow> \<not> a_would_cross A ord"
    and o: "(fs, ws) = (out_fills ou, out_withdrawals ou)" "sr_stp_cancelled res = out_stp_cancelled ou"
      "sr_filled res = ord_remaining ord - in_remaining ou - out_stp_cancelled ou"
    and A': "A' = (let A1 = (set_side ?s A ls)\<lparr>ab_next_trade_id := tid\<rparr>
       in if keeps_open ord ou then a_rest A1 (out_incoming ou) else A1)" by metis
  have "ab_levels A ?s = [] \<or> \<not> reach_of ord (fst (hd (ab_levels A ?s)))"
    using nc po by (cases "ord_side ord"; cases "ab_levels A ?s")
      (auto simp: a_would_cross_def a_best_def crosses_at_def is_buy_def split: if_splits)
  then have "a_match_levels (ab_instrument A) (reach_of ord) (ab_levels A ?s) st = (ab_levels A ?s, st)" for st
    by (cases "ab_levels A ?s") auto
  then have e: "ls = ab_levels A ?s" "ou = insert_outputs ord (fs0, ws0)" using m by auto
  then show "fs = fs0" "ws = ws0" "sr_filled res = 0" "sr_stp_cancelled res = 0" "ab_levels A' ?s = ab_levels A ?s"
    using o A' by (auto simp: Let_def)
qed

section \<open>Finding the order again\<close>

lemma a_find_iff:
  assumes "wf_book A"
  shows "a_find A oid = Some x \<longleftrightarrow> x \<in> set (all_orders A) \<and> ord_id x = oid"
proof
  assume "a_find A oid = Some x"
  then show "x \<in> set (all_orders A) \<and> ord_id x = oid" by (auto simp: a_find_def find_Some_iff)
next
  assume x: "x \<in> set (all_orders A) \<and> ord_id x = oid"
  then obtain y where y: "a_find A oid = Some y" using a_find_None[of A oid] by (cases "a_find A oid") (auto simp: order_ids_def)
  then have "y \<in> set (all_orders A)" "ord_id y = oid" by (auto simp: a_find_def find_Some_iff)
  then show "a_find A oid = Some x"
    using y x assms same_id_same_order[of "all_orders A" x y] by (auto simp: wf_book_def order_ids_def)
qed

lemma set_all_orders: "set (all_orders A) = (\<Union>s. set (side_orders (ab_levels A s)))"
proof -
  have u: "(UNIV :: Side set) = {Buy, Sell}" by (auto intro: Side.exhaust)
  show ?thesis unfolding u by (simp add: all_orders_def)
qed

lemma a_queue_in_set: "set (side_orders (a_queue_in d x ls)) = insert x (set (side_orders ls))"
  using a_queue_in_mset[of d x ls] by (metis set_mset_add_mset_insert set_mset_mset)

end
