(* ===== verification/Byte_Codec.thy ===== *)
theory Byte_Codec
  imports XC_Types
begin

text \<open>
  The byte codec (\<open>include/xc/util/byte_codec.hpp\<close>): little-endian writes into a byte vector and
  reads from input that may be malformed.  A reader latches its first failure; an access beyond
  the data makes the model go wrong, so \<open>safe\<close> readers are those that never leave their buffer.
  \<open>reads m bs v\<close> says that the reader \<open>m\<close> turns the bytes \<open>bs\<close> back into \<open>v\<close>; both notions compose
  along a run of reads, which is how every decoder of the system is built.
\<close>

section \<open>Writing\<close>

definition put_bytes :: "u64 \<Rightarrow> nat \<Rightarrow> u8 list" where
  "put_bytes value width = map (\<lambda>i. ucast (drop_bit (8 * i) value AND 0xFF)) [0..<width]"

definition bw_put :: "u8 list \<Rightarrow> u64 \<Rightarrow> nat \<Rightarrow> u8 list" where
  "bw_put out value width = out @ put_bytes value width"

definition bw_u8 :: "u8 \<Rightarrow> u8 list \<Rightarrow> u8 list" where
  "bw_u8 value out = out @ [value]"

definition bw_u16 :: "u16 \<Rightarrow> u8 list \<Rightarrow> u8 list" where
  "bw_u16 value out = bw_put out (ucast value) 2"

definition bw_u32 :: "u32 \<Rightarrow> u8 list \<Rightarrow> u8 list" where
  "bw_u32 value out = bw_put out (ucast value) 4"

definition bw_u64 :: "u64 \<Rightarrow> u8 list \<Rightarrow> u8 list" where
  "bw_u64 value out = bw_put out value 8"

text \<open>A signed value travels as its two's complement representation.\<close>

definition bw_i64 :: "int \<Rightarrow> u8 list \<Rightarrow> u8 list" where
  "bw_i64 value out = bw_u64 (word_of_int value) out"

definition bw_boolean :: "bool \<Rightarrow> u8 list \<Rightarrow> u8 list" where
  "bw_boolean value out = bw_u8 (if value then 1 else 0) out"

definition bw_string :: "string \<Rightarrow> u8 list \<Rightarrow> u8 list" where
  "bw_string value out = bw_u16 (of_nat (length value)) out @ map of_char value"

section \<open>Reading\<close>

record ByteReader =
  rd_data :: "u8 list"
  rd_offset :: nat
  rd_failed :: bool

definition ByteReader_new :: "u8 list \<Rightarrow> ByteReader" where
  "ByteReader_new data = \<lparr>rd_data = data, rd_offset = 0, rd_failed = False\<rparr>"

definition rd_request :: "nat \<Rightarrow> ByteReader \<Rightarrow> bool \<times> ByteReader" where
  "rd_request bytes r =
     (if rd_failed r \<or> length (rd_data r) - rd_offset r < bytes then (False, r\<lparr>rd_failed := True\<rparr>)
      else (True, r))"

fun take_loop :: "u8 list \<Rightarrow> nat \<Rightarrow> nat \<Rightarrow> nat \<Rightarrow> u64 \<Rightarrow> u64 option" where
  "take_loop data offset i 0 value = Some value"
| "take_loop data offset i (Suc n) value = do {
     byte \<leftarrow> vget data (offset + i);
     take_loop data offset (Suc i) n (value OR push_bit (8 * i) (ucast byte))
   }"

definition rd_take :: "nat \<Rightarrow> ByteReader \<Rightarrow> (u64 \<times> ByteReader) option" where
  "rd_take width r = (case rd_request width r of
       (False, r') \<Rightarrow> Some (0, r')
     | (True, r') \<Rightarrow> do {
         value \<leftarrow> take_loop (rd_data r') (rd_offset r') 0 width 0;
         Some (value, r'\<lparr>rd_offset := rd_offset r' + width\<rparr>)
       })"

definition rd_u8 :: "ByteReader \<Rightarrow> (u8 \<times> ByteReader) option" where
  "rd_u8 r = (case rd_request 1 r of
       (False, r') \<Rightarrow> Some (0, r')
     | (True, r') \<Rightarrow> do {
         byte \<leftarrow> vget (rd_data r') (rd_offset r');
         Some (byte, r'\<lparr>rd_offset := rd_offset r' + 1\<rparr>)
       })"

definition rd_u16 :: "ByteReader \<Rightarrow> (u16 \<times> ByteReader) option" where
  "rd_u16 r = do { (v, r') \<leftarrow> rd_take 2 r; Some (ucast v, r') }"

definition rd_u32 :: "ByteReader \<Rightarrow> (u32 \<times> ByteReader) option" where
  "rd_u32 r = do { (v, r') \<leftarrow> rd_take 4 r; Some (ucast v, r') }"

definition rd_u64 :: "ByteReader \<Rightarrow> (u64 \<times> ByteReader) option" where
  "rd_u64 r = rd_take 8 r"

definition rd_i64 :: "ByteReader \<Rightarrow> (int \<times> ByteReader) option" where
  "rd_i64 r = do { (v, r') \<leftarrow> rd_take 8 r; Some (sint v, r') }"

definition rd_boolean :: "ByteReader \<Rightarrow> (bool \<times> ByteReader) option" where
  "rd_boolean r = do {
     (value, r') \<leftarrow> rd_u8 r;
     if value > 1 then Some (False, r'\<lparr>rd_failed := True\<rparr>) else Some (value = 1, r')
   }"

definition rd_string :: "ByteReader \<Rightarrow> (string \<times> ByteReader) option" where
  "rd_string r = do {
     (len, r1) \<leftarrow> rd_u16 r;
     (case rd_request (unat len) r1 of
        (False, r2) \<Rightarrow> Some ([], r2)
      | (True, r2) \<Rightarrow> do {
          assert_that (rd_offset r2 + unat len \<le> length (rd_data r2));
          Some (map (\<lambda>b. char_of (unat b)) (take (unat len) (drop (rd_offset r2) (rd_data r2))),
                r2\<lparr>rd_offset := rd_offset r2 + unat len\<rparr>)
        })
   }"

text \<open>\<open>enumeration\<close>: \<open>cast\<close> is the \<open>static_cast\<close> from the byte.\<close>

definition rd_enumeration :: "(u8 \<Rightarrow> 'e) \<Rightarrow> u8 \<Rightarrow> ByteReader \<Rightarrow> ('e \<times> ByteReader) option" where
  "rd_enumeration cast highest r = do {
     (value, r') \<leftarrow> rd_u8 r;
     if value > highest then Some (cast 0, r'\<lparr>rd_failed := True\<rparr>) else Some (cast value, r')
   }"

definition rd_ok :: "ByteReader \<Rightarrow> bool" where
  "rd_ok r \<longleftrightarrow> \<not> rd_failed r"

definition rd_remaining :: "ByteReader \<Rightarrow> nat" where
  "rd_remaining r = (if rd_failed r then 0 else length (rd_data r) - rd_offset r)"

definition fully_consumed :: "ByteReader \<Rightarrow> bool" where
  "fully_consumed r \<longleftrightarrow> \<not> rd_failed r \<and> rd_offset r = length (rd_data r)"

section \<open>Bytes of a word\<close>

lemma put_bytes_length [simp]: "length (put_bytes v n) = n"
  by (simp add: put_bytes_def)

lemma put_bytes_nth [simp]: "i < n \<Longrightarrow> put_bytes v n ! i = ucast (drop_bit (8 * i) v AND 0xFF)"
  by (simp add: put_bytes_def)

text \<open>Reassembling \<open>n\<close> bytes gives the low \<open>8 n\<close> bits back.\<close>

lemma byte_at_bit:
  "bit (push_bit (8 * i) (ucast (ucast (drop_bit (8 * i) v AND 0xFF) :: u8)) :: u64) k \<longleftrightarrow>
     8 * i \<le> k \<and> k < 8 * i + 8 \<and> bit (v :: u64) k"
proof -
  have "(0xFF :: u64) = mask 8" by (simp add: mask_eq_exp_minus_1)
  then have "drop_bit (8 * i) v AND 0xFF = take_bit 8 (drop_bit (8 * i) v)" by (simp only: take_bit_eq_mask)
  then show ?thesis
    by (simp only: bit_push_bit_iff bit_unsigned_iff bit_take_bit_iff bit_drop_bit_eq)
      (auto dest: bit_imp_le_length)
qed

lemma take_loop_put:
  assumes "\<And>j. j < i + n \<Longrightarrow> offset + j < length data \<and> data ! (offset + j) = ucast (drop_bit (8 * j) v AND 0xFF)"
    and "8 * (i + n) \<le> 64"
  shows "take_loop data offset i n (take_bit (8 * i) v) = Some (take_bit (8 * (i + n)) v)"
  using assms
proof (induction n arbitrary: i)
  case 0
  then show ?case by simp
next
  case (Suc n)
  let ?b = "data ! (offset + i)"
  have b: "offset + i < length data" "?b = ucast (drop_bit (8 * i) v AND 0xFF)" using Suc.prems(1)[of i] by auto
  have "take_bit (8 * i) v OR push_bit (8 * i) (ucast ?b) = take_bit (8 * Suc i) v"
    unfolding b(2)
    by (rule bit_eqI) (auto simp: bit_or_iff byte_at_bit bit_take_bit_iff)
  then show ?case using Suc.IH[of "Suc i"] Suc.prems b(1) by simp
qed

section \<open>Readers that give back what was written\<close>

definition avail :: "ByteReader \<Rightarrow> u8 list \<Rightarrow> bool" where
  "avail r bs \<longleftrightarrow> \<not> rd_failed r \<and> rd_offset r \<le> length (rd_data r) \<and> drop (rd_offset r) (rd_data r) = bs"

definition reads :: "(ByteReader \<Rightarrow> ('a \<times> ByteReader) option) \<Rightarrow> u8 list \<Rightarrow> 'a \<Rightarrow> bool" where
  "reads m bs v \<longleftrightarrow> (\<forall>r post. avail r (bs @ post) \<longrightarrow> (\<exists>r'. m r = Some (v, r') \<and> avail r' post \<and> rd_data r' = rd_data r))"

named_theorems reads_intros \<open>readers that give back what was written\<close>

lemma reads_return [reads_intros]: "reads (\<lambda>r. Some (v, r)) [] v"
  by (simp add: reads_def)

lemma reads_bind [reads_intros]:
  assumes "reads m bs v" and "reads (f v) cs w"
  shows "reads (\<lambda>r. do { (a, r') \<leftarrow> m r; f a r' }) (bs @ cs) w"
  unfolding reads_def
proof (intro allI impI)
  fix r post assume "avail r ((bs @ cs) @ post)"
  then obtain r1 where r1: "m r = Some (v, r1)" "avail r1 (cs @ post)" "rd_data r1 = rd_data r"
    using assms(1) by (auto simp: reads_def)
  then obtain r2 where "f v r1 = Some (w, r2)" "avail r2 post" "rd_data r2 = rd_data r1"
    using assms(2) unfolding reads_def by blast
  then show "\<exists>r'. do { (a, r') \<leftarrow> m r; f a r' } = Some (w, r') \<and> avail r' post \<and> rd_data r' = rd_data r"
    using r1 by simp
qed

lemma avail_request:
  "avail r (bs @ post) \<Longrightarrow> rd_request (length bs) r = (True, r)"
proof -
  assume a: "avail r (bs @ post)"
  then have "length (rd_data r) - rd_offset r = length (bs @ post)"
    using length_drop[of "rd_offset r" "rd_data r"] by (simp add: avail_def)
  then show ?thesis using a by (simp add: avail_def rd_request_def)
qed

lemma avail_nth: "avail r bs \<Longrightarrow> i < length bs \<Longrightarrow> rd_offset r + i < length (rd_data r) \<and> rd_data r ! (rd_offset r + i) = bs ! i"
  by (auto simp: avail_def)

lemma avail_advance: "avail r (bs @ post) \<Longrightarrow> avail (r\<lparr>rd_offset := rd_offset r + length bs\<rparr>) post"
proof -
  assume a: "avail r (bs @ post)"
  then have d: "drop (rd_offset r) (rd_data r) = bs @ post" "rd_offset r \<le> length (rd_data r)" "\<not> rd_failed r"
    by (auto simp: avail_def)
  have "drop (rd_offset r + length bs) (rd_data r) = drop (length bs) (bs @ post)"
    unfolding d(1)[symmetric] by (simp add: add.commute)
  moreover have "rd_offset r + length bs \<le> length (rd_data r)"
    using arg_cong[OF d(1), of length] d(2) by simp
  ultimately show ?thesis using d(3) by (simp add: avail_def)
qed

lemma reads_take: "8 * n \<le> 64 \<Longrightarrow> reads (rd_take n) (put_bytes v n) (take_bit (8 * n) v)"
  unfolding reads_def
proof (intro allI impI)
  fix r post assume n: "8 * n \<le> 64" and a: "avail r (put_bytes v n @ post)"
  have "take_loop (rd_data r) (rd_offset r) 0 n (take_bit (8 * 0) v) = Some (take_bit (8 * (0 + n)) v)"
    using avail_nth[OF a] n by (intro take_loop_put) (simp_all add: nth_append)
  then show "\<exists>r'. rd_take n r = Some (take_bit (8 * n) v, r') \<and> avail r' post \<and> rd_data r' = rd_data r"
    using avail_request[OF a] avail_advance[OF a] by (simp add: rd_take_def)
qed

lemma reads_cast:
  assumes "reads m bs v"
  shows "reads (\<lambda>r. do { (a, r') \<leftarrow> m r; Some (g a, r') }) bs (g v)"
  using reads_bind[OF assms reads_return, of g] by simp

lemma reads_u64 [reads_intros]: "reads rd_u64 (put_bytes v 8) v"
  using reads_take[of 8 v] by (simp add: rd_u64_def[abs_def] take_bit_word_eq_self)

lemma reads_u32 [reads_intros]: "reads rd_u32 (put_bytes (ucast v) 4) v"
proof -
  have "ucast (take_bit 32 (ucast v :: u64)) = (v :: u32)"
    by (rule bit_eqI) (auto simp: bit_ucast_iff bit_take_bit_iff dest: bit_imp_le_length)
  then show ?thesis using reads_cast[OF reads_take[of 4 "ucast v"], of "ucast :: u64 \<Rightarrow> u32"] by (simp add: rd_u32_def[abs_def])
qed

lemma reads_u16 [reads_intros]: "reads rd_u16 (put_bytes (ucast v) 2) v"
proof -
  have "ucast (take_bit 16 (ucast v :: u64)) = (v :: u16)"
    by (rule bit_eqI) (auto simp: bit_ucast_iff bit_take_bit_iff dest: bit_imp_le_length)
  then show ?thesis using reads_cast[OF reads_take[of 2 "ucast v"], of "ucast :: u64 \<Rightarrow> u16"] by (simp add: rd_u16_def[abs_def])
qed

lemma reads_i64 [reads_intros]: "v \<in> i64_range \<Longrightarrow> reads rd_i64 (put_bytes (word_of_int v) 8) v"
proof -
  assume "v \<in> i64_range"
  then have "sint (word_of_int v :: u64) = v"
    by (simp add: i64_range_def signed_of_int signed_take_bit_int_eq_self)
  then show ?thesis using reads_cast[OF reads_take[of 8 "word_of_int v"], of "sint :: u64 \<Rightarrow> int"]
    by (simp add: rd_i64_def[abs_def] take_bit_word_eq_self)
qed

lemma reads_u8 [reads_intros]: "reads rd_u8 [v] v"
  unfolding reads_def
proof (intro allI impI)
  fix r post assume a: "avail r ([v] @ post)"
  then show "\<exists>r'. rd_u8 r = Some (v, r') \<and> avail r' post \<and> rd_data r' = rd_data r"
    using avail_request[OF a] avail_nth[OF a, of 0] avail_advance[OF a] by (simp add: rd_u8_def)
qed

lemma reads_boolean [reads_intros]: "reads rd_boolean [if v then 1 else 0] v"
proof -
  have "reads (\<lambda>r. if (if v then 1 else 0 :: u8) > 1 then Some (False, r\<lparr>rd_failed := True\<rparr>)
      else Some ((if v then 1 else 0 :: u8) = 1, r)) [] v"
    by (simp add: reads_return)
  from reads_bind[where f = "\<lambda>value r'. if value > 1 then Some (False, r'\<lparr>rd_failed := True\<rparr>) else Some (value = 1, r')", OF reads_u8 this]
  show ?thesis by (simp add: rd_boolean_def[abs_def])
qed

lemma reads_enumeration [reads_intros]:
  assumes "b \<le> highest" and "cast b = v"
  shows "reads (rd_enumeration cast highest) [b] v"
proof -
  have "reads (\<lambda>r. if b > highest then Some (cast 0, r\<lparr>rd_failed := True\<rparr>) else Some (cast b, r)) [] v"
    using assms by (simp add: leD reads_return)
  from reads_bind[where f = "\<lambda>value r'. if value > highest then Some (cast 0, r'\<lparr>rd_failed := True\<rparr>) else Some (cast value, r')", OF reads_u8 this]
  show ?thesis by (simp add: rd_enumeration_def[abs_def])
qed

lemma char_bytes: "map (\<lambda>b. char_of (unat b)) (map (of_char :: char \<Rightarrow> u8) xs) = xs"
proof -
  have "char_of (unat (of_char c :: u8)) = c" for c :: char
  proof -
    have "unat (of_nat (of_char c) :: u8) = (of_char c :: nat)"
      by (simp add: unat_of_nat take_bit_eq_mod)
    then show ?thesis by (simp add: of_nat_of_char)
  qed
  then show ?thesis by (simp add: comp_def)
qed

lemma reads_string [reads_intros]:
  assumes "length v < 2 ^ 16"
  shows "reads rd_string (put_bytes (ucast (of_nat (length v) :: u16)) 2 @ map of_char v) v"
proof -
  let ?n = "of_nat (length v) :: u16"
  have n: "unat ?n = length v" using assms by (simp add: unat_of_nat take_bit_nat_eq_self)
  let ?f = "\<lambda>len r1. case rd_request (unat len) r1 of
        (False, r2) \<Rightarrow> Some ([], r2)
      | (True, r2) \<Rightarrow> do {
          assert_that (rd_offset r2 + unat len \<le> length (rd_data r2));
          Some (map (\<lambda>b. char_of (unat b)) (take (unat len) (drop (rd_offset r2) (rd_data r2))),
                r2\<lparr>rd_offset := rd_offset r2 + unat len\<rparr>)
        }"
  have "reads (?f ?n) (map of_char v) v"
    unfolding reads_def n
  proof (intro allI impI)
    fix r post assume a: "avail r (map of_char v @ post)"
    have "rd_offset r + length v \<le> length (rd_data r)" using avail_advance[OF a] by (simp add: avail_def)
    moreover have "take (length v) (drop (rd_offset r) (rd_data r)) = map of_char v" using a by (simp add: avail_def)
    ultimately show "\<exists>r'. (case rd_request (length v) r of
        (False, r2) \<Rightarrow> Some ([], r2)
      | (True, r2) \<Rightarrow> do {
          assert_that (rd_offset r2 + length v \<le> length (rd_data r2));
          Some (map (\<lambda>b. char_of (unat b)) (take (length v) (drop (rd_offset r2) (rd_data r2))),
                r2\<lparr>rd_offset := rd_offset r2 + length v\<rparr>)
        }) = Some (v, r') \<and> avail r' post \<and> rd_data r' = rd_data r"
      using avail_request[OF a] avail_advance[OF a] char_bytes[of v] by simp
  qed
  from reads_bind[where f = ?f, OF reads_u16 this] show ?thesis by (simp add: rd_string_def[abs_def])
qed

section \<open>Readers that stay inside their buffer\<close>

definition reader_ok :: "ByteReader \<Rightarrow> bool" where
  "reader_ok r \<longleftrightarrow> rd_offset r \<le> length (rd_data r)"

definition safe :: "(ByteReader \<Rightarrow> ('a \<times> ByteReader) option) \<Rightarrow> bool" where
  "safe m \<longleftrightarrow> (\<forall>r. reader_ok r \<longrightarrow> (\<exists>v r'. m r = Some (v, r') \<and> reader_ok r' \<and> rd_data r' = rd_data r \<and>
     (rd_failed r \<longrightarrow> rd_failed r')))"

named_theorems safe_intros \<open>readers that stay inside their buffer\<close>

lemma safe_return [safe_intros]: "safe (\<lambda>r. Some (v, r))"
  by (simp add: safe_def)

lemma safe_fail [safe_intros]: "safe (\<lambda>r. Some (v, r\<lparr>rd_failed := True\<rparr>))"
  by (simp add: safe_def reader_ok_def)

lemma safe_if [safe_intros]: "safe m \<Longrightarrow> safe n \<Longrightarrow> safe (\<lambda>r. if b then m r else n r)"
  by (cases b) simp_all

lemma safe_bind [safe_intros]:
  assumes "safe m" and "\<And>a. safe (f a)"
  shows "safe (\<lambda>r. do { (a, r') \<leftarrow> m r; f a r' })"
  unfolding safe_def
proof (intro allI impI)
  fix r assume "reader_ok r"
  then obtain v r1 where r1: "m r = Some (v, r1)" "reader_ok r1" "rd_data r1 = rd_data r" "rd_failed r \<longrightarrow> rd_failed r1"
    using assms(1) unfolding safe_def by blast
  then obtain w r2 where "f v r1 = Some (w, r2)" "reader_ok r2" "rd_data r2 = rd_data r1" "rd_failed r1 \<longrightarrow> rd_failed r2"
    using assms(2) unfolding safe_def by blast
  then show "\<exists>v r'. do { (a, r') \<leftarrow> m r; f a r' } = Some (v, r') \<and> reader_ok r' \<and> rd_data r' = rd_data r \<and> (rd_failed r \<longrightarrow> rd_failed r')"
    using r1 by auto
qed

lemma take_loop_total: "offset + i + n \<le> length data \<Longrightarrow> \<exists>w. take_loop data offset i n v = Some w"
  by (induction n arbitrary: i v) auto

lemma safe_take [safe_intros]: "safe (rd_take n)"
  unfolding safe_def
proof (intro allI impI)
  fix r assume ok: "reader_ok r"
  show "\<exists>v r'. rd_take n r = Some (v, r') \<and> reader_ok r' \<and> rd_data r' = rd_data r \<and> (rd_failed r \<longrightarrow> rd_failed r')"
  proof (cases "rd_failed r \<or> length (rd_data r) - rd_offset r < n")
    case True
    then show ?thesis using ok by (auto simp: rd_take_def rd_request_def reader_ok_def)
  next
    case False
    then have "rd_offset r + 0 + n \<le> length (rd_data r)" using ok by (auto simp: reader_ok_def)
    then show ?thesis using take_loop_total[of "rd_offset r" 0 n "rd_data r" 0] False
      by (auto simp: rd_take_def rd_request_def reader_ok_def)
  qed
qed

lemma safe_u8 [safe_intros]: "safe rd_u8"
  by (auto simp: safe_def rd_u8_def rd_request_def reader_ok_def)

lemma safe_words [safe_intros]: "safe rd_u16" "safe rd_u32" "safe rd_u64" "safe rd_i64"
  unfolding rd_u16_def[abs_def] rd_u32_def[abs_def] rd_u64_def[abs_def] rd_i64_def[abs_def]
  by (intro safe_intros)+

lemma safe_boolean [safe_intros]: "safe rd_boolean"
  unfolding rd_boolean_def[abs_def] by (intro safe_intros)

lemma safe_enumeration [safe_intros]: "safe (rd_enumeration cast highest)"
  unfolding rd_enumeration_def[abs_def] by (intro safe_intros)

lemma safe_string [safe_intros]: "safe rd_string"
  unfolding rd_string_def[abs_def]
proof (intro safe_intros)
  fix len :: u16
  show "safe (\<lambda>r1. case rd_request (unat len) r1 of
        (False, r2) \<Rightarrow> Some ([], r2)
      | (True, r2) \<Rightarrow> do {
          assert_that (rd_offset r2 + unat len \<le> length (rd_data r2));
          Some (map (\<lambda>b. char_of (unat b)) (take (unat len) (drop (rd_offset r2) (rd_data r2))),
                r2\<lparr>rd_offset := rd_offset r2 + unat len\<rparr>)
        })"
    by (auto simp: safe_def rd_request_def reader_ok_def)
qed

end
