(* ===== verification/Crc32c.thy ===== *)
theory Crc32c
  imports XC_Types
begin

text \<open>
  CRC-32C (\<open>include/xc/util/crc32c.hpp\<close>, \<open>src/util/crc32c.cpp\<close>): the table-driven checksum of the
  journal, its bit-by-bit definition, and what it detects.
\<close>

section \<open>The table and the checksum\<close>

definition kReflectedPolynomial :: u32 where
  "kReflectedPolynomial = 0x82F63B78"

text \<open>One round of the inner loop of \<open>make_table\<close>.\<close>

definition crc_bit :: "u32 \<Rightarrow> u32" where
  "crc_bit value = (if value AND 1 \<noteq> 0 then drop_bit 1 value XOR kReflectedPolynomial else drop_bit 1 value)"

definition make_table :: "u32 list" where
  "make_table = map (\<lambda>i. (crc_bit ^^ 8) (of_nat i)) [0..<256]"

definition kTable :: "u32 list" where
  "kTable = make_table"

definition crc_step :: "u8 \<Rightarrow> u32 \<Rightarrow> u32 option" where
  "crc_step byte crc = do {
     t \<leftarrow> vget kTable (unat ((crc XOR ucast byte) AND 0xFF));
     Some (t XOR drop_bit 8 crc)
   }"

definition crc32c :: "u8 list \<Rightarrow> u32 \<Rightarrow> u32 option" where
  "crc32c data seed = do {
     crc \<leftarrow> foldM crc_step data (NOT seed);
     Some (NOT crc)
   }"

section \<open>The bit-by-bit checksum\<close>

definition crc_byte :: "u8 \<Rightarrow> u32 \<Rightarrow> u32" where
  "crc_byte byte crc = (crc_bit ^^ 8) (crc XOR ucast byte)"

definition crc32c_spec :: "u8 list \<Rightarrow> u32 \<Rightarrow> u32" where
  "crc32c_spec data seed = NOT (fold crc_byte data (NOT seed))"

lemma and_one_bit: "(v :: u32) AND 1 \<noteq> 0 \<longleftrightarrow> bit v 0"
  by (simp add: and_one_eq bit_0 odd_iff_mod_2_eq_one)

lemma crc_bit_xor: "crc_bit (a XOR b) = crc_bit a XOR crc_bit b"
  unfolding crc_bit_def and_one_bit bit_xor_iff drop_bit_xor
  by (cases "bit a 0"; cases "bit b 0"; simp add: ac_simps)

lemma crc_bits_xor: "(crc_bit ^^ n) (a XOR b) = (crc_bit ^^ n) a XOR (crc_bit ^^ n) b"
  by (induction n) (simp_all add: crc_bit_xor)

text \<open>Bits above the eight that are shifted out only move down.\<close>

lemma crc_bits_high: "(\<forall>i<n. \<not> bit v i) \<Longrightarrow> (crc_bit ^^ n) v = drop_bit n v"
proof (induction n)
  case (Suc n)
  then have "(crc_bit ^^ n) v = drop_bit n v" by simp
  moreover have "\<not> bit (drop_bit n v) 0" using Suc.prems by (simp add: bit_drop_bit_eq)
  then have "crc_bit (drop_bit n v) = drop_bit 1 (drop_bit n v)" by (simp only: crc_bit_def and_one_bit if_False)
  ultimately show ?case by simp
qed simp

lemma mask8: "(0xFF :: u32) = mask 8"
  by (simp add: mask_eq_exp_minus_1)

lemma kTable_length [simp]: "length kTable = 256"
  by (simp add: kTable_def make_table_def)

lemma kTable_nth: "i < 256 \<Longrightarrow> kTable ! i = (crc_bit ^^ 8) (of_nat i)"
  by (simp add: kTable_def make_table_def)

lemma low_byte: "(x :: u32) AND 0xFF = take_bit 8 x"
  by (simp only: mask8 take_bit_eq_mask)

lemma low_byte_index: "unat (take_bit 8 x :: u32) < 256"
  using take_bit_nat_less_exp[of 8 "unat x"] by (simp add: unsigned_take_bit_eq)

lemma crc_step_byte: "crc_step byte crc = Some (crc_byte byte crc)"
proof -
  let ?x = "crc XOR ucast byte"
  let ?low = "take_bit 8 ?x" and ?high = "?x AND NOT (mask 8)"
  have split: "?x = ?low XOR ?high"
    by (rule bit_eqI) (auto simp: bit_xor_iff bit_and_iff bit_not_iff bit_take_bit_iff bit_mask_iff)
  have "(crc_bit ^^ 8) ?high = drop_bit 8 ?high"
    by (rule crc_bits_high) (auto simp: bit_and_iff bit_not_iff bit_mask_iff)
  also have "\<dots> = drop_bit 8 crc"
    by (rule bit_eqI)
      (auto simp: bit_and_iff bit_not_iff bit_mask_iff bit_drop_bit_eq bit_xor_iff bit_ucast_iff dest: bit_imp_le_length)
  finally have high: "(crc_bit ^^ 8) ?high = drop_bit 8 crc" .
  have "crc_byte byte crc = (crc_bit ^^ 8) ?low XOR drop_bit 8 crc"
    unfolding crc_byte_def by (subst split) (simp only: crc_bits_xor high)
  then show ?thesis using low_byte_index[of ?x] kTable_nth[OF low_byte_index[of ?x]]
    by (simp add: crc_step_def low_byte)
qed

lemma crc_fold: "foldM crc_step data crc = Some (fold crc_byte data crc)"
  by (induction data arbitrary: crc) (simp_all add: crc_step_byte)

lemma crc32c_table: "crc32c data seed = Some (crc32c_spec data seed)"
  by (simp add: crc32c_def crc_fold crc32c_spec_def)

section \<open>Detection\<close>

lemma poly_top: "bit kReflectedPolynomial 31"
  by (simp add: kReflectedPolynomial_def)

lemma crc_bit_top: "bit (crc_bit v) 31 \<longleftrightarrow> bit v 0"
  using poly_top by (auto simp: crc_bit_def and_one_bit bit_xor_iff bit_drop_bit_eq dest: bit_imp_le_length)

lemma xor_cancel: "(a :: u32) XOR c = b XOR c \<longleftrightarrow> a = b" "(c :: u32) XOR a = c XOR b \<longleftrightarrow> a = b"
  by (metis bit.xor_left_self xor.commute)+

lemma crc_bit_inj: "crc_bit v = crc_bit w \<Longrightarrow> v = w"
proof (rule bit_eqI)
  fix n assume eq: "crc_bit v = crc_bit w" and "possible_bit TYPE(u32) n"
  have b0: "bit v 0 \<longleftrightarrow> bit w 0" using eq crc_bit_top by metis
  then have "drop_bit 1 v = drop_bit 1 w"
    using eq by (auto simp: crc_bit_def and_one_bit xor_cancel split: if_splits)
  then have "bit (drop_bit 1 v) m \<longleftrightarrow> bit (drop_bit 1 w) m" for m by simp
  then show "bit v n \<longleftrightarrow> bit w n" using b0 by (cases n) (simp_all add: bit_drop_bit_eq)
qed

lemma crc_bits_inj: "(crc_bit ^^ n) v = (crc_bit ^^ n) w \<Longrightarrow> v = w"
  by (induction n) (auto dest: crc_bit_inj)

lemma crc_byte_inj_crc: "crc_byte b v = crc_byte b w \<Longrightarrow> v = w"
  unfolding crc_byte_def by (drule crc_bits_inj) (simp add: xor_cancel)

lemma crc_byte_inj_byte: "crc_byte b v = crc_byte c v \<Longrightarrow> b = c"
proof -
  assume "crc_byte b v = crc_byte c v"
  then have "v XOR ucast b = v XOR ucast c" unfolding crc_byte_def by (rule crc_bits_inj)
  then have "(ucast b :: u32) = ucast c" by (simp add: xor_cancel)
  moreover have "ucast (ucast x :: u32) = x" for x :: u8
    by (rule bit_eqI) (auto simp: bit_ucast_iff dest: bit_imp_le_length)
  ultimately show "b = c" by metis
qed

lemma crc_fold_inj: "fold crc_byte data v = fold crc_byte data w \<Longrightarrow> v = w"
  by (induction data arbitrary: v w) (auto dest: crc_byte_inj_crc)

lemma crc32c_one_byte:
  assumes "b \<noteq> c"
  shows "crc32c_spec (xs @ b # ys) seed \<noteq> crc32c_spec (xs @ c # ys) seed"
proof
  assume "crc32c_spec (xs @ b # ys) seed = crc32c_spec (xs @ c # ys) seed"
  then have "fold crc_byte ys (crc_byte b (fold crc_byte xs (NOT seed))) =
      fold crc_byte ys (crc_byte c (fold crc_byte xs (NOT seed)))"
    by (simp add: crc32c_spec_def)
  then show False using crc_fold_inj crc_byte_inj_byte assms by blast
qed

end
