(* ===== verification/Journal_Record.thy ===== *)
theory Journal_Record
  imports Byte_Codec Crc32c
begin

text \<open>
  Journal records (\<open>include/xc/journal/record.hpp\<close>, \<open>src/journal/record.cpp\<close>): the encoding of a
  command with its header and checksum, the decoder that recovery runs over whatever bytes the
  disk gives back, and the round trip between them.
\<close>

section \<open>Enumerations on the wire\<close>

fun side_byte :: "Side \<Rightarrow> u8" where
  "side_byte Buy = 0" | "side_byte Sell = 1"

definition side_of_byte :: "u8 \<Rightarrow> Side" where
  "side_of_byte b = (if b = 0 then Buy else Sell)"

fun type_byte :: "OrderType \<Rightarrow> u8" where
  "type_byte Limit = 0" | "type_byte Market = 1"

definition type_of_byte :: "u8 \<Rightarrow> OrderType" where
  "type_of_byte b = (if b = 0 then Limit else Market)"

fun tif_byte :: "TimeInForce \<Rightarrow> u8" where
  "tif_byte Day = 0" | "tif_byte ImmediateOrCancel = 1" | "tif_byte FillOrKill = 2" | "tif_byte GoodTilCancelled = 3"

definition tif_of_byte :: "u8 \<Rightarrow> TimeInForce" where
  "tif_of_byte b = (if b = 0 then Day else if b = 1 then ImmediateOrCancel else if b = 2 then FillOrKill
     else GoodTilCancelled)"

fun policy_byte :: "SelfTradePolicy \<Rightarrow> u8" where
  "policy_byte Allow = 0" | "policy_byte CancelIncoming = 1" | "policy_byte CancelResting = 2"
| "policy_byte CancelBoth = 3" | "policy_byte DecrementBoth = 4"

definition policy_of_byte :: "u8 \<Rightarrow> SelfTradePolicy" where
  "policy_of_byte b = (if b = 0 then Allow else if b = 1 then CancelIncoming else if b = 2 then CancelResting
     else if b = 3 then CancelBoth else DecrementBoth)"

section \<open>Records\<close>

datatype RecordType = InstrumentDefined | NewOrderRecord | CancelOrderRecord | ReplaceOrderRecord

fun record_type_byte :: "RecordType \<Rightarrow> u8" where
  "record_type_byte InstrumentDefined = 1" | "record_type_byte NewOrderRecord = 2"
| "record_type_byte CancelOrderRecord = 3" | "record_type_byte ReplaceOrderRecord = 4"

definition record_type_of_byte :: "u8 \<Rightarrow> RecordType" where
  "record_type_of_byte b = (if b = 1 then InstrumentDefined else if b = 2 then NewOrderRecord
     else if b = 3 then CancelOrderRecord else ReplaceOrderRecord)"

definition kRecordVersion :: u8 where
  "kRecordVersion = 2"

definition header_size :: nat where
  "header_size = 20"

definition kMaxPayload :: u32 where
  "kMaxPayload = push_bit 20 1"

definition Instrument_default :: Instrument where
  "Instrument_default = \<lparr>ins_id = 0, ins_symbol = [], ins_tick_size = 1, ins_lot_size = 1, ins_min_quantity = 1,
     ins_display_exponent = 2, ins_self_trade_policy = CancelIncoming, ins_min_price = 1, ins_max_price = 65535,
     ins_expected_resting_orders = 4096\<rparr>"

definition NewOrder_default :: NewOrder where
  "NewOrder_default = \<lparr>no_id = 0, no_account = 0, no_instrument = 0, no_side = Buy, no_type = Limit, no_tif = Day,
     no_price = kNoPrice, no_quantity = 0, no_post_only = False\<rparr>"

definition CancelOrder_default :: CancelOrder where
  "CancelOrder_default = \<lparr>co_id = 0, co_account = 0, co_instrument = 0\<rparr>"

definition ReplaceOrder_default :: ReplaceOrder where
  "ReplaceOrder_default = \<lparr>ro_id = 0, ro_account = 0, ro_instrument = 0, ro_new_price = kNoPrice, ro_new_quantity = 0\<rparr>"

record Record =
  rec_type :: RecordType
  rec_sequence :: SeqNum
  rec_timestamp :: Nanos
  rec_instrument :: Instrument
  rec_new_order :: NewOrder
  rec_cancel_order :: CancelOrder
  rec_replace_order :: ReplaceOrder

definition Record_default :: Record where
  "Record_default = \<lparr>rec_type = NewOrderRecord, rec_sequence = 0, rec_timestamp = 0,
     rec_instrument = Instrument_default, rec_new_order = NewOrder_default,
     rec_cancel_order = CancelOrder_default, rec_replace_order = ReplaceOrder_default\<rparr>"

section \<open>Encoding\<close>

definition encode_payload :: "Record \<Rightarrow> u8 list \<Rightarrow> u8 list" where
  "encode_payload r out =
     (let out = bw_i64 (rec_timestamp r) out in
      case rec_type r of
        InstrumentDefined \<Rightarrow>
          (let ins = rec_instrument r in
           (bw_u8 (policy_byte (ins_self_trade_policy ins)) \<circ> bw_u8 (ins_display_exponent ins) \<circ>
            bw_i64 (ins_max_price ins) \<circ> bw_i64 (ins_min_price ins) \<circ> bw_u64 (ins_min_quantity ins) \<circ>
            bw_u64 (ins_lot_size ins) \<circ> bw_i64 (ins_tick_size ins) \<circ> bw_string (ins_symbol ins) \<circ>
            bw_u64 (ins_id ins)) out)
      | NewOrderRecord \<Rightarrow>
          (let c = rec_new_order r in
           (bw_u64 (no_quantity c) \<circ> bw_i64 (no_price c) \<circ> bw_boolean (no_post_only c) \<circ>
            bw_u8 (tif_byte (no_tif c)) \<circ> bw_u8 (type_byte (no_type c)) \<circ> bw_u8 (side_byte (no_side c)) \<circ>
            bw_u64 (no_instrument c) \<circ> bw_u64 (no_account c) \<circ> bw_u64 (no_id c)) out)
      | CancelOrderRecord \<Rightarrow>
          (let c = rec_cancel_order r in
           (bw_u64 (co_instrument c) \<circ> bw_u64 (co_account c) \<circ> bw_u64 (co_id c)) out)
      | ReplaceOrderRecord \<Rightarrow>
          (let c = rec_replace_order r in
           (bw_u64 (ro_new_quantity c) \<circ> bw_i64 (ro_new_price c) \<circ> bw_u64 (ro_instrument c) \<circ>
            bw_u64 (ro_account c) \<circ> bw_u64 (ro_id c)) out))"

text \<open>\<open>store\<close>: \<open>width\<close> bytes written over the buffer, least significant first.\<close>

definition store_bytes :: "nat \<Rightarrow> u64 \<Rightarrow> nat \<Rightarrow> u8 list \<Rightarrow> u8 list option" where
  "store_bytes dst value width buf =
     foldM (\<lambda>i buf. vset buf (dst + i) (ucast (drop_bit (8 * i) value AND 0xFF))) [0..<width] buf"

definition encode_record :: "Record \<Rightarrow> u8 list \<Rightarrow> u8 list option" where
  "encode_record r out = do {
     let header_start = length out;
     let out = out @ replicate header_size 0;
     let out = encode_payload r out;
     let payload_length = length out - header_start - header_size;
     out \<leftarrow> store_bytes (header_start + 0) (of_nat payload_length) 4 out;
     out \<leftarrow> store_bytes (header_start + 8) (rec_sequence r) 8 out;
     out \<leftarrow> vset out (header_start + 16) (record_type_byte (rec_type r));
     out \<leftarrow> vset out (header_start + 17) kRecordVersion;
     out \<leftarrow> vset out (header_start + 18) 0;
     out \<leftarrow> vset out (header_start + 19) 0;
     checksum \<leftarrow> crc32c (drop (header_start + 8) out) 0;
     store_bytes (header_start + 4) (ucast checksum) 4 out
   }"

section \<open>Decoding\<close>

definition decode_instrument :: "Instrument \<Rightarrow> ByteReader \<Rightarrow> (Instrument \<times> ByteReader) option" where
  "decode_instrument ins r = do {
     (iid, r) \<leftarrow> rd_u64 r;
     (symbol, r) \<leftarrow> rd_string r;
     (tick, r) \<leftarrow> rd_i64 r;
     (lot, r) \<leftarrow> rd_u64 r;
     (min_quantity, r) \<leftarrow> rd_u64 r;
     (min_price, r) \<leftarrow> rd_i64 r;
     (max_price, r) \<leftarrow> rd_i64 r;
     (display, r) \<leftarrow> rd_u8 r;
     (policy, r) \<leftarrow> rd_enumeration policy_of_byte (policy_byte DecrementBoth) r;
     Some (ins\<lparr>ins_id := iid, ins_symbol := symbol, ins_tick_size := tick, ins_lot_size := lot,
       ins_min_quantity := min_quantity, ins_min_price := min_price, ins_max_price := max_price,
       ins_display_exponent := display, ins_self_trade_policy := policy\<rparr>, r)
   }"

definition decode_new_order :: "NewOrder \<Rightarrow> ByteReader \<Rightarrow> (NewOrder \<times> ByteReader) option" where
  "decode_new_order c r = do {
     (oid, r) \<leftarrow> rd_u64 r;
     (account, r) \<leftarrow> rd_u64 r;
     (instrument, r) \<leftarrow> rd_u64 r;
     (side, r) \<leftarrow> rd_enumeration side_of_byte (side_byte Sell) r;
     (type, r) \<leftarrow> rd_enumeration type_of_byte (type_byte Market) r;
     (tif, r) \<leftarrow> rd_enumeration tif_of_byte (tif_byte GoodTilCancelled) r;
     (post_only, r) \<leftarrow> rd_boolean r;
     (price, r) \<leftarrow> rd_i64 r;
     (quantity, r) \<leftarrow> rd_u64 r;
     Some (c\<lparr>no_id := oid, no_account := account, no_instrument := instrument, no_side := side, no_type := type,
       no_tif := tif, no_post_only := post_only, no_price := price, no_quantity := quantity\<rparr>, r)
   }"

definition decode_cancel :: "CancelOrder \<Rightarrow> ByteReader \<Rightarrow> (CancelOrder \<times> ByteReader) option" where
  "decode_cancel c r = do {
     (oid, r) \<leftarrow> rd_u64 r;
     (account, r) \<leftarrow> rd_u64 r;
     (instrument, r) \<leftarrow> rd_u64 r;
     Some (c\<lparr>co_id := oid, co_account := account, co_instrument := instrument\<rparr>, r)
   }"

definition decode_replace :: "ReplaceOrder \<Rightarrow> ByteReader \<Rightarrow> (ReplaceOrder \<times> ByteReader) option" where
  "decode_replace c r = do {
     (oid, r) \<leftarrow> rd_u64 r;
     (account, r) \<leftarrow> rd_u64 r;
     (instrument, r) \<leftarrow> rd_u64 r;
     (price, r) \<leftarrow> rd_i64 r;
     (quantity, r) \<leftarrow> rd_u64 r;
     Some (c\<lparr>ro_id := oid, ro_account := account, ro_instrument := instrument, ro_new_price := price,
       ro_new_quantity := quantity\<rparr>, r)
   }"

definition decode_body :: "RecordType \<Rightarrow> Record \<Rightarrow> ByteReader \<Rightarrow> (Record \<times> ByteReader) option" where
  "decode_body t record r = do {
     (timestamp, r) \<leftarrow> rd_i64 r;
     (case t of
        InstrumentDefined \<Rightarrow> do {
          (ins, r) \<leftarrow> decode_instrument (rec_instrument record) r;
          Some (record\<lparr>rec_timestamp := timestamp, rec_instrument := ins\<rparr>, r)
        }
      | NewOrderRecord \<Rightarrow> do {
          (c, r) \<leftarrow> decode_new_order (rec_new_order record) r;
          Some (record\<lparr>rec_timestamp := timestamp, rec_new_order := c\<rparr>, r)
        }
      | CancelOrderRecord \<Rightarrow> do {
          (c, r) \<leftarrow> decode_cancel (rec_cancel_order record) r;
          Some (record\<lparr>rec_timestamp := timestamp, rec_cancel_order := c\<rparr>, r)
        }
      | ReplaceOrderRecord \<Rightarrow> do {
          (c, r) \<leftarrow> decode_replace (rec_replace_order record) r;
          Some (record\<lparr>rec_timestamp := timestamp, rec_replace_order := c\<rparr>, r)
        })
   }"

definition decode_payload :: "RecordType \<Rightarrow> u8 list \<Rightarrow> Record \<Rightarrow> (bool \<times> Record) option" where
  "decode_payload t payload record = do {
     (record', r) \<leftarrow> decode_body t record (ByteReader_new payload);
     Some (fully_consumed r, record')
   }"

definition is_known_type :: "u8 \<Rightarrow> bool" where
  "is_known_type t \<longleftrightarrow> t = record_type_byte InstrumentDefined \<or> t = record_type_byte NewOrderRecord \<or>
     t = record_type_byte CancelOrderRecord \<or> t = record_type_byte ReplaceOrderRecord"

datatype DecodeStatus = DecodeOk | DecodeIncomplete | DecodeCorrupt | DecodeUnreadable

record DecodeResult =
  dr_status :: DecodeStatus
  dr_consumed :: nat
  dr_record :: Record

definition DecodeResult_default :: DecodeResult where
  "DecodeResult_default = \<lparr>dr_status = DecodeIncomplete, dr_consumed = 0, dr_record = Record_default\<rparr>"

record RecordHeader =
  rh_payload_length :: u32
  rh_checksum :: u32
  rh_sequence :: SeqNum
  rh_type :: u8
  rh_version :: u8
  rh_reserved :: u16

definition decode_header :: "ByteReader \<Rightarrow> (RecordHeader \<times> ByteReader) option" where
  "decode_header r = do {
     (payload_length, r) \<leftarrow> rd_u32 r;
     (checksum, r) \<leftarrow> rd_u32 r;
     (sequence, r) \<leftarrow> rd_u64 r;
     (type, r) \<leftarrow> rd_u8 r;
     (version, r) \<leftarrow> rd_u8 r;
     (reserved, r) \<leftarrow> rd_u16 r;
     Some (\<lparr>rh_payload_length = payload_length, rh_checksum = checksum, rh_sequence = sequence,
       rh_type = type, rh_version = version, rh_reserved = reserved\<rparr>, r)
   }"

definition decode_record :: "u8 list \<Rightarrow> DecodeResult option" where
  "decode_record data =
     (if length data < header_size then Some (DecodeResult_default\<lparr>dr_status := DecodeIncomplete\<rparr>)
      else do {
        (h, _) \<leftarrow> decode_header (ByteReader_new (take header_size data));
        if rh_version h \<noteq> kRecordVersion \<or> \<not> is_known_type (rh_type h) \<or> rh_reserved h \<noteq> 0 \<or>
           rh_payload_length h > kMaxPayload
        then Some (DecodeResult_default\<lparr>dr_status := DecodeUnreadable\<rparr>)
        else do {
          let sz = header_size + unat (rh_payload_length h);
          if length data < sz then Some (DecodeResult_default\<lparr>dr_status := DecodeIncomplete\<rparr>)
          else do {
            computed \<leftarrow> crc32c (take (sz - 8) (drop 8 data)) 0;
            if computed \<noteq> rh_checksum h then Some (DecodeResult_default\<lparr>dr_status := DecodeCorrupt\<rparr>)
            else do {
              let record = Record_default\<lparr>rec_type := record_type_of_byte (rh_type h), rec_sequence := rh_sequence h\<rparr>;
              (ok, record') \<leftarrow> decode_payload (rec_type record)
                 (take (unat (rh_payload_length h)) (drop header_size data)) record;
              if \<not> ok then Some (DecodeResult_default\<lparr>dr_record := record', dr_status := DecodeUnreadable\<rparr>)
              else Some \<lparr>dr_status = DecodeOk, dr_consumed = sz, dr_record = record'\<rparr>
            }
          }
        }
      })"

section \<open>The encoded bytes\<close>

lemmas bw_defs = bw_put_def bw_u8_def bw_u16_def bw_u32_def bw_u64_def bw_i64_def bw_boolean_def bw_string_def

definition string_bytes :: "string \<Rightarrow> u8 list" where
  "string_bytes v = put_bytes (ucast (of_nat (length v) :: u16)) 2 @ map of_char v"

definition i64_bytes :: "int \<Rightarrow> u8 list" where
  "i64_bytes v = put_bytes (word_of_int v) 8"

definition instrument_bytes :: "Instrument \<Rightarrow> u8 list" where
  "instrument_bytes ins = put_bytes (ins_id ins) 8 @ string_bytes (ins_symbol ins) @ i64_bytes (ins_tick_size ins) @
     put_bytes (ins_lot_size ins) 8 @ put_bytes (ins_min_quantity ins) 8 @ i64_bytes (ins_min_price ins) @
     i64_bytes (ins_max_price ins) @ [ins_display_exponent ins] @ [policy_byte (ins_self_trade_policy ins)]"

definition new_order_bytes :: "NewOrder \<Rightarrow> u8 list" where
  "new_order_bytes c = put_bytes (no_id c) 8 @ put_bytes (no_account c) 8 @ put_bytes (no_instrument c) 8 @
     [side_byte (no_side c)] @ [type_byte (no_type c)] @ [tif_byte (no_tif c)] @
     [if no_post_only c then 1 else 0] @ i64_bytes (no_price c) @ put_bytes (no_quantity c) 8"

definition cancel_bytes :: "CancelOrder \<Rightarrow> u8 list" where
  "cancel_bytes c = put_bytes (co_id c) 8 @ put_bytes (co_account c) 8 @ put_bytes (co_instrument c) 8"

definition replace_bytes :: "ReplaceOrder \<Rightarrow> u8 list" where
  "replace_bytes c = put_bytes (ro_id c) 8 @ put_bytes (ro_account c) 8 @ put_bytes (ro_instrument c) 8 @
     i64_bytes (ro_new_price c) @ put_bytes (ro_new_quantity c) 8"

definition payload_bytes :: "Record \<Rightarrow> u8 list" where
  "payload_bytes r = i64_bytes (rec_timestamp r) @ (case rec_type r of
       InstrumentDefined \<Rightarrow> instrument_bytes (rec_instrument r)
     | NewOrderRecord \<Rightarrow> new_order_bytes (rec_new_order r)
     | CancelOrderRecord \<Rightarrow> cancel_bytes (rec_cancel_order r)
     | ReplaceOrderRecord \<Rightarrow> replace_bytes (rec_replace_order r))"

definition checked_bytes :: "Record \<Rightarrow> u8 list" where
  "checked_bytes r = put_bytes (rec_sequence r) 8 @ [record_type_byte (rec_type r), kRecordVersion, 0, 0] @ payload_bytes r"

definition encoded :: "Record \<Rightarrow> u8 list" where
  "encoded r = put_bytes (of_nat (length (payload_bytes r))) 4 @
     put_bytes (ucast (crc32c_spec (checked_bytes r) 0)) 4 @ checked_bytes r"

lemma encode_payload_bytes: "encode_payload r out = out @ payload_bytes r"
  by (simp add: encode_payload_def payload_bytes_def instrument_bytes_def new_order_bytes_def cancel_bytes_def
      replace_bytes_def string_bytes_def i64_bytes_def bw_defs Let_def split: RecordType.splits)

lemma store_bytes_over:
  assumes "length pre = dst" and "length mid = n"
  shows "store_bytes dst v n (pre @ mid @ post) = Some (pre @ put_bytes v n @ post)"
proof -
  let ?f = "\<lambda>i buf. vset buf (dst + i) (ucast (drop_bit (8 * i) v AND 0xFF))"
  have "foldM ?f [0..<k] (pre @ mid @ post) = Some (pre @ put_bytes v k @ drop k mid @ post)" if "k \<le> n" for k
    using that
  proof (induction k)
    case 0
    then show ?case by (simp add: put_bytes_def)
  next
    case (Suc k)
    have d: "drop k mid = mid ! k # drop (Suc k) mid" using Suc.prems assms(2) by (simp add: Cons_nth_drop_Suc)
    have "(pre @ put_bytes v k @ drop k mid @ post)[dst + k := x] = pre @ put_bytes v k @ x # drop (Suc k) mid @ post" for x
      unfolding d by (simp add: list_update_append assms(1))
    moreover have "put_bytes v (Suc k) = put_bytes v k @ [ucast (drop_bit (8 * k) v AND 0xFF)]" by (simp add: put_bytes_def)
    ultimately show ?case using Suc assms by (simp add: foldM_append)
  qed
  from this[of n] show ?thesis using assms(2) by (simp add: store_bytes_def)
qed

lemma set_over:
  "length pre = i \<Longrightarrow> vset (pre @ x # post) i y = Some (pre @ y # post)"
  by (simp add: vset_def list_update_append)

lemma encode_record_bytes: "encode_record r out = Some (out @ encoded r)"
proof -
  let ?n = "length out" and ?p = "payload_bytes r"
  let ?z = "\<lambda>k. replicate k (0 :: u8)"
  have split: "out @ ?z header_size @ ?p = out @ ?z 4 @ ?z 4 @ ?z 8 @ 0 # 0 # 0 # 0 # ?p"
    by (simp add: header_size_def numeral_eq_Suc)
  let ?L = "put_bytes (of_nat (length ?p)) 4" and ?S = "put_bytes (rec_sequence r) 8"
  have s1: "store_bytes (?n + 0) (of_nat (length ?p)) 4 (out @ ?z 4 @ ?z 4 @ ?z 8 @ 0 # 0 # 0 # 0 # ?p) =
      Some (out @ ?L @ ?z 4 @ ?z 8 @ 0 # 0 # 0 # 0 # ?p)"
    by (rule store_bytes_over) simp_all
  have s2: "store_bytes (?n + 8) (rec_sequence r) 8 (out @ ?L @ ?z 4 @ ?z 8 @ 0 # 0 # 0 # 0 # ?p) =
      Some (out @ ?L @ ?z 4 @ ?S @ 0 # 0 # 0 # 0 # ?p)"
    using store_bytes_over[of "out @ ?L @ ?z 4" "?n + 8" "?z 8" 8] by simp
  have s3: "vset (out @ ?L @ ?z 4 @ ?S @ 0 # 0 # 0 # 0 # ?p) (?n + 16) (record_type_byte (rec_type r)) =
      Some (out @ ?L @ ?z 4 @ ?S @ record_type_byte (rec_type r) # 0 # 0 # 0 # ?p)"
    using set_over[of "out @ ?L @ ?z 4 @ ?S" "?n + 16"] by simp
  let ?t = "record_type_byte (rec_type r)"
  have s4: "vset (out @ ?L @ ?z 4 @ ?S @ ?t # 0 # 0 # 0 # ?p) (?n + 17) kRecordVersion =
      Some (out @ ?L @ ?z 4 @ ?S @ ?t # kRecordVersion # 0 # 0 # ?p)"
    using set_over[of "out @ ?L @ ?z 4 @ ?S @ [?t]" "?n + 17"] by simp
  have s5: "vset (out @ ?L @ ?z 4 @ ?S @ ?t # kRecordVersion # 0 # 0 # ?p) (?n + 18) 0 =
      Some (out @ ?L @ ?z 4 @ ?S @ ?t # kRecordVersion # 0 # 0 # ?p)"
    using set_over[of "out @ ?L @ ?z 4 @ ?S @ [?t, kRecordVersion]" "?n + 18"] by simp
  have s6: "vset (out @ ?L @ ?z 4 @ ?S @ ?t # kRecordVersion # 0 # 0 # ?p) (?n + 19) 0 =
      Some (out @ ?L @ ?z 4 @ ?S @ ?t # kRecordVersion # 0 # 0 # ?p)"
    using set_over[of "out @ ?L @ ?z 4 @ ?S @ [?t, kRecordVersion, 0]" "?n + 19"] by simp
  have s7: "crc32c (drop (?n + 8) (out @ ?L @ ?z 4 @ ?S @ ?t # kRecordVersion # 0 # 0 # ?p)) 0 =
      Some (crc32c_spec (checked_bytes r) 0)"
    by (simp add: crc32c_table checked_bytes_def)
  have s8: "store_bytes (?n + 4) v 4 (out @ ?L @ ?z 4 @ ?S @ ?t # kRecordVersion # 0 # 0 # ?p) =
      Some (out @ ?L @ put_bytes v 4 @ ?S @ ?t # kRecordVersion # 0 # 0 # ?p)" for v
    using store_bytes_over[of "out @ ?L" "?n + 4" "?z 4" 4 v "?S @ ?t # kRecordVersion # 0 # 0 # ?p"] by simp
  have len: "length (out @ ?z header_size @ ?p) - ?n - header_size = length ?p" by simp
  show ?thesis
    unfolding encode_record_def encode_payload_bytes append_assoc len Let_def
    by (simp only: split s1 s2 s3 s4 s5 s6 s7 s8 Option.bind.bind_lunit encoded_def checked_bytes_def append_assoc append_Cons append_Nil)
qed

section \<open>The round trip\<close>

lemma enum_roundtrip [simp]:
  "side_of_byte (side_byte s) = s" "type_of_byte (type_byte t) = t" "tif_of_byte (tif_byte f) = f"
  "policy_of_byte (policy_byte p) = p" "record_type_of_byte (record_type_byte k) = k"
  subgoal by (cases s) (simp_all add: side_of_byte_def)
  subgoal by (cases t) (simp_all add: type_of_byte_def)
  subgoal by (cases f) (simp_all add: tif_of_byte_def)
  subgoal by (cases p) (simp_all add: policy_of_byte_def)
  subgoal by (cases k) (simp_all add: record_type_of_byte_def)
  done

lemma enum_bound: "side_byte s \<le> side_byte Sell" "type_byte t \<le> type_byte Market" "tif_byte f \<le> tif_byte GoodTilCancelled"
  "policy_byte p \<le> policy_byte DecrementBoth"
  subgoal by (cases s) simp_all
  subgoal by (cases t) simp_all
  subgoal by (cases f) simp_all
  subgoal by (cases p) simp_all
  done

text \<open>The records the encoder can represent: signed fields are 64-bit and a symbol has a 16-bit length.\<close>

definition instrument_fits :: "Instrument \<Rightarrow> bool" where
  "instrument_fits ins \<longleftrightarrow> length (ins_symbol ins) < 2 ^ 16 \<and> ins_tick_size ins \<in> i64_range \<and>
     ins_min_price ins \<in> i64_range \<and> ins_max_price ins \<in> i64_range"

definition record_fits :: "Record \<Rightarrow> bool" where
  "record_fits r \<longleftrightarrow> rec_timestamp r \<in> i64_range \<and> (case rec_type r of
       InstrumentDefined \<Rightarrow> instrument_fits (rec_instrument r)
     | NewOrderRecord \<Rightarrow> no_price (rec_new_order r) \<in> i64_range
     | CancelOrderRecord \<Rightarrow> True
     | ReplaceOrderRecord \<Rightarrow> ro_new_price (rec_replace_order r) \<in> i64_range)"

text \<open>What a decoded record carries: the member its type selects, the others as constructed.\<close>

definition carried :: "Record \<Rightarrow> Record" where
  "carried r = (let base = Record_default\<lparr>rec_type := rec_type r, rec_sequence := rec_sequence r, rec_timestamp := rec_timestamp r\<rparr> in
     case rec_type r of
       InstrumentDefined \<Rightarrow> base\<lparr>rec_instrument := (rec_instrument r)\<lparr>ins_expected_resting_orders := 4096\<rparr>\<rparr>
     | NewOrderRecord \<Rightarrow> base\<lparr>rec_new_order := rec_new_order r\<rparr>
     | CancelOrderRecord \<Rightarrow> base\<lparr>rec_cancel_order := rec_cancel_order r\<rparr>
     | ReplaceOrderRecord \<Rightarrow> base\<lparr>rec_replace_order := rec_replace_order r\<rparr>)"

lemma reads_last: "reads m bs v \<Longrightarrow> g v = w \<Longrightarrow> reads (\<lambda>r. do { (a, r') \<leftarrow> m r; Some (g a, r') }) bs w"
  using reads_cast[of m bs v g] by simp

lemma reads_enums:
  "reads (rd_enumeration side_of_byte (side_byte Sell)) [side_byte s] s"
  "reads (rd_enumeration type_of_byte (type_byte Market)) [type_byte t] t"
  "reads (rd_enumeration tif_of_byte (tif_byte GoodTilCancelled)) [tif_byte f] f"
  "reads (rd_enumeration policy_of_byte (policy_byte DecrementBoth)) [policy_byte p] p"
  by (intro reads_enumeration enum_bound enum_roundtrip)+

text \<open>A run of reads, one field at a time.\<close>

lemmas reads_steps = reads_bind[OF reads_u64] reads_bind[OF reads_u32] reads_bind[OF reads_u16] reads_bind[OF reads_u8]
  reads_bind[OF reads_i64] reads_bind[OF reads_boolean] reads_bind[OF reads_string] reads_bind[OF reads_enums(1)]
  reads_bind[OF reads_enums(2)] reads_bind[OF reads_enums(3)] reads_bind[OF reads_enums(4)]

lemma reads_done: "v = w \<Longrightarrow> reads (\<lambda>r. Some (v, r)) [] w"
  using reads_return[of v] by simp

lemma reads_new_order:
  assumes "no_price c \<in> i64_range"
  shows "reads (decode_new_order NewOrder_default) (new_order_bytes c @ []) c"
  unfolding decode_new_order_def[abs_def] new_order_bytes_def i64_bytes_def append_assoc
  by (intro reads_steps reads_done) (simp_all add: assms)

lemma reads_cancel: "reads (decode_cancel CancelOrder_default) (cancel_bytes c @ []) c"
  unfolding decode_cancel_def[abs_def] cancel_bytes_def append_assoc
  by (intro reads_steps reads_done) simp

lemma reads_replace:
  assumes "ro_new_price c \<in> i64_range"
  shows "reads (decode_replace ReplaceOrder_default) (replace_bytes c @ []) c"
  unfolding decode_replace_def[abs_def] replace_bytes_def i64_bytes_def append_assoc
  by (intro reads_steps reads_done) (simp_all add: assms)

lemma reads_instrument:
  assumes "instrument_fits ins"
  shows "reads (decode_instrument Instrument_default) (instrument_bytes ins @ []) (ins\<lparr>ins_expected_resting_orders := 4096\<rparr>)"
  unfolding decode_instrument_def[abs_def] instrument_bytes_def i64_bytes_def append_assoc
  apply (rule reads_steps)
  unfolding string_bytes_def
  apply (rule reads_bind[OF reads_string])
  subgoal using assms by (simp add: instrument_fits_def)
  by (intro reads_steps reads_done)
    (use assms in \<open>simp_all add: Instrument_default_def instrument_fits_def\<close>)

lemmas reads_members = reads_instrument[unfolded append_Nil2] reads_new_order[unfolded append_Nil2]
  reads_cancel[unfolded append_Nil2] reads_replace[unfolded append_Nil2]

lemma fresh_members:
  "rec_instrument (Record_default\<lparr>rec_type := t, rec_sequence := n\<rparr>) = Instrument_default"
  "rec_new_order (Record_default\<lparr>rec_type := t, rec_sequence := n\<rparr>) = NewOrder_default"
  "rec_cancel_order (Record_default\<lparr>rec_type := t, rec_sequence := n\<rparr>) = CancelOrder_default"
  "rec_replace_order (Record_default\<lparr>rec_type := t, rec_sequence := n\<rparr>) = ReplaceOrder_default"
  by (simp_all add: Record_default_def)

lemma reads_body:
  assumes "record_fits r"
  shows "reads (decode_body (rec_type r) (Record_default\<lparr>rec_type := rec_type r, rec_sequence := rec_sequence r\<rparr>))
    (payload_bytes r) (carried r)"
proof -
  have ts: "rec_timestamp r \<in> i64_range" using assms by (simp add: record_fits_def)
  note unf = decode_body_def[abs_def] payload_bytes_def i64_bytes_def fresh_members
  show ?thesis
  proof (cases "rec_type r")
    case InstrumentDefined
    then have "instrument_fits (rec_instrument r)" using assms by (simp add: record_fits_def)
    from reads_members(1)[OF this] show ?thesis unfolding unf InstrumentDefined RecordType.case
      by (intro reads_bind[OF reads_i64[OF ts]] reads_last) (simp_all add: carried_def InstrumentDefined)
  next
    case NewOrderRecord
    then have "no_price (rec_new_order r) \<in> i64_range" using assms by (simp add: record_fits_def)
    from reads_members(2)[OF this] show ?thesis unfolding unf NewOrderRecord RecordType.case
      by (intro reads_bind[OF reads_i64[OF ts]] reads_last) (simp_all add: carried_def NewOrderRecord)
  next
    case CancelOrderRecord
    from reads_members(3) show ?thesis unfolding unf CancelOrderRecord RecordType.case
      by (intro reads_bind[OF reads_i64[OF ts]] reads_last) (simp_all add: carried_def CancelOrderRecord)
  next
    case ReplaceOrderRecord
    then have "ro_new_price (rec_replace_order r) \<in> i64_range" using assms by (simp add: record_fits_def)
    from reads_members(4)[OF this] show ?thesis unfolding unf ReplaceOrderRecord RecordType.case
      by (intro reads_bind[OF reads_i64[OF ts]] reads_last) (simp_all add: carried_def ReplaceOrderRecord)
  qed
qed

lemma reads_all:
  assumes "reads m bs v"
  shows "\<exists>r'. m (ByteReader_new bs) = Some (v, r') \<and> fully_consumed r'"
proof -
  have "avail (ByteReader_new bs) (bs @ [])" by (simp add: avail_def ByteReader_new_def)
  then obtain r' where "m (ByteReader_new bs) = Some (v, r')" "avail r' []"
    using assms unfolding reads_def by blast
  then show ?thesis by (auto simp: avail_def fully_consumed_def)
qed

definition header_of :: "Record \<Rightarrow> RecordHeader" where
  "header_of r = \<lparr>rh_payload_length = of_nat (length (payload_bytes r)), rh_checksum = crc32c_spec (checked_bytes r) 0,
     rh_sequence = rec_sequence r, rh_type = record_type_byte (rec_type r), rh_version = kRecordVersion, rh_reserved = 0\<rparr>"

definition header_bytes :: "RecordHeader \<Rightarrow> u8 list" where
  "header_bytes h = put_bytes (ucast (rh_payload_length h)) 4 @ put_bytes (ucast (rh_checksum h)) 4 @
     put_bytes (rh_sequence h) 8 @ [rh_type h] @ [rh_version h] @ put_bytes (ucast (rh_reserved h)) 2"

lemma header_bytes_length [simp]: "length (header_bytes h) = header_size"
  by (simp add: header_bytes_def header_size_def)

lemma reads_header: "reads decode_header (header_bytes h @ []) h"
  unfolding decode_header_def[abs_def] header_bytes_def append_assoc
  by (intro reads_steps reads_done) simp

lemma payload_length:
  assumes "record_fits r"
  shows "length (payload_bytes r) \<le> 65643"
  using assms by (auto simp: payload_bytes_def i64_bytes_def instrument_bytes_def new_order_bytes_def cancel_bytes_def
      replace_bytes_def string_bytes_def record_fits_def instrument_fits_def split: RecordType.splits)

lemma encoded_header:
  assumes "record_fits r"
  shows "encoded r = header_bytes (header_of r) @ payload_bytes r"
proof -
  have "(of_nat (length (payload_bytes r)) :: u64) = ucast (of_nat (length (payload_bytes r)) :: u32)"
    using payload_length[OF assms] by (intro word_unat_eq_iff[THEN iffD2]) (simp add: unat_of_nat unsigned_ucast_eq take_bit_nat_eq_self)
  then show ?thesis
    by (simp add: encoded_def header_bytes_def header_of_def checked_bytes_def put_bytes_def numeral_eq_Suc)
qed

lemma known_type [simp]: "is_known_type (record_type_byte t)"
  by (cases t) (simp_all add: is_known_type_def)

lemma checked_drop: "record_fits r \<Longrightarrow> drop 8 (encoded r @ post) = checked_bytes r @ post"
  by (simp add: encoded_def)

lemma checked_length: "length (checked_bytes r) = 12 + length (payload_bytes r)"
  by (simp add: checked_bytes_def)

lemma decode_encoded:
  assumes fits: "record_fits r"
  shows "decode_record (encoded r @ post) =
    Some \<lparr>dr_status = DecodeOk, dr_consumed = length (encoded r), dr_record = carried r\<rparr>"
proof -
  let ?h = "header_of r" and ?p = "payload_bytes r" and ?d = "encoded r @ post"
  let ?rec = "Record_default\<lparr>rec_type := rec_type r, rec_sequence := rec_sequence r\<rparr>"
  have d: "?d = header_bytes ?h @ ?p @ post" using encoded_header[OF fits] by simp
  obtain rh where rh: "decode_header (ByteReader_new (header_bytes ?h)) = Some (?h, rh)"
    using reads_all[OF reads_header[of ?h]] by auto
  obtain rb where rb: "decode_body (rec_type r) ?rec (ByteReader_new ?p) = Some (carried r, rb)" "fully_consumed rb"
    using reads_all[OF reads_body[OF fits]] by auto
  have len: "unat (rh_payload_length ?h) = length ?p"
    using payload_length[OF fits] by (simp add: header_of_def unat_of_nat take_bit_nat_eq_self)
  have small: "\<not> rh_payload_length ?h > kMaxPayload"
    using payload_length[OF fits] len by (simp add: word_less_nat_alt kMaxPayload_def)
  have sz: "header_size + length ?p - 8 = length (checked_bytes r)" by (simp add: checked_length header_size_def)
  have crc: "crc32c (take (header_size + length ?p - 8) (drop 8 ?d)) 0 = Some (rh_checksum ?h)"
    unfolding checked_drop[OF fits] sz by (simp add: crc32c_table header_of_def)
  have "length ?d \<ge> header_size + length ?p" unfolding d by simp
  moreover have "take header_size ?d = header_bytes ?h" "take (length ?p) (drop header_size ?d) = ?p" unfolding d by simp_all
  moreover have "length (encoded r) = header_size + length ?p" using encoded_header[OF fits] by simp
  moreover have "rh_type ?h = record_type_byte (rec_type r)" "rh_version ?h = kRecordVersion" "rh_reserved ?h = 0"
      "rh_sequence ?h = rec_sequence r" by (simp_all add: header_of_def)
  ultimately show ?thesis using rh rb len small crc
    unfolding decode_record_def by (simp add: decode_payload_def Let_def)
qed

section \<open>Arbitrary bytes\<close>

lemma safe_decoders [safe_intros]:
  "safe (decode_instrument i)" "safe (decode_new_order c)" "safe (decode_cancel x)" "safe (decode_replace y)"
  "safe decode_header"
  unfolding decode_instrument_def[abs_def] decode_new_order_def[abs_def] decode_cancel_def[abs_def]
    decode_replace_def[abs_def] decode_header_def[abs_def]
  by (intro safe_intros)+

lemma safe_body [safe_intros]: "safe (decode_body t record)"
proof -
  have "safe (\<lambda>r. case t of
        InstrumentDefined \<Rightarrow> do { (ins, r) \<leftarrow> decode_instrument (rec_instrument record) r;
          Some (record\<lparr>rec_timestamp := timestamp, rec_instrument := ins\<rparr>, r) }
      | NewOrderRecord \<Rightarrow> do { (c, r) \<leftarrow> decode_new_order (rec_new_order record) r;
          Some (record\<lparr>rec_timestamp := timestamp, rec_new_order := c\<rparr>, r) }
      | CancelOrderRecord \<Rightarrow> do { (c, r) \<leftarrow> decode_cancel (rec_cancel_order record) r;
          Some (record\<lparr>rec_timestamp := timestamp, rec_cancel_order := c\<rparr>, r) }
      | ReplaceOrderRecord \<Rightarrow> do { (c, r) \<leftarrow> decode_replace (rec_replace_order record) r;
          Some (record\<lparr>rec_timestamp := timestamp, rec_replace_order := c\<rparr>, r) })" for timestamp
    by (cases t; simp; intro safe_intros)
  then show ?thesis unfolding decode_body_def[abs_def] by (intro safe_intros)
qed

lemma safe_run: "safe m \<Longrightarrow> \<exists>v r'. m (ByteReader_new data) = Some (v, r')"
  unfolding safe_def by (metis ByteReader.select_convs(2) ByteReader_new_def reader_ok_def zero_le)

lemma decode_record_total: "\<exists>res. decode_record data = Some res \<and>
   (dr_status res = DecodeOk \<longrightarrow> header_size \<le> dr_consumed res \<and> dr_consumed res \<le> length data)"
proof -
  obtain h rh where h: "decode_header (ByteReader_new (take header_size data)) = Some (h, rh)"
    using safe_run[OF safe_decoders(5)] by blast
  let ?rec = "Record_default\<lparr>rec_type := record_type_of_byte (rh_type h), rec_sequence := rh_sequence h\<rparr>"
  let ?p = "take (unat (rh_payload_length h)) (drop header_size data)"
  obtain v rb where b: "decode_body (rec_type ?rec) ?rec (ByteReader_new ?p) = Some (v, rb)"
    using safe_run[OF safe_body] by blast
  then show ?thesis using h
    by (auto simp: decode_record_def decode_payload_def crc32c_table DecodeResult_default_def Let_def)
qed

section \<open>Damage\<close>

fun le_word :: "u8 list \<Rightarrow> u64" where
  "le_word [] = 0"
| "le_word (b # bs) = ucast b OR push_bit 8 (le_word bs)"

lemma byte_low: "ucast ((v :: u64) AND 0xFF) = (ucast v :: u8)"
proof -
  have "(0xFF :: u64) = mask 8" by (simp add: mask_eq_exp_minus_1)
  then have "v AND 0xFF = take_bit 8 v" by (simp only: take_bit_eq_mask)
  then show ?thesis by (intro bit_eqI) (auto simp: bit_ucast_iff bit_take_bit_iff)
qed

lemma put_bytes_Suc: "put_bytes v (Suc n) = ucast v # put_bytes (drop_bit 8 v) n"
  unfolding put_bytes_def byte_low by (simp add: upt_conv_Cons map_Suc_upt[symmetric] comp_def add.commute del: upt_Suc)

lemma put_bytes_le: "length bs \<le> 8 \<Longrightarrow> put_bytes (le_word bs) (length bs) = bs"
proof (induction bs)
  case Nil
  then show ?case by (simp add: put_bytes_def)
next
  case (Cons b bs)
  have "ucast (ucast b OR push_bit 8 (le_word bs)) = b"
    by (rule bit_eqI) (auto simp: bit_ucast_iff bit_or_iff bit_push_bit_iff)
  moreover have "put_bytes (drop_bit 8 (ucast b OR push_bit 8 (le_word bs))) (length bs) = put_bytes (le_word bs) (length bs)"
  proof (rule nth_equalityI)
    fix i assume "i < length (put_bytes (drop_bit 8 (ucast b OR push_bit 8 (le_word bs))) (length bs))"
    then have i: "i < length bs" "8 * i + 8 < 64" using Cons.prems by auto
    have "ucast (drop_bit (8 * i) (drop_bit 8 (ucast b OR push_bit 8 (le_word bs)))) = (ucast (drop_bit (8 * i) (le_word bs)) :: u8)"
      using i(2) by (intro bit_eqI)
        (auto simp: bit_ucast_iff bit_or_iff bit_push_bit_iff bit_drop_bit_eq dest: bit_imp_le_length)
    then show "put_bytes (drop_bit 8 (ucast b OR push_bit 8 (le_word bs))) (length bs) ! i = put_bytes (le_word bs) (length bs) ! i"
      using i(1) by (simp add: byte_low)
  qed simp
  ultimately show ?case using Cons by (simp add: put_bytes_Suc)
qed

lemma put_bytes_cast:
  "put_bytes (ucast (ucast v :: u32)) 4 = put_bytes v 4" "put_bytes (ucast (ucast v :: u16)) 2 = put_bytes v 2"
  unfolding put_bytes_def byte_low
  by (auto simp: map_eq_conv intro!: bit_eqI) (auto simp: bit_ucast_iff bit_drop_bit_eq dest: bit_imp_le_length)

lemma header_exists:
  assumes "length bs = header_size"
  obtains h where "header_bytes h = bs"
proof -
  let ?h = "\<lparr>rh_payload_length = ucast (le_word (take 4 bs)), rh_checksum = ucast (le_word (take 4 (drop 4 bs))),
    rh_sequence = le_word (take 8 (drop 8 bs)), rh_type = bs ! 16, rh_version = bs ! 17,
    rh_reserved = ucast (le_word (take 2 (drop 18 bs)))\<rparr>"
  have n: "length bs = 20" using assms by (simp add: header_size_def)
  have "put_bytes (le_word (take 4 bs)) 4 = take 4 bs" "put_bytes (le_word (take 4 (drop 4 bs))) 4 = take 4 (drop 4 bs)"
    "put_bytes (le_word (take 8 (drop 8 bs))) 8 = take 8 (drop 8 bs)" "put_bytes (le_word (take 2 (drop 18 bs))) 2 = take 2 (drop 18 bs)"
    using put_bytes_le[of "take 4 bs"] put_bytes_le[of "take 4 (drop 4 bs)"] put_bytes_le[of "take 8 (drop 8 bs)"]
      put_bytes_le[of "take 2 (drop 18 bs)"] n by simp_all
  then have hb: "header_bytes ?h = take 4 bs @ take 4 (drop 4 bs) @ take 8 (drop 8 bs) @ [bs ! 16] @ [bs ! 17] @ take 2 (drop 18 bs)"
    by (simp add: header_bytes_def put_bytes_cast)
  have d16: "drop 16 bs = bs ! 16 # drop 17 bs" "drop 17 bs = bs ! 17 # drop 18 bs"
    using n Cons_nth_drop_Suc[of 16 bs] Cons_nth_drop_Suc[of 17 bs] by simp_all
  have "take 4 bs @ take 4 (drop 4 bs) @ take 8 (drop 8 bs) @ drop 16 bs = bs"
    using append_take_drop_id[of 4 bs] append_take_drop_id[of 4 "drop 4 bs"] append_take_drop_id[of 8 "drop 8 bs"] by simp
  moreover have "take 2 (drop 18 bs) = drop 18 bs" using n by simp
  ultimately have "header_bytes ?h = bs" using hb d16 by simp
  then show ?thesis by (rule that)
qed

text \<open>What an accepted record certifies of the bytes it was read from.\<close>

lemma decode_ok_checks:
  assumes "decode_record data = Some res" and "dr_status res = DecodeOk"
  obtains h where "take header_size data = header_bytes h" "header_size + unat (rh_payload_length h) \<le> length data"
    "crc32c_spec (take (header_size + unat (rh_payload_length h) - 8) (drop 8 data)) 0 = rh_checksum h"
proof -
  have n: "header_size \<le> length data"
    by (rule ccontr) (use assms in \<open>auto simp: decode_record_def DecodeResult_default_def\<close>)
  then obtain h where h: "header_bytes h = take header_size data" using header_exists[of "take header_size data"] by auto
  then obtain rh where "decode_header (ByteReader_new (take header_size data)) = Some (h, rh)"
    using reads_all[OF reads_header[of h]] by auto
  then have "header_size + unat (rh_payload_length h) \<le> length data \<and>
      crc32c_spec (take (header_size + unat (rh_payload_length h) - 8) (drop 8 data)) 0 = rh_checksum h"
    using assms n by (auto simp: decode_record_def crc32c_table DecodeResult_default_def Let_def split: if_splits)
  then show ?thesis using that[OF h[symmetric]] by blast
qed

lemma header_parts:
  "take 4 (header_bytes h) = put_bytes (ucast (rh_payload_length h)) 4"
  "take 4 (drop 4 (header_bytes h)) = put_bytes (ucast (rh_checksum h)) 4"
  by (simp_all add: header_bytes_def)

lemma put_bytes_u32_inj:
  assumes "put_bytes (ucast (a :: u32)) 4 = put_bytes (ucast b) 4"
  shows "a = b"
proof -
  obtain r r' where "rd_u32 (ByteReader_new (put_bytes (ucast a) 4)) = Some (a, r)"
      "rd_u32 (ByteReader_new (put_bytes (ucast b) 4)) = Some (b, r')"
    using reads_all[OF reads_u32[of a]] reads_all[OF reads_u32[of b]] by blast
  then show ?thesis unfolding assms by simp
qed

text \<open>A record with one byte changed past its length field is never accepted.\<close>

lemma decode_detects:
  assumes fits: "record_fits r" and enc: "encoded r = xs @ b # ys" and pos: "4 \<le> length xs" and ne: "c \<noteq> b"
  shows "\<exists>res. decode_record (xs @ c # ys @ post) = Some res \<and> dr_status res \<noteq> DecodeOk"
proof -
  let ?d = "xs @ c # ys @ post" and ?e = "encoded r @ post"
  obtain res where res: "decode_record ?d = Some res" using decode_record_total by blast
  have "dr_status res \<noteq> DecodeOk"
  proof
    assume ok: "dr_status res = DecodeOk"
    obtain h where h: "take header_size ?d = header_bytes h" "header_size + unat (rh_payload_length h) \<le> length ?d"
        "crc32c_spec (take (header_size + unat (rh_payload_length h) - 8) (drop 8 ?d)) 0 = rh_checksum h"
      by (rule decode_ok_checks[OF res ok])
    let ?g = "header_of r"
    have g: "take header_size ?e = header_bytes ?g" using encoded_header[OF fits] by simp
    have glen: "header_size + unat (rh_payload_length ?g) = length (encoded r)"
      using encoded_header[OF fits] payload_length[OF fits] by (simp add: header_of_def unat_of_nat take_bit_nat_eq_self)
    have gcrc: "crc32c_spec (drop 8 (encoded r)) 0 = rh_checksum ?g"
      using checked_drop[OF fits, of "[]"] by (simp add: header_of_def)
    have e: "?e = xs @ b # ys @ post" using enc by simp
    have t: "take 4 (take header_size ?d) = take 4 (take header_size ?e)" using pos unfolding e by (simp add: header_size_def)
    have "rh_payload_length h = rh_payload_length ?g"
      using t unfolding h(1) g header_parts by (rule put_bytes_u32_inj)
    then have hcrc: "crc32c_spec (take (length (encoded r) - 8) (drop 8 ?d)) 0 = rh_checksum h" using h(3) glen by simp
    have cut: "take 4 (drop 4 (take header_size zs)) = take 4 (drop 4 zs)" for zs :: "u8 list"
      by (simp add: header_size_def drop_take)
    show False
    proof (cases "length xs < 8")
      case True
      then have "drop 8 ?d = drop 8 ?e" unfolding e by (simp add: drop_Cons')
      moreover have "8 \<le> length (encoded r)" by (simp add: encoded_def)
      ultimately have "take (length (encoded r) - 8) (drop 8 ?d) = drop 8 (encoded r)" by simp
      then have "rh_checksum h = rh_checksum ?g" using hcrc gcrc by simp
      then have "take 4 (drop 4 (take header_size ?d)) = take 4 (drop 4 (take header_size ?e))"
        unfolding h(1) g header_parts by simp
      then have "take 4 (drop 4 ?d) = take 4 (drop 4 ?e)" unfolding cut .
      then have "take 4 (drop 4 ?d) ! (length xs - 4) = take 4 (drop 4 ?e) ! (length xs - 4)" by simp
      then show False using True pos ne unfolding e by (simp add: nth_append)
    next
      case False
      then have "take 4 (drop 4 (take header_size ?d)) = take 4 (drop 4 (take header_size ?e))"
        unfolding e cut by simp
      then have crc: "rh_checksum h = rh_checksum ?g" unfolding h(1) g header_parts by (rule put_bytes_u32_inj)
      have "drop 8 (encoded r) = drop 8 xs @ b # ys" "take (length (encoded r) - 8) (drop 8 ?d) = drop 8 xs @ c # ys"
        using False enc by simp_all
      then show False using crc32c_one_byte[OF ne, of "drop 8 xs" ys 0] hcrc gcrc crc by simp
    qed
  qed
  then show ?thesis using res by blast
qed

end
