(* ===== verification/Book_Example.thy ===== *)
theory Book_Example
  imports Book_Effects Journal_Record "HOL-Library.Code_Target_Nat"
begin

text \<open>
  A small book to apply the properties to: one instrument, five orders.  Commands run on the
  specification side by side with the code, so that what the code's book holds is known without
  evaluating hash tables and bitmaps.
\<close>

section \<open>Commands on the specification\<close>

definition a_step :: "BookCommand \<Rightarrow> ABook \<Rightarrow> ABook" where
  "a_step c A = (case c of
       BookSubmit ord \<Rightarrow> snd (snd (a_submit A ord ([], None)))
     | BookCancel oid \<Rightarrow> snd (a_cancel A oid)
     | BookReplace oid p q n t \<Rightarrow> snd (snd (a_replace A oid p q n t ([], None))))"

definition a_fits :: "BookCommand \<Rightarrow> ABook \<Rightarrow> bool" where
  "a_fits c A = (case c of
       BookSubmit ord \<Rightarrow> room_for A (ord_side ord) (ord_quantity ord) \<and> slot_free A
     | BookCancel oid \<Rightarrow> True
     | BookReplace oid p q n t \<Rightarrow> room_for A Buy q \<and> room_for A Sell q)"

definition a_checked :: "BookCommand \<Rightarrow> ABook \<Rightarrow> ABook option" where
  "a_checked c A = (if a_fits c A then Some (a_step c A) else None)"

lemma a_checked_Some: "a_checked c A = Some A' \<longleftrightarrow> a_fits c A \<and> A' = a_step c A"
  by (auto simp: a_checked_def)

lemma fits_book_spec: "book_inv b A \<Longrightarrow> fits_book c b \<longleftrightarrow> a_fits c A"
  by (cases c) (simp_all add: fits_book_def a_fits_def book_inv_room)

lemma book_step_spec:
  assumes inv: "book_inv b A" and fits: "a_fits c A"
  shows "\<exists>b'. book_step c b = Some b' \<and> book_inv b' (a_step c A)"
proof (cases c)
  case (BookSubmit ord)
  obtain res out' A' where r: "a_submit A ord ([], None) = (res, out', A')" by (metis surj_pair)
  then show ?thesis using book_inv_submit[OF inv _ _ r] fits book_inv_room[OF inv] BookSubmit
    by (auto simp: a_fits_def book_step_def a_step_def)
next
  case (BookCancel oid)
  obtain res A' where r: "a_cancel A oid = (res, A')" by (metis surj_pair)
  then show ?thesis using book_inv_cancel[OF inv r] BookCancel by (auto simp: book_step_def a_step_def)
next
  case (BookReplace oid p q n t)
  obtain res out' A' where r: "a_replace A oid p q n t ([], None) = (res, out', A')" by (metis surj_pair)
  then show ?thesis using book_inv_replace[OF inv _ _ r] fits book_inv_room[OF inv] BookReplace
    by (auto simp: a_fits_def book_step_def a_step_def)
qed

lemma book_run_spec:
  assumes "book_inv b A" "reachable ins b" "foldM a_checked cs A = Some A'"
  shows "\<exists>b'. foldM book_step cs b = Some b' \<and> book_inv b' A' \<and> reachable ins b'"
  using assms
proof (induction cs arbitrary: b A)
  case (Cons c cs)
  then have fits: "a_fits c A" and rest: "foldM a_checked cs (a_step c A) = Some A'"
    by (auto simp: a_checked_Some bind_eq_Some_conv)
  obtain b1 where "book_step c b = Some b1" "book_inv b1 (a_step c A)"
    using book_step_spec[OF Cons.prems(1) fits] by blast
  moreover from this have "reachable ins b1"
    using reachable.step[OF Cons.prems(2)] fits fits_book_spec[OF Cons.prems(1)] by blast
  ultimately show ?case using Cons.IH[OF _ _ rest] by simp
qed auto

section \<open>The example\<close>

definition demo_ins :: Instrument where
  "demo_ins = Instrument_default\<lparr>ins_id := 1, ins_symbol := ''XC'', ins_max_price := 100\<rparr>"

definition demo_order :: "OrderId \<Rightarrow> AccountId \<Rightarrow> Side \<Rightarrow> Price \<Rightarrow> Quantity \<Rightarrow> Order" where
  "demo_order i a s p q = Order_default\<lparr>ord_id := i, ord_account := a, ord_instrument := 1, ord_side := s, ord_price := p,
     ord_quantity := q, ord_sequence := i\<rparr>"

definition demo_commands :: "BookCommand list" where
  "demo_commands = [BookSubmit (demo_order 1 1 Sell 10 5), BookSubmit (demo_order 2 2 Sell 10 7),
     BookSubmit (demo_order 3 3 Sell 12 4), BookSubmit (demo_order 4 4 Buy 8 6),
     BookSubmit ((demo_order 5 5 Buy 9 3)\<lparr>ord_post_only := True\<rparr>), BookSubmit (demo_order 6 6 Buy 10 2)]"

definition demo_book :: OrderBook where
  "demo_book = the (OrderBook_new demo_ins 4 \<bind> foldM book_step demo_commands)"

text \<open>The last order has taken two lots of the first; five orders remain.\<close>

definition demo_resting :: "OrderId \<Rightarrow> Side \<Rightarrow> Price \<Rightarrow> Quantity \<Rightarrow> Quantity \<Rightarrow> Order" where
  "demo_resting i s p q r = (demo_order i i s p q)\<lparr>ord_remaining := r\<rparr>"

fun demo_levels :: "Side \<Rightarrow> Level list" where
  "demo_levels Buy = [(9, [(demo_resting 5 Buy 9 3 3)\<lparr>ord_post_only := True\<rparr>]), (8, [demo_resting 4 Buy 8 6 6])]"
| "demo_levels Sell = [(10, [demo_resting 1 Sell 10 5 3, demo_resting 2 Sell 10 7 7]), (12, [demo_resting 3 Sell 12 4 4])]"

definition demo_spec :: ABook where
  "demo_spec = \<lparr>ab_instrument = demo_ins, ab_levels = demo_levels, ab_next_trade_id = 2\<rparr>"

lemma demo_eval: "case foldM a_checked demo_commands (ABook_new demo_ins) of None \<Rightarrow> False
  | Some A \<Rightarrow> ab_instrument A = demo_ins \<and> ab_levels A Buy = demo_levels Buy \<and> ab_levels A Sell = demo_levels Sell \<and>
      ab_next_trade_id A = 2"
  by code_simp

lemma demo_run: "foldM a_checked demo_commands (ABook_new demo_ins) = Some demo_spec"
proof (cases "foldM a_checked demo_commands (ABook_new demo_ins)")
  case (Some A)
  then have "ab_levels A s = demo_levels s" for s using demo_eval by (cases s) auto
  then have "ab_levels A = demo_levels" by (rule ext)
  then show ?thesis using Some demo_eval by (simp add: demo_spec_def)
qed (use demo_eval in simp)

lemma demo_inv: "book_inv demo_book demo_spec" and demo_reachable: "reachable demo_ins demo_book"
proof -
  have tick: "ins_tick_size demo_ins > 0" by (simp add: demo_ins_def Instrument_default_def)
  obtain b where b: "OrderBook_new demo_ins 4 = Some b" "book_inv b (ABook_new demo_ins)"
    using book_inv_new[OF tick] by blast
  from book_run_spec[OF b(2) reachable.start[OF tick b(1)] demo_run]
  show "book_inv demo_book demo_spec" "reachable demo_ins demo_book" using b(1) by (auto simp: demo_book_def)
qed

end
