(* ===== verification/Book_Properties.thy ===== *)
theory Book_Properties
  imports Book_Example
begin

text \<open>
  What the order book guarantees, stated of the code's own functions on every book the code can
  reach, each with an instance on the example book.
\<close>

section \<open>From the code to the specification\<close>

lemma submit_spec:
  assumes "reachable ins b" "fits_book (BookSubmit ord) b" "submit b ord out = Some (res, out', b')"
  obtains A A' where "book_inv b A" "book_inv b' A'" "a_insert A (ord\<lparr>ord_remaining := ord_quantity ord\<rparr>) out = (res, out', A')"
    "ab_instrument A = ins"
proof -
  obtain A where A: "book_inv b A" "ab_instrument A = ins" using reachable_inv[OF assms(1)] by blast
  obtain r o' A' where r: "a_submit A ord out = (r, o', A')" by (metis surj_pair)
  from book_inv_submit[OF A(1) _ _ r] assms(2,3) have "r = res" "o' = out'" "book_inv b' A'"
    by (auto simp: fits_book_def)
  then show thesis using that A r by (simp add: a_submit_def)
qed

lemma book_queries:
  assumes "book_inv b A"
  shows "resting_orders b = Some (all_orders A)" "find_order b oid = Some (a_find A oid)"
    "best_of s b = Some (a_best A s)" "total_quantity b s = Some (of_nat (qty_sum (side_orders (ab_levels A s))))"
    "depth_side b s n = Some (map depth_level (take n (ab_levels A s)))" "top_side s b = Some (a_top (ab_levels A s))"
    "level_count s b = length (ab_levels A s)" "resting_order_count b = length (all_orders A)"
    "bk_instrument b = ab_instrument A"
proof -
  obtain H where H: "book_rep b H" "book_abs b H = A" using assms by (auto simp: book_inv_def)
  note q = resting_orders_rep[OF H(1)] find_order_rep[OF H(1)] best_of_rep[OF H(1)] total_quantity_rep[OF H(1)]
    depth_side_rep[OF H(1)] top_side_rep[OF H(1)] level_count_rep[OF H(1)] resting_order_count_rep[OF H(1)]
  show "bk_instrument b = ab_instrument A" using H(2) by (auto simp: book_abs_def)
  show "resting_orders b = Some (all_orders A)" "find_order b oid = Some (a_find A oid)"
    "best_of s b = Some (a_best A s)" "total_quantity b s = Some (of_nat (qty_sum (side_orders (ab_levels A s))))"
    "depth_side b s n = Some (map depth_level (take n (ab_levels A s)))" "top_side s b = Some (a_top (ab_levels A s))"
    "level_count s b = length (ab_levels A s)" "resting_order_count b = length (all_orders A)"
    using q unfolding H(2) by simp_all
qed

lemma total_unat:
  assumes "book_inv b A"
  shows "\<exists>t. total_quantity b s = Some t \<and> unat t = qty_sum (side_orders (ab_levels A s))"
  using book_queries(4)[OF assms, of s] book_inv_wf[OF assms]
  by (auto simp: wf_book_def side_fits_def unat_of_nat take_bit_nat_eq_self)

text \<open>The orders of one side, as the code visits them.\<close>

definition on_side :: "Side \<Rightarrow> Order list \<Rightarrow> Order list" where
  "on_side s os = filter (\<lambda>x. ord_side x = s) os"

lemma on_side_orders: "book_inv b A \<Longrightarrow> on_side s (all_orders A) = side_orders (ab_levels A s)"
  by (simp add: on_side_def orders_of_side book_inv_wf)

lemma side_orders_Cons: "side_orders (l # ls) = snd l @ side_orders ls"
  by (simp add: side_orders_def)

text \<open>Best price first.\<close>

definition best_first :: "Side \<Rightarrow> Order list \<Rightarrow> bool" where
  "best_first s os \<longleftrightarrow> sorted_wrt (\<lambda>x y. \<not> price_before (desc s) (ord_price y) (ord_price x)) os"

lemma side_best_first:
  assumes "wf_side ins s ls"
  shows "best_first s (side_orders ls)"
  using assms
proof (induction ls)
  case (Cons l ls)
  have level: "\<forall>x \<in> set (snd l). ord_price x = fst l"
    using Cons.prems by (auto simp: wf_side_def wf_level_def wf_order_def)
  have later: "\<forall>y \<in> set (side_orders ls). price_before (desc s) (fst l) (ord_price y)"
    using Cons.prems by (fastforce simp: wf_side_def wf_level_def wf_order_def side_orders_def)
  have irr: "\<not> price_before d p p" "price_before d p q \<Longrightarrow> \<not> price_before d q p" for d p q
    by (auto simp: price_before_def)
  have "sorted_wrt (\<lambda>x y. \<not> price_before (desc s) (ord_price y) (ord_price x)) q"
    if "\<forall>x \<in> set q. ord_price x = p" for q p
    using that by (induction q) (auto simp: irr)
  then have "best_first s (snd l)" using level by (simp add: best_first_def)
  moreover have "best_first s (side_orders ls)" using Cons by (simp add: wf_side_def)
  ultimately show ?case
    using level later irr(2) by (simp add: best_first_def sorted_wrt_append side_orders_Cons)
qed (simp add: best_first_def side_orders_def)

section \<open>Refinement and safety\<close>

text \<open>
  C1: every command of the order book (submit, cancel, replace) refines the specification over
  plain lists: on a book that represents the well formed abstract book \<open>A\<close>, and within the capacities
  of a command, the code neither goes wrong nor loops, reports the specification's result and
  output streams, and leaves a book that represents the specification's.
\<close>

theorem book_refines_spec:
  assumes "book_inv b A"
  shows "(\<forall>ord out. fits_book (BookSubmit ord) b \<longrightarrow> (case a_submit A ord out of (res, out', A') \<Rightarrow>
      \<exists>b'. submit b ord out = Some (res, out', b') \<and> book_inv b' A')) \<and>
    (\<forall>oid. case a_cancel A oid of (res, A') \<Rightarrow> \<exists>b'. cancel b oid = Some (res, b') \<and> book_inv b' A') \<and>
    (\<forall>oid p q n t out. fits_book (BookReplace oid p q n t) b \<longrightarrow> (case a_replace A oid p q n t out of (res, out', A') \<Rightarrow>
      \<exists>b'. replace b oid p q n t out = Some (res, out', b') \<and> book_inv b' A'))"
proof (intro conjI allI impI)
  fix ord out assume "fits_book (BookSubmit ord) b"
  then show "case a_submit A ord out of (res, out', A') \<Rightarrow> \<exists>b'. submit b ord out = Some (res, out', b') \<and> book_inv b' A'"
    using book_inv_submit[OF assms] by (simp add: fits_book_def split: prod.split)
next
  fix oid show "case a_cancel A oid of (res, A') \<Rightarrow> \<exists>b'. cancel b oid = Some (res, b') \<and> book_inv b' A'"
    using book_inv_cancel[OF assms] by (simp split: prod.split)
next
  fix oid p q n t out assume "fits_book (BookReplace oid p q n t) b"
  then show "case a_replace A oid p q n t out of (res, out', A') \<Rightarrow>
      \<exists>b'. replace b oid p q n t out = Some (res, out', b') \<and> book_inv b' A'"
    using book_inv_replace[OF assms] by (simp add: fits_book_def split: prod.split)
qed

theorem book_refines_spec_witness:
  "book_inv demo_book demo_spec \<and> (\<exists>b'. cancel demo_book 2 =
     Some (CancelResult_default\<lparr>cr_order := demo_resting 2 Sell 10 7 7\<rparr>, b'))"
proof -
  have "fst (a_cancel demo_spec 2) = CancelResult_default\<lparr>cr_order := demo_resting 2 Sell 10 7 7\<rparr>"
    by code_simp
  moreover have "case a_cancel demo_spec 2 of (res, A') \<Rightarrow> \<exists>b'. cancel demo_book 2 = Some (res, b') \<and> book_inv b' A'"
    by (rule book_refines_spec[OF demo_inv, THEN conjunct2, THEN conjunct1, THEN spec])
  ultimately show ?thesis using demo_inv by (auto split: prod.splits)
qed


lemma run_fits_spec:
  assumes "book_inv b A" "foldM a_checked cs A = Some A'"
  shows "run_fits cs b"
  using assms
proof (induction cs arbitrary: b A)
  case (Cons c cs)
  then have fits: "a_fits c A" and rest: "foldM a_checked cs (a_step c A) = Some A'"
    by (auto simp: a_checked_Some bind_eq_Some_conv)
  obtain b1 where "book_step c b = Some b1" "book_inv b1 (a_step c A)"
    using book_step_spec[OF Cons.prems(1) fits] by blast
  then show ?case using Cons.IH[OF _ rest] fits fits_book_spec[OF Cons.prems(1)] by simp
qed simp


section \<open>The state of a book\<close>

text \<open>
  C6: a reachable book is never crossed: both best prices can be read, and when both sides hold
  orders the best bid is below the best ask.
\<close>

theorem book_uncrossed:
  assumes "reachable ins b"
  shows "\<exists>bid ask. best_bid b = Some bid \<and> best_ask b = Some ask \<and>
    (case (bid, ask) of (Some p, Some q) \<Rightarrow> p < q | _ \<Rightarrow> True)"
proof -
  obtain A where A: "book_inv b A" using reachable_inv[OF assms] by blast
  then have "uncrossed A" using book_inv_wf by (auto simp: wf_book_def)
  then have "case (a_best A Buy, a_best A Sell) of (Some p, Some q) \<Rightarrow> p < q | _ \<Rightarrow> True"
    by (cases "ab_levels A Buy"; cases "ab_levels A Sell") (auto simp: a_best_def uncrossed_def)
  then show ?thesis using book_queries(3)[OF A] by (auto simp: best_bid_def best_ask_def)
qed

theorem book_uncrossed_witness:
  "reachable demo_ins demo_book \<and> (\<exists>bid ask. best_bid demo_book = Some bid \<and> best_ask demo_book = Some ask \<and>
    (case (bid, ask) of (Some p, Some q) \<Rightarrow> p < q | _ \<Rightarrow> True))"
  using book_uncrossed[OF demo_reachable] demo_reachable by blast

text \<open>
  C7: price-time priority.  The fills of a submission follow the resting orders of the opposite
  side in the sequence in which the book keeps them, best price first, without going back, each at
  the price of the order it hits and at a price the new order reaches; and the orders that were
  ahead are gone: what remains of that side is a tail of it, of which only the first order may be
  partly taken.
\<close>

theorem submit_priority:
  assumes "reachable ins b" "fits_book (BookSubmit ord) b" "submit b ord ([], ws) = Some (res, (fs, ws'), b')"
  shows "\<exists>os os'. resting_orders b = Some os \<and> resting_orders b' = Some os' \<and>
    best_first (opposite (ord_side ord)) (on_side (opposite (ord_side ord)) os) \<and>
    subseq (map (\<lambda>f. (fill_price f, fill_resting_order f)) fs)
      (map (\<lambda>x. (ord_price x, ord_id x)) (on_side (opposite (ord_side ord)) os)) \<and>
    (\<forall>f \<in> set fs. crosses_at (ord_type ord = Market) (ord_price ord) (is_buy ord) (fill_price f)) \<and>
    consumed (on_side (opposite (ord_side ord)) os) (on_side (opposite (ord_side ord)) os')"
proof -
  obtain A A' where A: "book_inv b A" "book_inv b' A'"
    and r: "a_insert A (ord\<lparr>ord_remaining := ord_quantity ord\<rparr>) ([], ws) = (res, (fs, ws'), A')"
    using submit_spec[OF assms] by metis
  note wf = book_inv_wf[OF A(1)]
  have "best_first s (side_orders (ab_levels A s))" for s
    using wf side_best_first[of "ab_instrument A" s] by (simp add: wf_book_def)
  moreover have "subseq (map (\<lambda>f. (fill_price f, fill_resting_order f)) fs)
      (map (\<lambda>x. (ord_price x, ord_id x)) (side_orders (ab_levels A (opposite (ord_side ord))))) \<and>
      (\<forall>f \<in> set fs. crosses_at (ord_type ord = Market) (ord_price ord) (is_buy ord) (fill_price f))"
  proof (cases "sr_accepted res")
    case True
    show ?thesis using a_insert_fills[OF wf r True] by (auto simp: is_buy_def)
  next
    case False
    then show ?thesis using a_insert_rejected[OF r] by simp
  qed
  moreover have "consumed (side_orders (ab_levels A (opposite (ord_side ord)))) (side_orders (ab_levels A' (opposite (ord_side ord))))"
    using a_insert_consumes[OF r] by simp
  ultimately show ?thesis
    using book_queries(1)[OF A(1)] book_queries(1)[OF A(2)] on_side_orders[OF A(1)] on_side_orders[OF A(2)] by simp
qed

text \<open>On the example, a buyer of five at 12 takes the three left of the first seller and two of the second.\<close>

definition demo_sweep :: Order where
  "demo_sweep = demo_order 7 7 Buy 12 5"

definition demo_shows :: "Order \<Rightarrow> (SubmitResult \<Rightarrow> Fill list \<Rightarrow> bool) \<Rightarrow> bool" where
  "demo_shows ord P = (a_fits (BookSubmit ord) demo_spec \<and>
     (case a_submit demo_spec ord ([], Some []) of (res, (fs, ws), A') \<Rightarrow> P res fs))"

lemma demo_submit:
  assumes "demo_shows ord P"
  obtains res fs ws b' where "fits_book (BookSubmit ord) demo_book"
    "submit demo_book ord ([], Some []) = Some (res, (fs, ws), b')" "P res fs"
proof -
  have fits: "fits_book (BookSubmit ord) demo_book" using assms fits_book_spec[OF demo_inv] by (simp add: demo_shows_def)
  obtain res fs ws A' where r: "a_submit demo_spec ord ([], Some []) = (res, (fs, ws), A')" by (metis surj_pair)
  then show ?thesis using book_inv_submit[OF demo_inv _ _ r] fits assms that by (auto simp: demo_shows_def fits_book_def)
qed

lemma demo_sweep_shows: "demo_shows demo_sweep (\<lambda>res fs. sr_reject res = RejectNone \<and> \<not> sr_rested res \<and> sr_filled res = 5 \<and>
  map fill_resting_order fs = [1, 2] \<and> map fill_quantity fs = [3, 2])"
  by code_simp

theorem submit_priority_witness:
  "\<exists>res fs ws b' os os'. submit demo_book demo_sweep ([], Some []) = Some (res, (fs, ws), b') \<and>
     map fill_resting_order fs = [1, 2] \<and> resting_orders demo_book = Some os \<and> resting_orders b' = Some os' \<and>
     subseq (map (\<lambda>f. (fill_price f, fill_resting_order f)) fs) (map (\<lambda>x. (ord_price x, ord_id x)) (on_side Sell os)) \<and>
     consumed (on_side Sell os) (on_side Sell os')"
proof -
  have side: "opposite (ord_side demo_sweep) = Sell" by (simp add: demo_sweep_def demo_order_def)
  obtain res fs ws b' where fits: "fits_book (BookSubmit demo_sweep) demo_book"
    and s: "submit demo_book demo_sweep ([], Some []) = Some (res, (fs, ws), b')"
    and seen: "sr_reject res = RejectNone \<and> \<not> sr_rested res \<and> sr_filled res = 5 \<and>
      map fill_resting_order fs = [1, 2] \<and> map fill_quantity fs = [3, 2]"
    by (rule demo_submit[OF demo_sweep_shows])
  show ?thesis using submit_priority[OF demo_reachable fits s] s seen unfolding side
    by (elim exE conjE) (intro exI conjI; assumption)
qed

text \<open>
  C8: quantity is conserved.  The quantity of an accepted order is exactly what it traded, what
  self-trade prevention took from it and what stays open; the reported filled quantity is the sum
  of its fills; if it rests, the book finds it again with exactly the open quantity; and the total
  of the side it met falls by exactly the fills and the recorded withdrawals.
\<close>

theorem submit_conserves:
  assumes "reachable ins b" "fits_book (BookSubmit ord) b"
    "submit b ord ([], Some []) = Some (res, (fs, ws), b')" "sr_accepted res"
  shows "\<exists>left ws' t t'. unat (ord_quantity ord) = fill_total fs + unat (sr_stp_cancelled res) + left \<and>
    unat (sr_filled res) = fill_total fs \<and>
    (sr_rested res \<longrightarrow> 0 < left \<and> (\<exists>x. find_order b' (ord_id ord) = Some (Some x) \<and> unat (ord_remaining x) = left)) \<and>
    ws = Some ws' \<and> total_quantity b (opposite (ord_side ord)) = Some t \<and>
    total_quantity b' (opposite (ord_side ord)) = Some t' \<and> unat t = unat t' + fill_total fs + wd_total ws'"
proof -
  obtain A A' where A: "book_inv b A" "book_inv b' A'"
    and r: "a_insert A (ord\<lparr>ord_remaining := ord_quantity ord\<rparr>) ([], Some []) = (res, (fs, ws), A')"
    using submit_spec[OF assms(1-3)] by metis
  obtain x where x: "order_core x = order_core (ord\<lparr>ord_remaining := ord_quantity ord\<rparr>)"
    "unat (ord_quantity ord) = fill_total fs + unat (sr_stp_cancelled res) + unat (ord_remaining x)"
    "unat (sr_filled res) = fill_total fs" "sr_rested res \<Longrightarrow> ord_remaining x \<noteq> 0"
    "sr_rested res \<Longrightarrow> ab_levels A' (ord_side ord) = a_queue_in (desc (ord_side ord)) x (ab_levels A (ord_side ord))"
  proof (rule a_insert_accounts[OF book_inv_wf[OF A(1)] r assms(4)], goal_cases)
    case (1 x)
    show ?case by (rule 1(1)[of x]) (use 1(2-) in simp_all)
  qed
  obtain ws' where ws: "ws = Some ws'" "qty_sum (side_orders (ab_levels A (opposite (ord_side ord)))) =
      qty_sum (side_orders (ab_levels A' (opposite (ord_side ord)))) + fill_total fs + wd_total ws'"
    using a_insert_printed[OF r] by auto
  have found: "find_order b' (ord_id ord) = Some (Some x)" if "sr_rested res"
  proof -
    have "x \<in> set (all_orders A')" using x(5)[OF that] unfolding set_all_orders by (metis UNIV_I UN_I a_queue_in_set insertI1)
    moreover have "ord_id x = ord_id ord" using order_core_fields(1)[OF x(1)] by simp
    ultimately show ?thesis using a_find_iff[OF book_inv_wf[OF A(2)]] book_queries(2)[OF A(2)] by simp
  qed
  show ?thesis
    using x found ws total_unat[OF A(1), of "opposite (ord_side ord)"] total_unat[OF A(2), of "opposite (ord_side ord)"]
    by (intro exI[of _ "unat (ord_remaining x)"]) (auto simp: unat_gt_0)
qed

theorem submit_conserves_witness:
  "\<exists>res fs ws b' left ws' t t'. submit demo_book demo_sweep ([], Some []) = Some (res, (fs, ws), b') \<and>
     map fill_quantity fs = [3, 2] \<and> unat (ord_quantity demo_sweep) = fill_total fs + unat (sr_stp_cancelled res) + left \<and>
     total_quantity demo_book Sell = Some t \<and> total_quantity b' Sell = Some t' \<and> unat t = unat t' + fill_total fs + wd_total ws'"
proof -
  have side: "opposite (ord_side demo_sweep) = Sell" by (simp add: demo_sweep_def demo_order_def)
  obtain res fs ws b' where fits: "fits_book (BookSubmit demo_sweep) demo_book"
    and s: "submit demo_book demo_sweep ([], Some []) = Some (res, (fs, ws), b')"
    and seen: "sr_reject res = RejectNone \<and> \<not> sr_rested res \<and> sr_filled res = 5 \<and>
      map fill_resting_order fs = [1, 2] \<and> map fill_quantity fs = [3, 2]"
    by (rule demo_submit[OF demo_sweep_shows])
  have acc: "sr_accepted res" using seen by (simp add: sr_accepted_def)
  show ?thesis using submit_conserves[OF demo_reachable fits s acc] s seen unfolding side
    by (elim exE conjE) (intro exI conjI; assumption)
qed

end
