(* ===== verification/Book_Rules.thy ===== *)
theory Book_Rules
  imports Book_Properties
begin

text \<open>
  The order book's rules for the single order types and commands: refused submissions, fill-or-kill,
  post-only and immediate orders, cancellation, amendment and the published views.  As in
  \<open>Book_Properties\<close> they are stated of the code's functions on reachable books.
\<close>

section \<open>Refusals and order types\<close>

text \<open>A refused insertion returns the book and the output streams it was given.\<close>

lemma insert_matched_accepts:
  assumes "insert_matched b ord out = Some (res, out', b')" "\<not> sr_accepted res"
  shows "b' = b \<and> out' = out \<and> sr_reject res = FillOrKillUnfillable \<and> ord_tif ord = FillOrKill"
proof -
  let ?killed = "if ord_tif ord = FillOrKill then do {
      available \<leftarrow> fillable b (opposite (ord_side ord)) (crosses_at (ord_type ord = Market) (ord_price ord) (is_buy ord))
        (ord_remaining ord) (ord_account ord);
      Some (available < ord_remaining ord) } else Some False"
  obtain killed where k: "?killed = Some killed"
    using assms(1) unfolding insert_matched_def Let_def by (cases ?killed) simp_all
  show ?thesis
  proof (cases killed)
    case True
    then show ?thesis using assms(1) k unfolding insert_matched_def Let_def
      by (force simp: SubmitResult_default_def split: if_splits)
  next
    case False
    have "sr_reject res = RejectNone"
      using assms(1) k False unfolding insert_matched_def Let_def
      by (simp add: bind_eq_Some_conv split: if_splits prod.splits) (auto simp: SubmitResult_default_def)
    then show ?thesis using assms(2) by (simp add: sr_accepted_def)
  qed
qed

lemma book_insert_refused:
  assumes "book_insert b ord out = Some (res, out', b')" "\<not> sr_accepted res"
  shows "b' = b \<and> out' = out \<and> (validate b ord = Some (sr_reject res) \<or>
    sr_reject res = PostOnlyWouldCross \<and> ord_post_only ord \<and> would_cross b ord = Some True \<or>
    sr_reject res = FillOrKillUnfillable \<and> ord_tif ord = FillOrKill)"
proof -
  obtain reject where v: "validate b ord = Some reject" using assms(1) by (auto simp: book_insert_def bind_eq_Some_conv)
  show ?thesis
  proof (cases "reject \<noteq> RejectNone")
    case True
    then show ?thesis using assms v by (auto simp: book_insert_def)
  next
    case False
    then obtain refused where f: "(if ord_post_only ord then would_cross b ord else Some False) = Some refused"
      "(if refused then Some (SubmitResult_default\<lparr>sr_reject := PostOnlyWouldCross\<rparr>, out, b) else insert_matched b ord out)
        = Some (res, out', b')"
      using assms(1) v by (auto simp: book_insert_def bind_eq_Some_conv)
    show ?thesis
    proof (cases refused)
      case True
      then have "ord_post_only ord" "would_cross b ord = Some True" using f(1) by (simp_all split: if_splits)
      moreover have "res = SubmitResult_default\<lparr>sr_reject := PostOnlyWouldCross\<rparr>" "out' = out" "b' = b" using f(2) True by simp_all
      ultimately show ?thesis by simp
    next
      case False
      then show ?thesis using insert_matched_accepts[OF _ assms(2)] f(2) by simp
    qed
  qed
qed


text \<open>On the example: an order that reuses the id 2 of another account.\<close>

definition demo_reuse :: Order where
  "demo_reuse = demo_order 2 9 Buy 8 1"

lemma demo_reuse_shows: "demo_shows demo_reuse (\<lambda>res fs. sr_reject res = DuplicateOrderId)"
  by code_simp


text \<open>
  C11: fill-or-kill is all or nothing.  An accepted fill-or-kill order trades its whole quantity at
  once, whatever self-trade prevention does, and never rests; a refused one changes nothing.
\<close>

theorem submit_fill_or_kill:
  assumes "reachable ins b" "fits_book (BookSubmit ord) b"
    "submit b ord ([], Some []) = Some (res, (fs, ws), b')" "ord_tif ord = FillOrKill"
  shows "if sr_accepted res
    then fill_total fs = unat (ord_quantity ord) \<and> sr_filled res = ord_quantity ord \<and> \<not> sr_rested res
    else fs = [] \<and> ws = Some [] \<and> b' = b"
proof (cases "sr_accepted res")
  case True
  obtain A A' where A: "book_inv b A" "book_inv b' A'"
    and r: "a_insert A (ord\<lparr>ord_remaining := ord_quantity ord\<rparr>) ([], Some []) = (res, (fs, ws), A')"
    using submit_spec[OF assms(1-3)] by metis
  show ?thesis using a_insert_fok[OF book_inv_wf[OF A(1)] r True] assms(4) True by simp
next
  case False
  then show ?thesis using book_insert_refused[OF assms(3)[unfolded submit_def] False] by simp
qed

definition demo_fok :: "Quantity \<Rightarrow> Order" where
  "demo_fok q = (demo_order 7 7 Buy 10 q)\<lparr>ord_tif := FillOrKill\<rparr>"

lemma demo_fok_shows: "demo_shows (demo_fok 10) (\<lambda>res fs. sr_reject res = RejectNone)"
  "demo_shows (demo_fok 11) (\<lambda>res fs. sr_reject res = FillOrKillUnfillable)"
  by code_simp+

theorem submit_fill_or_kill_witness:
  "(\<exists>res fs ws b'. submit demo_book (demo_fok 10) ([], Some []) = Some (res, (fs, ws), b') \<and> fill_total fs = 10 \<and> \<not> sr_rested res) \<and>
   (\<exists>res ws. submit demo_book (demo_fok 11) ([], Some []) = Some (res, ([], ws), demo_book))"
proof
  have t: "ord_tif (demo_fok q) = FillOrKill" "ord_quantity (demo_fok q) = q" for q by (simp_all add: demo_fok_def demo_order_def)
  obtain res fs ws b' where s: "submit demo_book (demo_fok 10) ([], Some []) = Some (res, (fs, ws), b')"
    and f: "fits_book (BookSubmit (demo_fok 10)) demo_book" and r: "sr_reject res = RejectNone"
    by (rule demo_submit[OF demo_fok_shows(1)])
  then show "\<exists>res fs ws b'. submit demo_book (demo_fok 10) ([], Some []) = Some (res, (fs, ws), b') \<and> fill_total fs = 10 \<and> \<not> sr_rested res"
    using submit_fill_or_kill[OF demo_reachable f s t(1)] by (auto simp: sr_accepted_def t)
next
  have t: "ord_tif (demo_fok 11) = FillOrKill" by (simp add: demo_fok_def)
  obtain res fs ws b' where s: "submit demo_book (demo_fok 11) ([], Some []) = Some (res, (fs, ws), b')"
    and f: "fits_book (BookSubmit (demo_fok 11)) demo_book" and r: "sr_reject res = FillOrKillUnfillable"
    by (rule demo_submit[OF demo_fok_shows(2)])
  then show "\<exists>res ws. submit demo_book (demo_fok 11) ([], Some []) = Some (res, ([], ws), demo_book)"
    using submit_fill_or_kill[OF demo_reachable f s t] by (auto simp: sr_accepted_def)
qed

text \<open>A rested order is found again.\<close>

lemma rested_found:
  assumes inv: "book_inv b' A'" and core: "ord_id x = oid"
    and lv: "ab_levels A' s = a_queue_in d x ls"
  shows "find_order b' oid = Some (Some x)"
proof -
  have "x \<in> set (all_orders A')" unfolding set_all_orders using lv by (metis UNIV_I UN_I a_queue_in_set insertI1)
  then show ?thesis using a_find_iff[OF book_inv_wf[OF inv]] book_queries(2)[OF inv] core by simp
qed

text \<open>
  C12: a post-only order never trades.  Whether it is accepted or not there is no fill and no
  withdrawal and the opposite side is as it was; an accepted one that may rest does so with its
  whole quantity.
\<close>

theorem submit_post_only:
  assumes "reachable ins b" "fits_book (BookSubmit ord) b"
    "submit b ord ([], Some []) = Some (res, (fs, ws), b')" "ord_post_only ord"
  shows "fs = [] \<and> ws = Some [] \<and> sr_filled res = 0 \<and>
    (\<exists>os os'. resting_orders b = Some os \<and> resting_orders b' = Some os' \<and>
      on_side (opposite (ord_side ord)) os' = on_side (opposite (ord_side ord)) os) \<and>
    (sr_rested res \<longrightarrow> (\<exists>x. find_order b' (ord_id ord) = Some (Some x) \<and>
      ord_remaining x = ord_quantity ord))"
proof -
  obtain A A' where A: "book_inv b A" "book_inv b' A'"
    and r: "a_insert A (ord\<lparr>ord_remaining := ord_quantity ord\<rparr>) ([], Some []) = (res, (fs, ws), A')"
    using submit_spec[OF assms(1-3)] by metis
  have same: "fs = [] \<and> ws = Some [] \<and> sr_filled res = 0 \<and> (sr_accepted res \<longrightarrow> sr_stp_cancelled res = 0) \<and>
      ab_levels A' (opposite (ord_side ord)) = ab_levels A (opposite (ord_side ord))"
    using a_insert_post_only[OF r] a_insert_rejected[OF r] assms(4) by (cases "sr_accepted res") auto
  have rested: "\<exists>x. find_order b' (ord_id ord) = Some (Some x) \<and>
      ord_remaining x = ord_quantity ord" if rs: "sr_rested res"
  proof -
    have acc: "sr_accepted res" using a_insert_rejected(4)[OF r] rs by blast
    show ?thesis
    proof (rule a_insert_accounts[OF book_inv_wf[OF A(1)] r acc], goal_cases)
      case (1 x)
      have "ord_id x = ord_id ord" using order_core_fields(1)[OF 1(1)] by simp
      then show ?case using rested_found[OF A(2)] 1 rs same acc by (intro exI[of _ x]) (simp add: word_unat_eq_iff)
    qed
  qed
  show ?thesis using same rested book_queries(1)[OF A(1)] book_queries(1)[OF A(2)] on_side_orders[OF A(1)] on_side_orders[OF A(2)]
    by simp
qed

definition demo_maker :: Order where
  "demo_maker = (demo_order 7 7 Sell 10 4)\<lparr>ord_post_only := True\<rparr>"

lemma demo_maker_shows: "demo_shows demo_maker (\<lambda>res fs. sr_reject res = RejectNone \<and> sr_rested res)"
  by code_simp

theorem submit_post_only_witness:
  "\<exists>res ws b' x. submit demo_book demo_maker ([], Some []) = Some (res, ([], ws), b') \<and>
     find_order b' 7 = Some (Some x) \<and> ord_remaining x = 4"
proof -
  have t: "ord_post_only demo_maker" "ord_quantity demo_maker = 4" "ord_id demo_maker = 7" by (simp_all add: demo_maker_def demo_order_def)
  obtain res fs ws b' where s: "submit demo_book demo_maker ([], Some []) = Some (res, (fs, ws), b')"
    and f: "fits_book (BookSubmit demo_maker) demo_book"
    and r: "sr_reject res = RejectNone \<and> sr_rested res"
    by (rule demo_submit[OF demo_maker_shows])
  from submit_post_only[OF demo_reachable f s t(1)] r t have "fs = []"
    "\<exists>x. find_order b' 7 = Some (Some x) \<and> ord_remaining x = 4" by auto
  then show ?thesis using s by auto
qed

text \<open>
  C13: a market, immediate-or-cancel or fill-or-kill order never rests.  After its submission its own
  side of the book is what it was, so nothing of it stays.
\<close>

theorem submit_never_rests:
  assumes "reachable ins b" "fits_book (BookSubmit ord) b" "submit b ord ([], Some []) = Some (res, (fs, ws), b')"
    "ord_type ord = Market \<or> ord_tif ord = ImmediateOrCancel \<or> ord_tif ord = FillOrKill"
  shows "\<not> sr_rested res \<and> (\<exists>os os'. resting_orders b = Some os \<and> resting_orders b' = Some os' \<and>
    on_side (ord_side ord) os' = on_side (ord_side ord) os)"
proof -
  obtain A A' where A: "book_inv b A" "book_inv b' A'"
    and r: "a_insert A (ord\<lparr>ord_remaining := ord_quantity ord\<rparr>) ([], Some []) = (res, (fs, ws), A')"
    using submit_spec[OF assms(1-3)] by metis
  have "\<not> sr_rested res \<and> ab_levels A' (ord_side ord) = ab_levels A (ord_side ord)"
  proof (cases "sr_accepted res")
    case False
    then show ?thesis using a_insert_rejected[OF r] by simp
  next
    case True
    have fok: "ord_tif ord = FillOrKill \<longrightarrow> \<not> sr_rested res" using a_insert_fok[OF book_inv_wf[OF A(1)] r True] by simp
    show ?thesis by (rule a_insert_accounts[OF book_inv_wf[OF A(1)] r True]) (use assms(4) fok in auto)
  qed
  then show ?thesis using book_queries(1)[OF A(1)] book_queries(1)[OF A(2)] on_side_orders[OF A(1)] on_side_orders[OF A(2)] by simp
qed

definition demo_taker :: Order where
  "demo_taker = (demo_order 7 7 Buy 10 20)\<lparr>ord_tif := ImmediateOrCancel\<rparr>"

lemma demo_taker_shows: "demo_shows demo_taker (\<lambda>res fs. sr_reject res = RejectNone \<and> sr_filled res = 10)"
  by code_simp

theorem submit_never_rests_witness:
  "\<exists>res fs ws b'. submit demo_book demo_taker ([], Some []) = Some (res, (fs, ws), b') \<and> sr_filled res = 10 \<and> \<not> sr_rested res"
proof -
  obtain res fs ws b' where s: "submit demo_book demo_taker ([], Some []) = Some (res, (fs, ws), b')"
    and f: "fits_book (BookSubmit demo_taker) demo_book" and r: "sr_reject res = RejectNone \<and> sr_filled res = 10"
    by (rule demo_submit[OF demo_taker_shows])
  have "ord_tif demo_taker = ImmediateOrCancel" by (simp add: demo_taker_def)
  then show ?thesis using submit_never_rests[OF demo_reachable f s] s r by auto
qed

end
