(* ===== verification/Book_Lifecycle.thy ===== *)
theory Book_Lifecycle
  imports Book_Properties
begin

text \<open>
  Cancelling and amending a resting order, and the views of the book that are published: the top of
  book and the depth.
\<close>

section \<open>Cancelling\<close>

text \<open>An order id occurs on one side only, so what is done to the order on its side is done to the book.\<close>

lemma foreign_side:
  assumes "wf_book A" "a_find A oid = Some x"
  shows "\<forall>y \<in> set (side_orders (ab_levels A (opposite (ord_side x)))). ord_id y \<noteq> oid"
  using assms(1) a_find_Some[OF assms] unfolding wf_book_def distinct_order_ids[of A "ord_side x"] by auto

lemma a_cancel_orders:
  assumes "wf_book A"
  shows "all_orders (snd (a_cancel A oid)) = filter (\<lambda>x. ord_id x \<noteq> oid) (all_orders A)"
proof (cases "a_find A oid")
  case None
  then have "\<forall>x \<in> set (all_orders A). ord_id x \<noteq> oid" using a_find_None[of A oid] by (auto simp: order_ids_def)
  then show ?thesis using None by (simp add: a_cancel_def filter_id_conv)
next
  case (Some x)
  have "filter (\<lambda>x. ord_id x \<noteq> oid) (side_orders (ab_levels A (opposite (ord_side x)))) =
      side_orders (ab_levels A (opposite (ord_side x)))"
    using foreign_side[OF assms Some] by (simp add: filter_id_conv)
  then show ?thesis using Some
    by (cases "ord_side x") (simp_all add: a_cancel_def all_orders_def set_side_def side_orders_take_out)
qed

lemma cancel_unknown:
  assumes "find_order b oid = Some None"
  shows "cancel b oid = Some (CancelResult_default\<lparr>cr_reject := UnknownOrder\<rparr>, b)"
  using assms by (auto simp: find_order_def cancel_def bind_eq_Some_conv split: option.splits)

text \<open>
  C14: cancelling is exact.  It always returns; the named order, if it rests in the book, is handed
  back and is the only one removed, with the sequence of the others unchanged; otherwise the
  command is refused and the book is untouched.
\<close>

theorem cancel_exact:
  assumes "reachable ins b"
  shows "\<exists>os res b'. resting_orders b = Some os \<and> cancel b oid = Some (res, b') \<and>
    resting_orders b' = Some (filter (\<lambda>x. ord_id x \<noteq> oid) os) \<and>
    (case find_order b oid of
       Some (Some x) \<Rightarrow> cr_accepted res \<and> cr_order res = x \<and> x \<in> set os \<and> ord_id x = oid \<and> find_order b' oid = Some None
     | _ \<Rightarrow> cr_reject res = UnknownOrder \<and> b' = b)"
proof -
  obtain A where A: "book_inv b A" using reachable_inv[OF assms] by blast
  obtain res A' where r: "a_cancel A oid = (res, A')" by (metis surj_pair)
  from book_inv_cancel[OF A r] obtain b' where b': "cancel b oid = Some (res, b')" "book_inv b' A'" by blast
  have orders: "all_orders A' = filter (\<lambda>x. ord_id x \<noteq> oid) (all_orders A)"
    using a_cancel_orders[OF book_inv_wf[OF A], of oid] r by simp
  have gone: "a_find A' oid = None" unfolding a_find_None order_ids_def orders by auto
  show ?thesis
  proof (cases "a_find A oid")
    case None
    then show ?thesis using cancel_unknown[of b oid] b' book_queries[OF A] book_queries[OF b'(2)] orders by simp
  next
    case (Some x)
    then have "res = CancelResult_default\<lparr>cr_order := x\<rparr>" using r by (simp add: a_cancel_def)
    moreover have "x \<in> set (all_orders A) \<and> ord_id x = oid" using a_find_iff[OF book_inv_wf[OF A]] Some by simp
    ultimately show ?thesis using Some b' book_queries[OF A] book_queries[OF b'(2)] orders gone
      by (simp add: cr_accepted_def CancelResult_default_def)
  qed
qed

lemma demo_find: "a_find demo_spec 2 = Some (demo_resting 2 Sell 10 7 7)" "map ord_id (all_orders demo_spec) = [5, 4, 1, 2, 3]"
  by code_simp+

theorem cancel_exact_witness:
  "\<exists>os res b'. resting_orders demo_book = Some os \<and> map ord_id os = [5, 4, 1, 2, 3] \<and> cancel demo_book 2 = Some (res, b') \<and>
     resting_orders b' = Some (filter (\<lambda>x. ord_id x \<noteq> 2) os) \<and> ord_quantity (cr_order res) = 7"
proof -
  have "find_order demo_book 2 = Some (Some (demo_resting 2 Sell 10 7 7))" using book_queries(2)[OF demo_inv] demo_find(1) by simp
  moreover have "ord_quantity (demo_resting 2 Sell 10 7 7) = 7" by (simp add: demo_resting_def demo_order_def)
  ultimately show ?thesis
    using cancel_exact[OF demo_reachable, of 2] book_queries(1)[OF demo_inv] demo_find(2) by auto
qed

section \<open>Amending\<close>

lemma replace_spec:
  assumes "reachable ins b" "fits_book (BookReplace oid p q n t) b" "replace b oid p q n t out = Some (res, out', b')"
  obtains A A' where "book_inv b A" "book_inv b' A'" "a_replace A oid p q n t out = (res, out', A')" "ab_instrument A = ins"
proof -
  obtain A where A: "book_inv b A" "ab_instrument A = ins" using reachable_inv[OF assms(1)] by blast
  obtain r o' A' where r: "a_replace A oid p q n t out = (r, o', A')" by (metis surj_pair)
  from book_inv_replace[OF A(1) _ _ r] assms(2,3) have "r = res" "o' = out'" "book_inv b' A'"
    by (auto simp: fits_book_def)
  then show thesis using that A r by simp
qed

lemma rewrite_orders:
  assumes "wf_book A" "a_find A oid = Some x"
  shows "all_orders (set_side (ord_side x) A (rewrite_order oid g (ab_levels A (ord_side x)))) =
    map (\<lambda>y. if ord_id y = oid then g y else y) (all_orders A)"
proof -
  have "map (\<lambda>y. if ord_id y = oid then g y else y) (side_orders (ab_levels A (opposite (ord_side x)))) =
      side_orders (ab_levels A (opposite (ord_side x)))"
    using foreign_side[OF assms] by (simp add: map_idI)
  then show ?thesis by (cases "ord_side x") (simp_all add: all_orders_def set_side_def side_orders_rewrite)
qed

text \<open>
  C15: an amendment that only reduces the quantity keeps its place.  At an unchanged price and a
  smaller quantity that still exceeds what has traded, the amendment succeeds, nothing trades, and
  the book holds the same orders in the same sequence, with only the quantity of this one reduced.
\<close>

theorem replace_keeps_place:
  assumes "reachable ins b" "fits_book (BookReplace oid (ord_price x) q n t) b" "find_order b oid = Some (Some x)"
    "is_valid_quantity ins q" "filled x < q" "q < ord_quantity x"
  shows "\<exists>os res b'. resting_orders b = Some os \<and> replace b oid (ord_price x) q n t out = Some (res, out, b') \<and>
    rr_accepted res \<and> rr_priority_retained res \<and> rr_rested res \<and> rr_previous res = x \<and>
    resting_orders b' = Some (map (\<lambda>y. if ord_id y = oid then y\<lparr>ord_quantity := q, ord_remaining := q - filled x\<rparr> else y) os)"
proof -
  obtain A where A: "book_inv b A" "ab_instrument A = ins" using reachable_inv[OF assms(1)] by blast
  note wf = book_inv_wf[OF A(1)]
  have x: "a_find A oid = Some x" using book_queries(2)[OF A(1)] assms(3) by simp
  let ?A' = "set_side (ord_side x) A (rewrite_order oid
    (\<lambda>y. y\<lparr>ord_quantity := q, ord_remaining := q - filled x\<rparr>) (ab_levels A (ord_side x)))"
  let ?res = "ReplaceResult_default\<lparr>rr_previous := x, rr_priority_retained := True, rr_rested := True\<rparr>"
  have r: "a_replace A oid (ord_price x) q n t out = (?res, out, ?A')"
    using x a_find_Some(3)[OF wf x] assms(4-6) A(2) by (simp add: a_replace_def Let_def not_le)
  from book_inv_replace[OF A(1) _ _ r] assms(2) obtain b' where
    b': "replace b oid (ord_price x) q n t out = Some (?res, out, b')" "book_inv b' ?A'" by (auto simp: fits_book_def)
  show ?thesis using b' book_queries(1)[OF A(1)] book_queries(1)[OF b'(2)] rewrite_orders[OF wf x]
    by (auto simp: rr_accepted_def ReplaceResult_default_def)
qed

theorem replace_keeps_place_witness:
  "\<exists>os res b'. resting_orders demo_book = Some os \<and> map ord_id os = [5, 4, 1, 2, 3] \<and>
     replace demo_book 2 10 4 9 9 ([], None) = Some (res, ([], None), b') \<and> rr_priority_retained res \<and>
     resting_orders b' = Some (map (\<lambda>y. if ord_id y = 2 then y\<lparr>ord_quantity := 4, ord_remaining := 4\<rparr> else y) os)"
proof -
  let ?x = "demo_resting 2 Sell 10 7 7"
  have f: "fits_book (BookReplace 2 10 4 9 9) demo_book" unfolding fits_book_spec[OF demo_inv] by code_simp
  have x: "find_order demo_book 2 = Some (Some ?x)" using book_queries(2)[OF demo_inv] demo_find(1) by simp
  have v: "ord_price ?x = 10" "is_valid_quantity demo_ins 4" "filled ?x = 0" "filled ?x < 4" "4 < ord_quantity ?x" by code_simp+
  show ?thesis
    using replace_keeps_place[OF demo_reachable, of 2 ?x 4 9 9 "([], None)"] f x v book_queries(1)[OF demo_inv] demo_find(2) by auto
qed

text \<open>A queued order is the last of its price.\<close>

lemma queue_in_last:
  assumes "wf_side ins s ls" "d = desc s"
  shows "filter (\<lambda>y. ord_price y = ord_price x) (side_orders (a_queue_in d x ls)) =
    filter (\<lambda>y. ord_price y = ord_price x) (side_orders ls) @ [x]"
  using assms
proof (induction ls)
  case Nil
  then show ?case by (simp add: side_orders_def)
next
  case (Cons l ls)
  obtain p q where l: "l = (p, q)" by (cases l)
  have side: "wf_side ins s ls" and lv: "\<forall>y \<in> set q. ord_price y = p"
    and later: "\<forall>y \<in> set (side_orders ls). price_before (desc s) p (ord_price y)"
    using Cons.prems unfolding l by (auto simp: wf_side_def wf_level_def wf_order_def side_orders_def)
  have no: "filter (\<lambda>y. ord_price y = ord_price x) q = (if p = ord_price x then q else [])"
    using lv by (auto simp: filter_id_conv filter_empty_conv)
  have none: "filter (\<lambda>y. ord_price y = ord_price x) (side_orders ls) = []"
    if "p = ord_price x \<or> price_before d (ord_price x) p"
    using later that Cons.prems(2) by (auto simp: filter_empty_conv price_before_def split: if_splits)
  show ?case using Cons.IH[OF side Cons.prems(2)] no none unfolding l
    by (auto simp: side_orders_Cons price_before_def split: if_splits)
qed


definition demo_amends :: "OrderId \<Rightarrow> Price \<Rightarrow> Quantity \<Rightarrow> (ReplaceResult \<Rightarrow> bool) \<Rightarrow> bool" where
  "demo_amends oid p q P = (a_fits (BookReplace oid p q 9 9) demo_spec \<and> P (fst (a_replace demo_spec oid p q 9 9 ([], None))))"

lemma demo_replace:
  assumes "demo_amends oid p q P"
  obtains res out' b' where "fits_book (BookReplace oid p q 9 9) demo_book"
    "replace demo_book oid p q 9 9 ([], None) = Some (res, out', b')" "P res"
proof -
  have fits: "fits_book (BookReplace oid p q 9 9) demo_book" using assms fits_book_spec[OF demo_inv] by (simp add: demo_amends_def)
  obtain res out' A' where r: "a_replace demo_spec oid p q 9 9 ([], None) = (res, out', A')" by (metis surj_pair)
  moreover have "P res" using assms r by (simp add: demo_amends_def)
  moreover obtain b' where "replace demo_book oid p q 9 9 ([], None) = Some (res, out', b')"
    using book_inv_replace[OF demo_inv _ _ r] fits by (auto simp: fits_book_def)
  ultimately show ?thesis using that fits by blast
qed

lemma demo_raise: "demo_amends 1 10 8 (\<lambda>res. rr_reject res = RejectNone \<and> rr_rested res \<and> \<not> rr_priority_retained res \<and>
  rr_previous res = demo_resting 1 Sell 10 5 3)"
  by code_simp


text \<open>
  C17: an amendment can lose a post-only order.  When a resting post-only order is amended to a valid
  price at which it would cross, the command is refused, and yet the order is no longer in the
  book, which is otherwise unchanged: the code takes the order off before it finds that it may not
  go back.
\<close>

theorem replace_loses_post_only:
  assumes "reachable ins b" "fits_book (BookReplace oid p q n t) b" "find_order b oid = Some (Some x)" "ord_post_only x"
    "is_valid_price ins p" "is_valid_quantity ins q" "filled x < q" "p \<noteq> ord_price x"
    "best_of (opposite (ord_side x)) b = Some (Some best)" "if is_buy x then best \<le> p else p \<le> best"
  shows "\<exists>os res b'. resting_orders b = Some os \<and> replace b oid p q n t out = Some (res, out, b') \<and>
    rr_reject res = PostOnlyWouldCross \<and> find_order b' oid = Some None \<and>
    resting_orders b' = Some (filter (\<lambda>y. ord_id y \<noteq> oid) os)"
proof -
  obtain A where A: "book_inv b A" "ab_instrument A = ins" using reachable_inv[OF assms(1)] by blast
  note wf = book_inv_wf[OF A(1)]
  have x: "a_find A oid = Some x" using book_queries(2)[OF A(1)] assms(3) by simp
  let ?C = "snd (a_cancel A oid)" and ?y = "amended_order x p q n t"
  have C: "?C = set_side (ord_side x) A (take_out oid (ab_levels A (ord_side x)))" using x by (simp add: a_cancel_def)
  obtain rc where c: "a_cancel A oid = (rc, ?C)" by (metis prod.collapse)
  have ids: "oid \<notin> set (order_ids ?C)" using a_cancel_wf(3)[OF wf c] by blast
  have lim: "ord_type x = Limit" "ord_instrument x = ins_id ins"
    using a_find_Some(4)[OF wf x] A(2) by (auto simp: wf_order_def)
  have "a_validate ?C ?y = RejectNone"
    using assms(5,6) ids lim a_find_Some(1)[OF wf x] A(2) by (simp add: a_validate_def C amended_order_def)
  moreover have "a_would_cross ?C ?y"
  proof -
    have "a_best A (opposite (ord_side x)) = Some best" using book_queries(3)[OF A(1)] assms(9) by simp
    then have "a_best ?C (opposite (ord_side x)) = Some best" by (cases "ord_side x") (simp_all add: a_best_def C)
    then show ?thesis using assms(10) lim
      by (cases "ord_side x") (simp_all add: a_would_cross_def amended_order_def is_buy_def)
  qed
  ultimately have "a_insert ?C ?y out = (SubmitResult_default\<lparr>sr_reject := PostOnlyWouldCross\<rparr>, out, ?C)"
    using assms(4) by (simp add: a_insert_def amended_order_def)
  moreover have "\<not> q \<le> filled x" using assms(7) by simp
  ultimately have "\<exists>res. a_replace A oid p q n t out = (res, out, ?C) \<and> rr_reject res = PostOnlyWouldCross"
    using x assms(5,6,8) A(2) by (simp add: a_replace_def SubmitResult_default_def)
  then obtain res where r: "a_replace A oid p q n t out = (res, out, ?C)" "rr_reject res = PostOnlyWouldCross" by blast
  from book_inv_replace[OF A(1) _ _ r(1)] assms(2) obtain b' where
    b': "replace b oid p q n t out = Some (res, out, b')" "book_inv b' ?C" by (auto simp: fits_book_def)
  have "a_find ?C oid = None" using ids by (simp add: a_find_None)
  then show ?thesis
    using b' r(2) book_queries(1)[OF A(1)] book_queries(1,2)[OF b'(2)] a_cancel_orders[OF wf, of oid] by auto
qed

theorem replace_loses_post_only_witness:
  "\<exists>os res b'. resting_orders demo_book = Some os \<and> map ord_id os = [5, 4, 1, 2, 3] \<and>
     replace demo_book 5 10 3 9 9 ([], None) = Some (res, ([], None), b') \<and> rr_reject res = PostOnlyWouldCross \<and>
     find_order b' 5 = Some None \<and> resting_orders b' = Some (filter (\<lambda>y. ord_id y \<noteq> 5) os)"
proof -
  let ?x = "(demo_resting 5 Buy 9 3 3)\<lparr>ord_post_only := True\<rparr>"
  have a: "a_find demo_spec 5 = Some ?x" "a_best demo_spec Sell = Some 10" by code_simp+
  have f: "fits_book (BookReplace 5 10 3 9 9) demo_book" unfolding fits_book_spec[OF demo_inv] by code_simp
  have x: "find_order demo_book 5 = Some (Some ?x)" "best_of Sell demo_book = Some (Some 10)"
    using book_queries(2,3)[OF demo_inv] a by simp_all
  have v: "ord_post_only ?x" "is_valid_price demo_ins 10" "is_valid_quantity demo_ins 3" "filled ?x < 3" "10 \<noteq> ord_price ?x"
    "if is_buy ?x then 10 \<le> (10 :: int) else 10 \<le> (10 :: int)" by code_simp+
  have o: "best_of (opposite (ord_side ?x)) demo_book = Some (Some 10)" using x(2) by (simp add: demo_resting_def demo_order_def)
  show ?thesis
    using replace_loses_post_only[OF demo_reachable f x(1) v(1-5) o v(6), of "([], None)"] book_queries(1)[OF demo_inv] demo_find(2)
    by auto
qed

end
