(* ===== verification/Book_Views.thy ===== *)
theory Book_Views
  imports Book_Properties
begin

text \<open>
  The views the venue publishes, against the orders that rest in the book: the depth snapshot is the
  orders of each side aggregated by price, best price first, and the top of book is its first line.
\<close>

lemma level_of_price:
  assumes "wf_side ins s ls" "(p, q) \<in> set ls"
  shows "filter (\<lambda>x. ord_price x = p) (side_orders ls) = q"
  using assms
proof (induction ls)
  case (Cons l ls)
  have side: "wf_side ins s ls" and lv: "\<forall>y \<in> set (snd l). ord_price y = fst l"
    and later: "\<forall>k \<in> set ls. price_before (desc s) (fst l) (fst k)" "\<forall>k \<in> set ls. \<forall>y \<in> set (snd k). ord_price y = fst k"
    using Cons.prems(1) by (auto simp: wf_side_def wf_level_def wf_order_def)
  show ?case
  proof (cases "l = (p, q)")
    case True
    then have "filter (\<lambda>x. ord_price x = p) (side_orders ls) = []"
      using later by (fastforce simp: filter_empty_conv side_orders_def price_before_def split: if_splits)
    then show ?thesis using True lv by (simp add: side_orders_Cons filter_id_conv)
  next
    case False
    then have m: "(p, q) \<in> set ls" using Cons.prems(2) by simp
    then have "fst l \<noteq> p" using later(1) by (auto simp: price_before_def split: if_splits)
    then have "filter (\<lambda>x. ord_price x = p) (snd l) = []" using lv by (auto simp: filter_empty_conv)
    then show ?thesis using Cons.IH[OF side m] by (simp add: side_orders_Cons)
  qed
qed simp

text \<open>A list of depth lines is the aggregation of the best levels of a side.\<close>

definition summarises :: "Side \<Rightarrow> Order list \<Rightarrow> DepthLevel list \<Rightarrow> bool" where
  "summarises s os ls \<longleftrightarrow> sorted_wrt (\<lambda>k l. price_before (desc s) (dl_price k) (dl_price l)) ls \<and>
     (\<forall>l \<in> set ls. let q = filter (\<lambda>x. ord_price x = dl_price l) os in
        q \<noteq> [] \<and> dl_quantity l = of_nat (qty_sum q) \<and> dl_order_count l = of_nat (length q)) \<and>
     (\<forall>x \<in> set os. ord_price x \<in> dl_price ` set ls \<or> (\<forall>l \<in> set ls. price_before (desc s) (dl_price l) (ord_price x)))"

lemma depth_summarises:
  assumes wf: "wf_side ins s ls"
  shows "summarises s (side_orders ls) (map depth_level (take n ls))"
proof -
  have sorted: "sorted_wrt (\<lambda>a b. price_before (desc s) (fst a) (fst b)) ls" and ne: "\<forall>l \<in> set ls. snd l \<noteq> []"
    and pr: "\<forall>l \<in> set ls. \<forall>x \<in> set (snd l). ord_price x = fst l"
    using wf by (auto simp: wf_side_def wf_level_def wf_order_def)
  have "sorted_wrt (\<lambda>k l. price_before (desc s) (dl_price k) (dl_price l)) (map depth_level (take n ls))"
    using sorted sorted_wrt_take by (auto simp: sorted_wrt_map depth_level_def)
  moreover have "let q = filter (\<lambda>x. ord_price x = dl_price l) (side_orders ls) in
      q \<noteq> [] \<and> dl_quantity l = of_nat (qty_sum q) \<and> dl_order_count l = of_nat (length q)"
    if l: "l \<in> set (map depth_level (take n ls))" for l
  proof -
    obtain p q where k: "(p, q) \<in> set ls" "l = depth_level (p, q)" using l set_take_subset[of n ls] by auto
    then show ?thesis using level_of_price[OF wf k(1)] ne by (auto simp: depth_level_def level_total_def Let_def)
  qed
  moreover have "ord_price x \<in> dl_price ` set (map depth_level (take n ls)) \<or>
      (\<forall>l \<in> set (map depth_level (take n ls)). price_before (desc s) (dl_price l) (ord_price x))"
    if x: "x \<in> set (side_orders ls)" for x
  proof -
    obtain k where k: "k \<in> set ls" "ord_price x = fst k" using x pr by (auto simp: side_orders_def)
    have "sorted_wrt (\<lambda>a b. price_before (desc s) (fst a) (fst b)) (take n ls @ drop n ls)" using sorted by simp
    then have b: "\<forall>a \<in> set (take n ls). \<forall>b \<in> set (drop n ls). price_before (desc s) (fst a) (fst b)"
      unfolding sorted_wrt_append by blast
    have "k \<in> set (take n ls) \<or> k \<in> set (drop n ls)" using k(1) by (metis Un_iff append_take_drop_id set_append)
    then show ?thesis using b k(2) by (auto simp: depth_level_def image_image)
  qed
  ultimately show ?thesis unfolding summarises_def by blast
qed

text \<open>
  C18: the published views are the book.  The depth snapshot of a reachable book has, on each side,
  as many lines as asked for or as there are prices, best price first; each line carries exactly
  the total open quantity and the number of the orders at its price, and every order left out is
  worse than every line.  The top of book is the first line of each side, or empty.
\<close>

theorem views_are_the_book:
  assumes "reachable ins b"
  shows "\<exists>os snap top. resting_orders b = Some os \<and> depth b n out = Some snap \<and> top_of_book b = Some top \<and>
    summarises Buy (on_side Buy os) (ds_bids snap) \<and> length (ds_bids snap) = min n (level_count Buy b) \<and>
    summarises Sell (on_side Sell os) (ds_asks snap) \<and> length (ds_asks snap) = min n (level_count Sell b) \<and>
    (n > 0 \<longrightarrow>
      (top_bid_price top, top_bid_quantity top) = (case ds_bids snap of [] \<Rightarrow> (kNoPrice, 0) | l # _ \<Rightarrow> (dl_price l, dl_quantity l)) \<and>
      (top_ask_price top, top_ask_quantity top) = (case ds_asks snap of [] \<Rightarrow> (kNoPrice, 0) | l # _ \<Rightarrow> (dl_price l, dl_quantity l)))"
proof -
  obtain A where A: "book_inv b A" using reachable_inv[OF assms] by blast
  note q = book_queries[OF A]
  have side: "summarises s (on_side s (all_orders A)) (map depth_level (take n (ab_levels A s)))" for s
  proof -
    have "wf_side (ab_instrument A) s (ab_levels A s)" using book_inv_wf[OF A] by (simp add: wf_book_def)
    then show ?thesis unfolding on_side_orders[OF A] by (rule depth_summarises)
  qed
  have top: "n > 0 \<Longrightarrow> a_top (ab_levels A s) = (case map depth_level (take n (ab_levels A s)) of [] \<Rightarrow> (kNoPrice, 0)
      | l # _ \<Rightarrow> (dl_price l, dl_quantity l))" for s
    by (cases "ab_levels A s"; cases n) (simp_all add: a_top_def depth_level_def)
  obtain bp bq ap aq where t: "a_top (ab_levels A Buy) = (bp, bq)" "a_top (ab_levels A Sell) = (ap, aq)" by (metis surj_pair)
  show ?thesis
    using side[of Buy] side[of Sell] top[of Buy] top[of Sell] t q
    by (simp add: depth_def top_of_book_def min.commute)
qed

lemma demo_depth: "map depth_level (take 1 (ab_levels demo_spec Sell)) = [\<lparr>dl_price = 10, dl_quantity = 10, dl_order_count = 2\<rparr>]"
  by code_simp

theorem views_are_the_book_witness:
  "\<exists>os snap top. resting_orders demo_book = Some os \<and>
     depth demo_book 1 \<lparr>ds_instrument = 0, ds_sequence = 0, ds_bids = [], ds_asks = []\<rparr> = Some snap \<and>
     ds_asks snap = [\<lparr>dl_price = 10, dl_quantity = 10, dl_order_count = 2\<rparr>] \<and> top_of_book demo_book = Some top \<and>
     summarises Sell (on_side Sell os) (ds_asks snap) \<and> (top_ask_price top, top_ask_quantity top) = (10, 10)"
proof -
  have "depth_side demo_book Sell 1 = Some [\<lparr>dl_price = 10, dl_quantity = 10, dl_order_count = 2\<rparr>]"
    using book_queries(5)[OF demo_inv, of Sell 1] demo_depth by simp
  then have d: "depth demo_book 1 out = Some snap \<Longrightarrow> ds_asks snap = [\<lparr>dl_price = 10, dl_quantity = 10, dl_order_count = 2\<rparr>]" for out snap
    by (auto simp: depth_def bind_eq_Some_conv)
  from views_are_the_book[OF demo_reachable, of 1 "\<lparr>ds_instrument = 0, ds_sequence = 0, ds_bids = [], ds_asks = []\<rparr>"]
  obtain os snap top where v: "resting_orders demo_book = Some os"
    "depth demo_book 1 \<lparr>ds_instrument = 0, ds_sequence = 0, ds_bids = [], ds_asks = []\<rparr> = Some snap" "top_of_book demo_book = Some top"
    "summarises Sell (on_side Sell os) (ds_asks snap)"
    "(top_ask_price top, top_ask_quantity top) = (case ds_asks snap of [] \<Rightarrow> (kNoPrice, 0) | l # _ \<Rightarrow> (dl_price l, dl_quantity l))"
    by auto
  show ?thesis using v d[OF v(2)] by auto
qed

end
