(* ===== verification/Structure_Properties.thy ===== *)
theory Structure_Properties
  imports Flat_Hash_Map Price_Ladder Price_Level
begin

text \<open>
  The data structures of the book on their own: the hash table behaves like a finite map under any
  sequence of operations, and iterating a price ladder visits the occupied prices in order.
\<close>

section \<open>The hash table\<close>

datatype MapOp = MapInsert OrderId OrderHandle | MapErase OrderId | MapClear

fun table_step :: "MapOp \<Rightarrow> FlatHashMap \<Rightarrow> FlatHashMap option" where
  "table_step (MapInsert k v) m = map_option snd (fhm_insert m k v)"
| "table_step (MapErase k) m = map_option snd (fhm_erase m k)"
| "table_step MapClear m = Some (fhm_clear m)"

text \<open>The map the caller has in mind; inserting a key that is there does nothing.\<close>

fun map_step :: "MapOp \<Rightarrow> (OrderId \<rightharpoonup> OrderHandle) \<Rightarrow> (OrderId \<rightharpoonup> OrderHandle)" where
  "map_step (MapInsert k v) M = (if M k = None then M(k \<mapsto> v) else M)"
| "map_step (MapErase k) M = M(k := None)"
| "map_step MapClear M = Map.empty"

lemma table_step_rep: "fhm_rep m M \<Longrightarrow> \<exists>m'. table_step c m = Some m' \<and> fhm_rep m' (map_step c M)"
  using ix.ins_law[of m M] ix.del_law[of m M] fhm_clear_rep[of m M] by (cases c) fastforce+

lemma table_run_rep: "fhm_rep m M \<Longrightarrow> \<exists>m'. foldM table_step cs m = Some m' \<and> fhm_rep m' (fold map_step cs M)"
proof (induction cs arbitrary: m M)
  case (Cons c cs)
  obtain m1 where "table_step c m = Some m1" "fhm_rep m1 (map_step c M)" using table_step_rep[OF Cons.prems] by blast
  then show ?case using Cons.IH by simp
qed simp


section \<open>The price ladder\<close>

datatype LadderOp = Occupy Price | Vacate Price

text \<open>Occupying is \<open>operator[]\<close>; vacating is \<open>find\<close> and, if there is such a level, \<open>erase\<close>.\<close>

fun ladder_step :: "LadderOp \<Rightarrow> PriceLadder \<Rightarrow> PriceLadder option" where
  "ladder_step (Occupy p) l = map_option snd (ladder_at l p)"
| "ladder_step (Vacate p) l = do { it \<leftarrow> ladder_find l p; if it = None then Some l else ladder_erase l it }"

fun price_step :: "LadderOp \<Rightarrow> Price set \<Rightarrow> Price set" where
  "price_step (Occupy p) S = insert p S"
| "price_step (Vacate p) S = S - {p}"

text \<open>The range-based loop over a ladder.\<close>

partial_function (option) visit_prices :: "bool \<Rightarrow> PriceLadder \<Rightarrow> nat option \<Rightarrow> Price list \<Rightarrow> Price list option" where
  "visit_prices d l it acc = (case it of
       None \<Rightarrow> Some acc
     | Some i \<Rightarrow> do { it' \<leftarrow> next_occupied d l (Some i); visit_prices d l it' (acc @ [price_at l i]) })"

definition all_prices :: "bool \<Rightarrow> PriceLadder \<Rightarrow> Price list option" where
  "all_prices d l = do { it \<leftarrow> best_occupied d l; visit_prices d l it [] }"

definition priced :: "PriceLadder \<Rightarrow> Price set \<Rightarrow> bool" where
  "priced l S \<longleftrightarrow> (\<exists>J. ladder_rep l J \<and> S = price_at l ` J)"

lemma ladder_step_rep:
  assumes "priced l S" "\<forall>p. c = Occupy p \<longrightarrow> (\<exists>i < length (lad_levels l). p = price_at l i)"
  shows "\<exists>l'. ladder_step c l = Some l' \<and> priced l' (price_step c S) \<and> same_band l l'"
proof -
  obtain J where J: "ladder_rep l J" "S = price_at l ` J" using assms(1) by (auto simp: priced_def)
  show ?thesis
  proof (cases c)
    case (Occupy p)
    then obtain i where i: "i < length (lad_levels l)" "p = price_at l i" using assms(2) by blast
    then have "index_of l p = Some i" using price_at_index[OF J(1)] by simp
    then obtain l' where "ladder_at l p = Some (i, l')" "ladder_rep l' (insert i J)" "same_band l l'"
      using ladder_at_rep[OF J(1)] by blast
    then show ?thesis using Occupy i J(2) same_band_price(1)[of l l'] by (auto simp: priced_def intro!: exI[of _ "insert i J"])
  next
    case (Vacate p)
    show ?thesis
    proof (cases "p \<in> S")
      case True
      then obtain i where i: "i \<in> J" "p = price_at l i" using J(2) by auto
      have "index_of l p = Some i" using i price_at_index[OF J(1)] ladder_rep_index[OF J(1) i(1)] by simp
      then have "ladder_find l p = Some (Some i)" using ladder_find_rep[OF J(1)] i(1) by simp
      moreover obtain l' where l': "ladder_erase l (Some i) = Some l'" "ladder_rep l' (J - {i})" "same_band l l'"
        using ladder_erase_rep[OF J(1) i(1)] by blast
      moreover have "S - {p} = price_at l' ` (J - {i})"
        using J(2) i same_band_price(1)[OF l'(3)] price_at_inj[OF J(1)] by auto
      ultimately show ?thesis using Vacate by (auto simp: priced_def)
    next
      case False
      then have "\<not> (\<exists>i. index_of l p = Some i \<and> i \<in> J)" using J by (auto simp: index_of_iff[OF J(1)])
      then have "ladder_find l p = Some None" using ladder_find_rep[OF J(1)] by (auto split: option.split)
      then show ?thesis using Vacate False assms(1) by (auto simp: same_band_def)
    qed
  qed
qed

lemma ladder_run_rep:
  assumes "priced l S" "\<forall>p. Occupy p \<in> set cs \<longrightarrow> (\<exists>i < length (lad_levels l). p = price_at l i)"
  shows "\<exists>l'. foldM ladder_step cs l = Some l' \<and> priced l' (fold price_step cs S) \<and> same_band l l'"
  using assms
proof (induction cs arbitrary: l S)
  case Nil
  then show ?case by (simp add: same_band_def)
next
  case (Cons c cs)
  obtain l1 where l1: "ladder_step c l = Some l1" "priced l1 (price_step c S)" "same_band l l1"
    using ladder_step_rep[OF Cons.prems(1), of c] Cons.prems(2) by auto
  have "\<forall>p. Occupy p \<in> set cs \<longrightarrow> (\<exists>i < length (lad_levels l1). p = price_at l1 i)"
    using Cons.prems(2) l1(3) same_band_price(1)[OF l1(3)] by (auto simp: same_band_def)
  from Cons.IH[OF l1(2) this] show ?case using l1 by (auto simp: same_band_def)
qed

lemma visit_prices_rep:
  assumes "ladder_rep l (set (xs @ ys))" "sorted_wrt (walk_before d) (xs @ ys)"
  shows "visit_prices d l (hd_opt ys) acc = Some (acc @ map (price_at l) ys)"
  using assms
proof (induction ys arbitrary: xs acc)
  case Nil
  show ?case by (subst visit_prices.simps) (simp add: hd_opt_def)
next
  case (Cons y ys)
  have "next_occupied d l (Some y) = Some (hd_opt ys)" using sd.succ_next[OF Cons.prems] .
  then show ?case using Cons.IH[of "xs @ [y]" "acc @ [price_at l y]"] Cons.prems
    by (subst visit_prices.simps) (simp add: hd_opt_def)
qed

lemma all_prices_rep:
  assumes "ladder_rep l (set is)" "sorted_wrt (walk_before d) is"
  shows "all_prices d l = Some (map (price_at l) is)"
  using visit_prices_rep[of l "[]" "is" d "[]"] sd.best_hd[OF assms] assms by (simp add: all_prices_def)

lemma priced_visits:
  assumes "priced l S"
  shows "all_prices False l = Some (sorted_list_of_set S)" "all_prices True l = Some (rev (sorted_list_of_set S))"
    "ladder_size l = card S"
proof -
  obtain J where J: "ladder_rep l J" "S = price_at l ` J" using assms by (auto simp: priced_def)
  have fin: "finite J" using J(1) by (auto simp: ladder_rep_def intro: finite_subset)
  let ?is = "sorted_list_of_set J"
  have up: "sorted_wrt (<) ?is" by (rule strict_sorted_list_of_set)
  have inj: "inj_on (price_at l) J" using price_at_inj[OF J(1)] by (auto simp: inj_on_def)
  have "sorted_wrt (<) (map (price_at l) ?is)"
    using up price_at_mono[OF J(1)] by (simp add: sorted_wrt_map)
  then have prices: "map (price_at l) ?is = sorted_list_of_set S"
    using J(2) fin by (metis list.set_map set_sorted_list_of_set sorted_list_of_set.idem_if_sorted_distinct strict_sorted_iff)
  have "sorted_wrt (walk_before False) ?is" using up by (simp add: walk_before_def[abs_def])
  then show "all_prices False l = Some (sorted_list_of_set S)"
    using all_prices_rep[of l ?is False] J(1) fin prices by simp
  have "sorted_wrt (walk_before True) (rev ?is)" using up by (simp add: walk_before_def[abs_def] sorted_wrt_rev)
  then show "all_prices True l = Some (rev (sorted_list_of_set S))"
    using all_prices_rep[of l "rev ?is" True] J(1) fin prices by (simp add: rev_map[symmetric])
  show "ladder_size l = card S" using J inj by (simp add: ladder_size_def ladder_rep_def card_image)
qed

text \<open>
  C20: a ladder is walked in price order.  After any sequence of occupying and vacating prices of a
  configured band, the bitmap scans of an iteration visit exactly the occupied prices, each once:
  upward on the ask side and downward on the bid side.
\<close>

theorem ladder_visits_in_order:
  assumes "0 < t" "0 < n" "\<forall>p. Occupy p \<in> set cs \<longrightarrow> (\<exists>i < n. p = m + int i * t)"
  shows "\<exists>l l'. configure m t n = Some l \<and> foldM ladder_step cs l = Some l' \<and>
    all_prices False l' = Some (sorted_list_of_set (fold price_step cs {})) \<and>
    all_prices True l' = Some (rev (sorted_list_of_set (fold price_step cs {}))) \<and>
    ladder_size l' = card (fold price_step cs {})"
proof -
  obtain l where l: "configure m t n = Some l" "ladder_rep l {}" "lad_levels l = replicate n PriceLevel_default"
    "lad_min_price l = m" "lad_tick l = t" using configure_rep[OF assms(1,2)] by blast
  have "priced l {}" using l(2) by (auto simp: priced_def)
  moreover have "\<forall>p. Occupy p \<in> set cs \<longrightarrow> (\<exists>i < length (lad_levels l). p = price_at l i)"
    using assms(3) l(3-5) by (simp add: price_at_def)
  ultimately obtain l' where "foldM ladder_step cs l = Some l'" "priced l' (fold price_step cs {})"
    using ladder_run_rep by blast
  then show ?thesis using priced_visits l(1) by blast
qed

theorem ladder_visits_in_order_witness:
  "\<exists>l l'. configure 100 5 200 = Some l \<and> foldM ladder_step [Occupy 900, Occupy 105, Occupy 500, Vacate 105] l = Some l' \<and>
     all_prices True l' = Some [900, 500]"
proof -
  let ?cs = "[Occupy 900, Occupy 105, Occupy 500, Vacate 105]"
  have h: "\<forall>p. Occupy p \<in> set ?cs \<longrightarrow> (\<exists>i < (200 :: nat). p = 100 + int i * 5)"
    by (auto intro: exI[of _ 160] exI[of _ 1] exI[of _ 80])
  have "rev (sorted_list_of_set (fold price_step ?cs {})) = [900, 500]" by (simp add: insert_Diff_if)
  then show ?thesis using ladder_visits_in_order[OF _ _ h] by (metis zero_less_numeral)
qed

end
