(* ===== verification/Journal_Writer.thy ===== *)
theory Journal_Writer
  imports Journal_Record
begin

text \<open>
  The journal writer (\<open>include/xc/journal/writer.hpp\<close>, \<open>src/journal/writer.cpp\<close>) over a directory of
  segment files.  The operating system is a parameter: \<open>env n\<close> is the reply to the \<open>n\<close>-th system
  call, which may be interrupted, fail, or transfer only part of what it was given.  The loop that
  retries short writes may therefore run forever, and does not return then.

  The text of an error message is the prefix the source passes; the description of \<open>errno\<close> that
  the library appends is left out.
\<close>

section \<open>The directory and the system calls\<close>

datatype Reply = Done nat | Interrupted | Failed

type_synonym Env = "nat \<Rightarrow> Reply"

record Disk =
  dk_files :: "(string \<times> u8 list) list"
  dk_synced :: "string \<Rightarrow> nat"
  dk_calls :: nat

definition file_bytes :: "Disk \<Rightarrow> string \<Rightarrow> u8 list" where
  "file_bytes d name = (case map_of (dk_files d) name of None \<Rightarrow> [] | Some bs \<Rightarrow> bs)"

definition append_file :: "string \<Rightarrow> u8 list \<Rightarrow> Disk \<Rightarrow> Disk" where
  "append_file name bs d = d\<lparr>dk_files := map (\<lambda>(n, c). (n, if n = name then c @ bs else c)) (dk_files d)\<rparr>"

definition tick :: "Disk \<Rightarrow> Disk" where
  "tick d = d\<lparr>dk_calls := Suc (dk_calls d)\<rparr>"

text \<open>\<open>open\<close> with \<open>O_CREAT | O_EXCL\<close>: a new empty file, never an existing one.\<close>

definition sys_open :: "Env \<Rightarrow> string \<Rightarrow> Disk \<Rightarrow> bool \<times> Disk" where
  "sys_open env name d = (case env (dk_calls d) of
       Done _ \<Rightarrow> if name \<in> fst ` set (dk_files d) then (False, tick d)
                 else (True, tick (d\<lparr>dk_files := dk_files d @ [(name, [])], dk_synced := (dk_synced d)(name := 0)\<rparr>))
     | _ \<Rightarrow> (False, tick d))"

text \<open>\<open>write\<close>: the number of bytes transferred, or the error.\<close>

definition sys_write :: "Env \<Rightarrow> string \<Rightarrow> u8 list \<Rightarrow> Disk \<Rightarrow> Reply \<times> Disk" where
  "sys_write env name bs d = (case env (dk_calls d) of
       Done n \<Rightarrow> (Done (min n (length bs)), tick (append_file name (take n bs) d))
     | r \<Rightarrow> (r, tick d))"

text \<open>\<open>persist\<close>: everything the file holds is on durable storage.\<close>

definition persist :: "Env \<Rightarrow> string \<Rightarrow> Disk \<Rightarrow> bool \<times> Disk" where
  "persist env name d = (case env (dk_calls d) of
       Done _ \<Rightarrow> (True, tick (d\<lparr>dk_synced := (dk_synced d)(name := length (file_bytes d name))\<rparr>))
     | _ \<Rightarrow> (False, tick d))"

section \<open>Segment names\<close>

definition kSegmentPrefix :: string where
  "kSegmentPrefix = ''segment-''"

definition kSegmentSuffix :: string where
  "kSegmentSuffix = ''.xcj''"

definition kSegmentDigits :: nat where
  "kSegmentDigits = 8"

definition kSegmentNameLength :: nat where
  "kSegmentNameLength = length kSegmentPrefix + kSegmentDigits + length kSegmentSuffix"

definition kMaxSegmentIndex :: nat where
  "kMaxSegmentIndex = 99999999"

definition digit :: "nat \<Rightarrow> char" where
  "digit n = char_of (48 + n)"

fun decimal :: "nat \<Rightarrow> string" where
  "decimal n = (if n < 10 then [digit n] else decimal (n div 10) @ [digit (n mod 10)])"

text \<open>\<open>%08u\<close>.\<close>

definition padded :: "nat \<Rightarrow> string" where
  "padded n = replicate (8 - length (decimal n)) (digit 0) @ decimal n"

definition segment_name :: "nat \<Rightarrow> string" where
  "segment_name index =
     (let name = kSegmentPrefix @ padded index @ kSegmentSuffix in
      if length name \<noteq> kSegmentNameLength then [] else name)"

definition is_digit :: "char \<Rightarrow> bool" where
  "is_digit c \<longleftrightarrow> 48 \<le> (of_char c :: nat) \<and> (of_char c :: nat) \<le> 57"

definition digits_value :: "string \<Rightarrow> nat" where
  "digits_value ds = fold (\<lambda>c v. 10 * v + ((of_char c :: nat) - 48)) ds 0"

text \<open>\<open>std::from_chars\<close> for an unsigned 32-bit result: the value and what follows the digits.\<close>

definition from_chars :: "string \<Rightarrow> (nat \<times> string) option" where
  "from_chars s =
     (let ds = takeWhile is_digit s in
      if ds = [] \<or> digits_value ds \<ge> 2 ^ 32 then None else Some (digits_value ds, dropWhile is_digit s))"

definition parse_segment_name :: "string \<Rightarrow> nat option" where
  "parse_segment_name name =
     (if length name \<noteq> kSegmentNameLength then None
      else if take (length kSegmentPrefix) name \<noteq> kSegmentPrefix \<or>
              drop (length name - length kSegmentSuffix) name \<noteq> kSegmentSuffix then None
      else let digits = take kSegmentDigits (drop (length kSegmentPrefix) name) in
        (case from_chars digits of
           None \<Rightarrow> None
         | Some (index, rest) \<Rightarrow> if rest \<noteq> [] then None else Some index))"

section \<open>The writer\<close>

datatype Durability = DurabilityNone | DurabilityInterval | DurabilityAlways

record WriterConfig =
  wc_segment_bytes :: u64
  wc_durability :: Durability
  wc_sync_interval :: Nanos
  wc_buffer_bytes :: nat

record JournalWriter =
  jw_config :: WriterConfig
  jw_fd :: "string option"
  jw_segment_index :: nat
  jw_segment_size :: u64
  jw_buffer :: "u8 list"
  jw_last_sync :: Nanos
  jw_healthy :: bool
  jw_last_error :: string
  jw_records_written :: u64
  jw_bytes_written :: u64
  jw_segments_opened :: u32
  jw_syncs :: u64

definition JournalWriter_new :: "WriterConfig \<Rightarrow> JournalWriter" where
  "JournalWriter_new config = \<lparr>jw_config = config, jw_fd = None, jw_segment_index = 0, jw_segment_size = 0,
     jw_buffer = [], jw_last_sync = 0, jw_healthy = True, jw_last_error = [], jw_records_written = 0,
     jw_bytes_written = 0, jw_segments_opened = 0, jw_syncs = 0\<rparr>"

definition jw_fail :: "string \<Rightarrow> JournalWriter \<Rightarrow> JournalWriter" where
  "jw_fail message w = w\<lparr>jw_healthy := False,
     jw_last_error := (if jw_last_error w = [] then message else jw_last_error w)\<rparr>"

partial_function (option) write_all ::
    "Env \<Rightarrow> string \<Rightarrow> u8 list \<Rightarrow> JournalWriter \<Rightarrow> Disk \<Rightarrow> (bool \<times> JournalWriter \<times> Disk) option" where
  "write_all env fd bs w d =
     (if bs = [] then Some (True, w, d)
      else case sys_write env fd bs d of
        (Interrupted, d') \<Rightarrow> write_all env fd bs w d'
      | (Failed, d') \<Rightarrow> Some (False, jw_fail ''write journal segment'' w, d')
      | (Done n, d') \<Rightarrow> write_all env fd (drop n bs) w d')"

definition jw_flush :: "Env \<Rightarrow> JournalWriter \<Rightarrow> Disk \<Rightarrow> (bool \<times> JournalWriter \<times> Disk) option" where
  "jw_flush env w d =
     (if jw_buffer w = [] then Some (jw_healthy w, w, d)
      else case jw_fd w of
        None \<Rightarrow> Some (False, w, d)
      | Some fd \<Rightarrow> do {
          (ok, w1, d1) \<leftarrow> write_all env fd (jw_buffer w) w d;
          if \<not> ok then Some (False, w1, d1) else Some (True, w1\<lparr>jw_buffer := []\<rparr>, d1)
        })"

definition jw_sync :: "Env \<Rightarrow> JournalWriter \<Rightarrow> Disk \<Rightarrow> (bool \<times> JournalWriter \<times> Disk) option" where
  "jw_sync env w d = (case jw_fd w of
       None \<Rightarrow> Some (False, w, d)
     | Some fd \<Rightarrow> do {
         (ok, w1, d1) \<leftarrow> jw_flush env w d;
         if \<not> ok then Some (False, w1, d1)
         else case persist env fd d1 of
           (False, d2) \<Rightarrow> Some (False, jw_fail ''persist journal'' w1, d2)
         | (True, d2) \<Rightarrow> Some (True, w1\<lparr>jw_syncs := jw_syncs w1 + 1\<rparr>, d2)
       })"

text \<open>The first half of \<open>roll_segment\<close>: the open segment is flushed, persisted and closed.\<close>

definition close_segment :: "Env \<Rightarrow> JournalWriter \<Rightarrow> Disk \<Rightarrow> (bool \<times> JournalWriter \<times> Disk) option" where
  "close_segment env w d = (case jw_fd w of
       None \<Rightarrow> Some (True, w, d)
     | Some fd \<Rightarrow> do {
         (ok, w1, d1) \<leftarrow> jw_flush env w d;
         let (ok2, d2) = (if ok then persist env fd d1 else (False, d1));
         if \<not> ok2 then Some (False, jw_fail ''persist segment before rolling'' w1, d2)
         else Some (True, w1\<lparr>jw_syncs := jw_syncs w1 + 1, jw_fd := None\<rparr>, d2)
       })"

definition roll_segment :: "Env \<Rightarrow> JournalWriter \<Rightarrow> Disk \<Rightarrow> (bool \<times> JournalWriter \<times> Disk) option" where
  "roll_segment env w d = do {
     (ok, w1, d1) \<leftarrow> close_segment env w d;
     if \<not> ok then Some (False, w1, d1)
     else if jw_segment_index w1 \<ge> kMaxSegmentIndex
     then Some (False, jw_fail ''segment index would exceed the name format's eight digits'' w1, d1)
     else do {
       let index = jw_segment_index w1 + 1;
       let w2 = w1\<lparr>jw_segment_index := index\<rparr>;
       (case sys_open env (segment_name index) d1 of
          (False, d2) \<Rightarrow> Some (False, jw_fail ''open segment'' w2, d2)
        | (True, d2) \<Rightarrow> Some (True, w2\<lparr>jw_fd := Some (segment_name index), jw_segment_size := 0,
            jw_segments_opened := jw_segments_opened w2 + 1\<rparr>, d2))
     }
   }"

definition highest_segment :: "Disk \<Rightarrow> nat" where
  "highest_segment d = fold max (List.map_filter (\<lambda>(name, _). parse_segment_name name) (dk_files d)) 0"

text \<open>\<open>open\<close>: \<open>created\<close> is whether the directory exists after \<open>create_directories\<close>.\<close>

definition jw_open :: "Env \<Rightarrow> bool \<Rightarrow> JournalWriter \<Rightarrow> Disk \<Rightarrow> (bool \<times> JournalWriter \<times> Disk) option" where
  "jw_open env created w d =
     (if \<not> created then Some (False, jw_fail ''create journal directory'' w, d)
      else roll_segment env (w\<lparr>jw_segment_index := highest_segment d\<rparr>) d)"

definition sync_due :: "JournalWriter \<Rightarrow> Nanos \<Rightarrow> bool" where
  "sync_due w now \<longleftrightarrow> wc_durability (jw_config w) = DurabilityAlways \<or>
     (wc_durability (jw_config w) = DurabilityInterval \<and> now - jw_last_sync w \<ge> wc_sync_interval (jw_config w))"

definition jw_append :: "Env \<Rightarrow> Record \<Rightarrow> Nanos \<Rightarrow> JournalWriter \<Rightarrow> Disk \<Rightarrow> (bool \<times> JournalWriter \<times> Disk) option" where
  "jw_append env record now w d =
     (if \<not> jw_healthy w \<or> jw_fd w = None then Some (False, w, d)
      else do {
        let before = length (jw_buffer w);
        buffer \<leftarrow> encode_record record (jw_buffer w);
        let encoded_size = length buffer - before;
        let w1 = w\<lparr>jw_buffer := buffer, jw_records_written := jw_records_written w + 1,
          jw_bytes_written := jw_bytes_written w + of_nat encoded_size,
          jw_segment_size := jw_segment_size w + of_nat encoded_size\<rparr>;
        let sync_now = sync_due w1 now;
        (ok, w2, d2) \<leftarrow> (if length (jw_buffer w1) \<ge> wc_buffer_bytes (jw_config w1) \<or> sync_now
           then jw_flush env w1 d else Some (True, w1, d));
        if \<not> ok then Some (False, w2, d2)
        else do {
          (ok, w3, d3) \<leftarrow> (if sync_now then jw_sync env w2 d2 else Some (True, w2, d2));
          if \<not> ok then Some (False, w3, d3)
          else do {
            let w4 = (if sync_now then w3\<lparr>jw_last_sync := now\<rparr> else w3);
            if jw_segment_size w4 \<ge> wc_segment_bytes (jw_config w4) then roll_segment env w4 d3
            else Some (True, w4, d3)
          }
        }
      })"

definition jw_close :: "Env \<Rightarrow> JournalWriter \<Rightarrow> Disk \<Rightarrow> (JournalWriter \<times> Disk) option" where
  "jw_close env w d = (case jw_fd w of
       None \<Rightarrow> Some (w, d)
     | Some fd \<Rightarrow> do {
         (_, w1, d1) \<leftarrow> jw_flush env w d;
         let (ok, d2) = persist env fd d1;
         let w2 = (if ok then w1\<lparr>jw_syncs := jw_syncs w1 + 1\<rparr> else w1);
         Some (w2\<lparr>jw_fd := None\<rparr>, d2)
       })"

end
