(* ===== verification/Journal_Reader.thy ===== *)
theory Journal_Reader
  imports Journal_Writer
begin

text \<open>
  The journal reader (\<open>include/xc/journal/reader.hpp\<close>, \<open>src/journal/reader.cpp\<close>).  It visits the
  records of the segments in index order and stops at the first damage, tear or gap.  The visitor
  is a function on a state of its own, called once per recovered record.  Which segments can be
  opened is a parameter, since the directory may change under the reader; the report's message
  text is left out.
\<close>

section \<open>Segments in write order\<close>

definition indexed_segments :: "Disk \<Rightarrow> (nat \<times> string) list" where
  "indexed_segments d = sort_key fst
     (List.map_filter (\<lambda>(name, _). map_option (\<lambda>i. (i, name)) (parse_segment_name name)) (dk_files d))"

definition segments :: "Disk \<Rightarrow> string list" where
  "segments d = map snd (indexed_segments d)"

section \<open>Recovery\<close>

datatype RecoveryOutcome = RecoveryClean | TornTail | Damaged | SequenceGap | RecoveryUnreadable

record RecoveryReport =
  rp_outcome :: RecoveryOutcome
  rp_records_recovered :: u64
  rp_bytes_recovered :: u64
  rp_segments_read :: u32
  rp_last_sequence :: SeqNum
  rp_damaged_segment :: string
  rp_good_bytes :: u64
  rp_expected_sequence :: SeqNum

definition RecoveryReport_default :: RecoveryReport where
  "RecoveryReport_default = \<lparr>rp_outcome = RecoveryClean, rp_records_recovered = 0, rp_bytes_recovered = 0,
     rp_segments_read = 0, rp_last_sequence = 0, rp_damaged_segment = [], rp_good_bytes = 0,
     rp_expected_sequence = 0\<rparr>"

definition usable :: "RecoveryReport \<Rightarrow> bool" where
  "usable report \<longleftrightarrow> rp_outcome report = RecoveryClean \<or> rp_outcome report = TornTail"

text \<open>
  The walk over the bytes of one segment.  The result says whether the reader goes on to the next
  segment, with the expected sequence number, the visitor's state and the report.
\<close>

partial_function (option) read_segment ::
    "(Record \<Rightarrow> 's \<Rightarrow> 's) \<Rightarrow> string \<Rightarrow> u8 list \<Rightarrow> nat \<Rightarrow> SeqNum \<times> 's \<times> RecoveryReport \<Rightarrow>
     (bool \<times> SeqNum \<times> 's \<times> RecoveryReport) option" where
  "read_segment visit path bytes offset st =
     (if offset \<ge> length bytes then Some (True, st)
      else do {
        decoded \<leftarrow> decode_record (drop offset bytes);
        let (expected, s, report) = st;
        (case dr_status decoded of
           DecodeOk \<Rightarrow>
             if rec_sequence (dr_record decoded) \<noteq> expected
             then Some (False, expected, s, report\<lparr>rp_outcome := SequenceGap, rp_expected_sequence := expected,
               rp_damaged_segment := path, rp_good_bytes := of_nat offset\<rparr>)
             else read_segment visit path bytes (offset + dr_consumed decoded)
               (expected + 1, visit (dr_record decoded) s, report\<lparr>
                  rp_records_recovered := rp_records_recovered report + 1,
                  rp_last_sequence := rec_sequence (dr_record decoded),
                  rp_bytes_recovered := rp_bytes_recovered report + of_nat (dr_consumed decoded)\<rparr>)
         | DecodeIncomplete \<Rightarrow> Some (False, expected, s, report\<lparr>rp_damaged_segment := path,
             rp_good_bytes := of_nat offset, rp_outcome := TornTail\<rparr>)
         | _ \<Rightarrow> Some (False, expected, s, report\<lparr>rp_damaged_segment := path,
             rp_good_bytes := of_nat offset, rp_outcome := Damaged\<rparr>))
      })"

fun read_segments ::
    "(Record \<Rightarrow> 's \<Rightarrow> 's) \<Rightarrow> (string \<Rightarrow> bool) \<Rightarrow> Disk \<Rightarrow> string list \<Rightarrow> SeqNum \<times> 's \<times> RecoveryReport \<Rightarrow>
     ('s \<times> RecoveryReport) option" where
  "read_segments visit opens d [] (expected, s, report) = Some (s, report)"
| "read_segments visit opens d (path # paths) (expected, s, report) =
     (if \<not> opens path then Some (s, report\<lparr>rp_outcome := RecoveryUnreadable\<rparr>)
      else do {
        (again, st) \<leftarrow> read_segment visit path (file_bytes d path) 0
          (expected, s, report\<lparr>rp_segments_read := rp_segments_read report + 1\<rparr>);
        if again then read_segments visit opens d paths st else Some (snd st)
      })"

definition journal_read ::
    "(Record \<Rightarrow> 's \<Rightarrow> 's) \<Rightarrow> (string \<Rightarrow> bool) \<Rightarrow> bool \<Rightarrow> Disk \<Rightarrow> SeqNum \<Rightarrow> 's \<Rightarrow> ('s \<times> RecoveryReport) option" where
  "journal_read visit opens is_directory d expected_first_sequence s =
     (if \<not> is_directory then Some (s, RecoveryReport_default\<lparr>rp_outcome := RecoveryUnreadable\<rparr>)
      else read_segments visit opens d (segments d) (expected_first_sequence, s, RecoveryReport_default))"

text \<open>\<open>truncate_to\<close>: the segment cut at a length, as \<open>truncate\<close> does; \<open>ok\<close> is its reply.\<close>

definition truncate_to :: "bool \<Rightarrow> string \<Rightarrow> nat \<Rightarrow> Disk \<Rightarrow> bool \<times> Disk" where
  "truncate_to ok segment bytes d =
     (if \<not> ok then (False, d)
      else (True, d\<lparr>dk_files := map (\<lambda>(n, c). (n, if n = segment then take bytes c @ replicate (bytes - length c) 0 else c))
        (dk_files d)\<rparr>))"

section \<open>Cut records\<close>

lemma decode_short:
  assumes "length data < header_size"
  shows "decode_record data = Some (DecodeResult_default\<lparr>dr_status := DecodeIncomplete\<rparr>)"
  using assms by (simp add: decode_record_def)

text \<open>A strict prefix of an encoded record is incomplete, never damaged.\<close>

lemma decode_prefix:
  assumes fits: "record_fits r" and n: "n < length (encoded r)"
  shows "decode_record (take n (encoded r)) = Some (DecodeResult_default\<lparr>dr_status := DecodeIncomplete\<rparr>)"
proof (cases "n < header_size")
  case True
  then show ?thesis using n by (intro decode_short) simp
next
  case False
  let ?h = "header_of r" and ?d = "take n (encoded r)"
  note eh = encoded_header[OF fits]
  have len: "length (encoded r) = header_size + length (payload_bytes r)" using eh by simp
  have "take header_size ?d = header_bytes ?h" using False eh by (simp add: take_append min_absorb2 not_less)
  then obtain rh where "decode_header (ByteReader_new (take header_size ?d)) = Some (?h, rh)"
    using reads_all[OF reads_header[of ?h]] by auto
  moreover have "unat (rh_payload_length ?h) = length (payload_bytes r)"
    using payload_length[OF fits] by (simp add: header_of_def unat_of_nat take_bit_nat_eq_self)
  moreover have "\<not> rh_payload_length ?h > kMaxPayload"
    using payload_length[OF fits] calculation(2) by (simp add: word_less_nat_alt kMaxPayload_def)
  moreover have "length ?d = n" "n < header_size + length (payload_bytes r)" "\<not> n < header_size"
    using n len False by simp_all
  ultimately show ?thesis
    unfolding decode_record_def by (simp add: Let_def header_of_def)
qed

section \<open>Reading a segment of whole records\<close>

text \<open>The records of a run: representable, numbered consecutively from \<open>n\<close>.\<close>

fun numbered :: "SeqNum \<Rightarrow> Record list \<Rightarrow> bool" where
  "numbered n [] = True"
| "numbered n (r # rs) = (record_fits r \<and> rec_sequence r = n \<and> numbered (n + 1) rs)"

definition log_bytes :: "Record list \<Rightarrow> u8 list" where
  "log_bytes rs = concat (map encoded rs)"

lemma log_bytes_simps [simp]: "log_bytes [] = []" "log_bytes (r # rs) = encoded r @ log_bytes rs"
  "log_bytes (rs @ ts) = log_bytes rs @ log_bytes ts"
  by (simp_all add: log_bytes_def)

lemma encoded_nonempty [simp]: "encoded r \<noteq> []" "length (encoded r) > 0"
  by (simp_all add: encoded_def checked_bytes_def)

lemma carried_sequence [simp]: "rec_sequence (carried r) = rec_sequence r"
  by (simp add: carried_def Let_def split: RecordType.splits)

text \<open>Where reading whole records leaves the report.\<close>

definition advance_report :: "Record list \<Rightarrow> RecoveryReport \<Rightarrow> RecoveryReport" where
  "advance_report rs report = fold (\<lambda>r report. report\<lparr>rp_records_recovered := rp_records_recovered report + 1,
     rp_last_sequence := rec_sequence r, rp_bytes_recovered := rp_bytes_recovered report + of_nat (length (encoded r))\<rparr>) rs report"

lemma read_segment_records:
  assumes "numbered n rs" and "bytes = pre @ log_bytes rs @ post" and "offset = length pre"
  shows "read_segment visit path bytes offset (n, s, report) =
    read_segment visit path bytes (offset + length (log_bytes rs))
      (n + of_nat (length rs), fold (\<lambda>r. visit (carried r)) rs s, advance_report rs report)"
  using assms
proof (induction rs arbitrary: n pre offset s report)
  case Nil
  then show ?case by (simp add: advance_report_def)
next
  case (Cons r rs)
  have fits: "record_fits r" "rec_sequence r = n" "numbered (n + 1) rs" using Cons.prems(1) by auto
  have dec: "decode_record (drop offset bytes) =
      Some \<lparr>dr_status = DecodeOk, dr_consumed = length (encoded r), dr_record = carried r\<rparr>"
    using decode_encoded[OF fits(1), of "log_bytes rs @ post"] Cons.prems(2,3) by simp
  have lt: "\<not> offset \<ge> length bytes" using Cons.prems(2,3) by simp
  let ?rep = "report\<lparr>rp_records_recovered := rp_records_recovered report + 1, rp_last_sequence := rec_sequence r,
      rp_bytes_recovered := rp_bytes_recovered report + of_nat (length (encoded r))\<rparr>"
  have "read_segment visit path bytes offset (n, s, report) =
      read_segment visit path bytes (offset + length (encoded r)) (n + 1, visit (carried r) s, ?rep)"
    using dec lt fits(2) by (subst read_segment.simps) simp
  also have "\<dots> = read_segment visit path bytes (offset + length (encoded r) + length (log_bytes rs))
      (n + 1 + of_nat (length rs), fold (\<lambda>r. visit (carried r)) rs (visit (carried r) s), advance_report rs ?rep)"
    using Cons.IH[OF fits(3), of "pre @ encoded r"] Cons.prems(2,3) by simp
  finally show ?case by (simp add: advance_report_def add.assoc)
qed

lemma read_segment_whole:
  assumes "numbered n rs"
  shows "read_segment visit path (log_bytes rs) 0 (n, s, report) =
    Some (True, n + of_nat (length rs), fold (\<lambda>r. visit (carried r)) rs s, advance_report rs report)"
  using read_segment_records[OF assms, of "log_bytes rs" "[]" "[]" 0 visit path s report]
  by (simp add: read_segment.simps[of visit path "log_bytes rs" "length (log_bytes rs)"])

text \<open>A segment cut anywhere inside the record \<open>r\<close>: the records before it, and a torn tail.\<close>

lemma read_segment_torn:
  assumes rs: "numbered n (rs @ [r])" and k: "0 < k" "k < length (encoded r)"
  shows "read_segment visit path (log_bytes rs @ take k (encoded r)) 0 (n, s, report) =
    Some (False, n + of_nat (length rs), fold (\<lambda>r. visit (carried r)) rs s, (advance_report rs report)
      \<lparr>rp_damaged_segment := path, rp_good_bytes := of_nat (length (log_bytes rs)), rp_outcome := TornTail\<rparr>)"
proof -
  let ?b = "log_bytes rs @ take k (encoded r)"
  have "numbered n rs \<and> record_fits r" using rs by (induction rs arbitrary: n) auto
  then have nr: "numbered n rs" "record_fits r" by auto
  have "decode_record (drop (length (log_bytes rs)) ?b) = Some (DecodeResult_default\<lparr>dr_status := DecodeIncomplete\<rparr>)"
    using decode_prefix[OF nr(2) k(2)] by simp
  then have "read_segment visit path ?b (length (log_bytes rs)) (m, t, rep) =
      Some (False, m, t, rep\<lparr>rp_damaged_segment := path, rp_good_bytes := of_nat (length (log_bytes rs)), rp_outcome := TornTail\<rparr>)" for m t rep
    using k by (subst read_segment.simps) simp
  then show ?thesis using read_segment_records[OF nr(1), of ?b "[]" "take k (encoded r)" 0 visit path s report] by simp
qed

end
