(* ===== verification/Journal_Properties.thy ===== *)
theory Journal_Properties
  imports Journal_Reader
begin

text \<open>
  What the journal's records and segment names guarantee: a record survives encoding and decoding,
  the decoder copes with any bytes, a damaged record is noticed, and segment names and indices
  correspond.
\<close>

section \<open>Records\<close>

definition demo_record :: Record where
  "demo_record = Record_default\<lparr>rec_type := CancelOrderRecord, rec_sequence := 7, rec_timestamp := 5,
     rec_cancel_order := \<lparr>co_id = 3, co_account = 4, co_instrument = 1\<rparr>\<rparr>"

lemma demo_record_fits: "record_fits demo_record"
  by (simp add: demo_record_def record_fits_def i64_range_def)

text \<open>
  C21: a record survives the journal.  Encoding appends to the buffer, and decoding what was appended,
  whatever follows it, reports success, consumes exactly those bytes and returns the record's
  sequence number, timestamp and the command of its type.
\<close>

theorem record_roundtrip:
  assumes "record_fits r"
  shows "\<exists>bytes. encode_record r out = Some (out @ bytes) \<and> (\<forall>post. decode_record (bytes @ post) =
    Some \<lparr>dr_status = DecodeOk, dr_consumed = length bytes, dr_record = carried r\<rparr>)"
  using encode_record_bytes decode_encoded[OF assms] by blast

theorem record_roundtrip_witness:
  "record_fits demo_record \<and> (\<exists>bytes. encode_record demo_record [1] = Some ([1] @ bytes) \<and>
     decode_record (bytes @ [9]) = Some \<lparr>dr_status = DecodeOk, dr_consumed = length bytes, dr_record = demo_record\<rparr>)"
proof -
  have "carried demo_record = demo_record" by (simp add: demo_record_def carried_def Record_default_def)
  then show ?thesis using record_roundtrip[OF demo_record_fits, of "[1]"] demo_record_fits by auto
qed

text \<open>
  C22: decoding is total and stays inside its input.  On any bytes whatever the decoder returns; it
  never claims more bytes than it was given, and it claims any at all exactly when it reports a
  record.
\<close>

theorem decode_total:
  "\<exists>res. decode_record data = Some res \<and> dr_consumed res \<le> length data \<and>
     (dr_status res = DecodeOk \<longleftrightarrow> header_size \<le> dr_consumed res)"
proof -
  obtain res where r: "decode_record data = Some res" "dr_status res = DecodeOk \<longrightarrow> header_size \<le> dr_consumed res \<and> dr_consumed res \<le> length data"
    using decode_record_total by blast
  have "dr_status res \<noteq> DecodeOk \<longrightarrow> dr_consumed res = 0"
    using r(1) unfolding decode_record_def Let_def
    by (auto simp: bind_eq_Some_conv DecodeResult_default_def split: if_splits)
  then show ?thesis using r by (auto simp: header_size_def)
qed

text \<open>
  C23: the table-driven checksum is CRC-32C: on every input it is the bitwise division by the
  reflected polynomial, and the table is never read outside its bounds.
\<close>

theorem crc_table_correct: "crc32c data seed = Some (crc32c_spec data seed)"
  by (rule crc32c_table)

text \<open>
  C24: damage is noticed.  If any single byte of an encoded record after its length field is changed,
  in the checksum, the header or the payload, the decoder does not report a record.
\<close>

theorem damage_detected:
  assumes "record_fits r" "encode_record r [] = Some (xs @ b # ys)" "4 \<le> length xs" "c \<noteq> b"
  shows "\<exists>res. decode_record (xs @ c # ys @ post) = Some res \<and> dr_status res \<noteq> DecodeOk"
  using decode_detects[OF assms(1) _ assms(3,4)] assms(2) by (simp add: encode_record_bytes)

theorem damage_detected_witness:
  "\<exists>xs b ys res. encode_record demo_record [] = Some (xs @ b # ys) \<and> length xs = 30 \<and>
     decode_record (xs @ (b + 1) # ys @ []) = Some res \<and> dr_status res \<noteq> DecodeOk"
proof -
  have len: "30 < length (encoded demo_record)"
    by (simp add: encoded_def checked_bytes_def payload_bytes_def demo_record_def i64_bytes_def cancel_bytes_def)
  let ?e = "encoded demo_record"
  have e: "encode_record demo_record [] = Some (take 30 ?e @ ?e ! 30 # drop 31 ?e)"
    using id_take_nth_drop[OF len] by (simp add: encode_record_bytes)
  have "b + 1 \<noteq> b" for b :: u8 by simp
  then show ?thesis using damage_detected[OF demo_record_fits e, of "?e ! 30 + 1" "[]"] e len
    by (intro exI[of _ "take 30 ?e"] exI[of _ "?e ! 30"] exI[of _ "drop 31 ?e"]) simp
qed

section \<open>Segment names\<close>

declare decimal.simps [simp del]

lemma of_char_digit: "k < 10 \<Longrightarrow> (of_char (digit k) :: nat) = 48 + k"
  by (simp add: digit_def)

lemma is_digit_digit: "k < 10 \<Longrightarrow> is_digit (digit k)"
  by (simp add: is_digit_def of_char_digit)

lemma digit_of: "is_digit c \<Longrightarrow> digit (of_char c - 48) = c"
  by (simp add: is_digit_def digit_def)

lemma decimal_digits: "c \<in> set (decimal n) \<Longrightarrow> is_digit c"
proof (induction n rule: decimal.induct)
  case (1 n)
  then show ?case by (subst (asm) decimal.simps) (auto simp: is_digit_digit split: if_splits)
qed

lemma digits_value_snoc: "digits_value (ds @ [c]) = 10 * digits_value ds + (of_char c - 48)"
  by (simp add: digits_value_def)

lemma digits_value_decimal: "digits_value (decimal n) = n"
proof (induction n rule: decimal.induct)
  case (1 n)
  then show ?case by (subst decimal.simps) (auto simp: digits_value_snoc of_char_digit digits_value_def)
qed

lemma digits_value_zeros: "digits_value (replicate k (digit 0) @ ds) = digits_value ds"
  by (induction k) (simp_all add: digits_value_def of_char_digit)

lemma decimal_length: "n < 10 ^ Suc k \<Longrightarrow> length (decimal n) \<le> Suc k"
proof (induction k arbitrary: n)
  case 0
  then show ?case by (subst decimal.simps) simp
next
  case (Suc k)
  then have "n div 10 < 10 ^ Suc k" by simp
  then show ?case using Suc.IH[of "n div 10"] by (subst decimal.simps) simp
qed

lemma decimal_snoc: "d < 10 \<Longrightarrow> decimal (10 * v + d) = (if v = 0 then [digit d] else decimal v @ [digit d])"
  by (subst decimal.simps) auto

text \<open>A string of digits is the padded decimal of its value.\<close>

lemma digits_padded:
  assumes "\<forall>c \<in> set ds. is_digit c" "ds \<noteq> []"
  shows "replicate (length ds - length (decimal (digits_value ds))) (digit 0) @ decimal (digits_value ds) = ds"
  using assms
proof (induction ds rule: rev_induct)
  case (snoc c ds)
  let ?d = "of_char c - 48 :: nat" and ?v = "digits_value ds"
  have d: "?d < 10" "digit ?d = c" using snoc.prems digit_of[of c] by (auto simp: is_digit_def)
  show ?case
  proof (cases "ds = []")
    case True
    then show ?thesis using d decimal_snoc[OF d(1), of 0] by (simp add: digits_value_def)
  next
    case False
    then have ih: "replicate (length ds - length (decimal ?v)) (digit 0) @ decimal ?v = ds" using snoc by simp
    show ?thesis
    proof (cases "?v = 0")
      case True
      have "decimal 0 = [digit 0]" by (subst decimal.simps) simp
      then have "replicate (length ds) (digit 0) = ds" using ih True False
        by (metis length_append length_replicate list.size(3,4) replicate_append_same replicate_Suc add.commute append.simps(2) length_0_conv Suc_diff_1 length_greater_0_conv One_nat_def plus_1_eq_Suc)
      then show ?thesis using True d decimal_snoc[OF d(1), of 0] by (simp add: digits_value_snoc)
    next
      case False
      have "decimal (digits_value (ds @ [c])) = decimal ?v @ [c]"
        using decimal_snoc[OF d(1), of ?v] False d(2) by (simp add: digits_value_snoc)
      then show ?thesis using ih by simp
    qed
  qed
qed simp

lemma padded_name:
  assumes "i \<le> kMaxSegmentIndex"
  shows "length (padded i) = 8" "\<forall>c \<in> set (padded i). is_digit c" "digits_value (padded i) = i"
proof -
  have "length (decimal i) \<le> 8" using decimal_length[of i 7] assms by (simp add: kMaxSegmentIndex_def)
  then show "length (padded i) = 8" by (simp add: padded_def)
  show "\<forall>c \<in> set (padded i). is_digit c" using decimal_digits is_digit_digit[of 0] by (auto simp: padded_def)
  show "digits_value (padded i) = i" by (simp add: padded_def digits_value_zeros digits_value_decimal)
qed

lemma digits_value_less: "\<forall>c \<in> set ds. is_digit c \<Longrightarrow> digits_value ds < 10 ^ length ds"
proof (induction ds rule: rev_induct)
  case (snoc c ds)
  then have "digits_value ds + 1 \<le> 10 ^ length ds" "of_char c - 48 < (10 :: nat)" by (auto simp: is_digit_def)
  then show ?case by (simp add: digits_value_snoc)
qed (simp add: digits_value_def)

lemma from_chars_all:
  assumes "length ds = 8"
  shows "from_chars ds = Some (j, []) \<longleftrightarrow> (\<forall>c \<in> set ds. is_digit c) \<and> j = digits_value ds"
proof (cases "\<forall>c \<in> set ds. is_digit c")
  case True
  then have w: "takeWhile is_digit ds = ds" "dropWhile is_digit ds = []" by (auto simp: takeWhile_eq_all_conv)
  have "digits_value ds < 2 ^ 32" using digits_value_less[OF True] assms by simp
  moreover have "ds \<noteq> []" using assms by auto
  ultimately have "from_chars ds = Some (digits_value ds, [])" unfolding from_chars_def Let_def w by simp
  then show ?thesis using True by auto
next
  case False
  then have "dropWhile is_digit ds \<noteq> []" by simp
  then show ?thesis using False by (auto simp: from_chars_def Let_def split: if_splits)
qed

lemma name_lengths: "length kSegmentPrefix = 8" "length kSegmentSuffix = 4" "kSegmentNameLength = 20" "kSegmentDigits = 8"
  by (simp_all add: kSegmentPrefix_def kSegmentSuffix_def kSegmentNameLength_def kSegmentDigits_def)

lemma parse_name_iff:
  "parse_segment_name name = Some j \<longleftrightarrow> j \<le> kMaxSegmentIndex \<and> name = segment_name j"
proof
  assume p: "parse_segment_name name = Some j"
  let ?ds = "take 8 (drop 8 name)"
  have len: "length name = 20" "take 8 name = kSegmentPrefix" "drop 16 name = kSegmentSuffix"
    using p by (auto simp: parse_segment_name_def name_lengths split: if_splits)
  have "from_chars ?ds = Some (j, [])" using p
    by (auto simp: parse_segment_name_def name_lengths Let_def split: if_splits option.splits)
  moreover have d: "length ?ds = 8" using len(1) by simp
  ultimately have ds: "\<forall>c \<in> set ?ds. is_digit c" "j = digits_value ?ds" using from_chars_all by blast+
  have j: "j \<le> kMaxSegmentIndex" using digits_value_less[OF ds(1)] d ds(2) by (simp add: kMaxSegmentIndex_def)
  have "?ds \<noteq> []" using d by auto
  then have "padded j = ?ds" using digits_padded[OF ds(1)] d ds(2) by (simp add: padded_def)
  moreover have "name = take 8 name @ ?ds @ drop 16 name"
    by (metis append_take_drop_id drop_drop numeral_Bit0)
  ultimately have "name = kSegmentPrefix @ padded j @ kSegmentSuffix" using len by simp
  then show "j \<le> kMaxSegmentIndex \<and> name = segment_name j"
    using j len(1) by (simp add: segment_name_def Let_def name_lengths)
next
  assume n: "j \<le> kMaxSegmentIndex \<and> name = segment_name j"
  note pad = padded_name[OF conjunct1[OF n]]
  have name: "name = kSegmentPrefix @ padded j @ kSegmentSuffix"
    using n pad(1) by (simp add: segment_name_def Let_def name_lengths)
  have "from_chars (padded j) = Some (j, [])" using from_chars_all[OF pad(1)] pad(2,3) by simp
  then show "parse_segment_name name = Some j" unfolding name
    using pad(1) by (simp add: parse_segment_name_def name_lengths)
qed

text \<open>
  C25: segment names and indices correspond.  A file name is recognised with index \<open>j\<close> exactly when
  \<open>j\<close> has at most eight digits and the name is the one the writer gives that segment: nothing else in
  the directory is ever taken for a segment, and every segment is.
\<close>

theorem segment_names_exact:
  "parse_segment_name name = Some j \<longleftrightarrow> j \<le> kMaxSegmentIndex \<and> name = segment_name j"
  by (rule parse_name_iff)

end
