(* ===== verification/Journal_Log.thy ===== *)
theory Journal_Log
  imports Journal_Properties
begin

text \<open>
  The writer and the reader together.  While appends succeed, the segments of the directory, in the
  order of their indices, followed by the writer's buffer hold exactly the records appended, each
  segment but the last a whole number of them; and the reader visits those records in that order.
\<close>

section \<open>Writing out a buffer\<close>

lemma append_file_append: "dk_files (append_file n ys (append_file n xs d)) = dk_files (append_file n (xs @ ys) d)"
  by (auto simp: append_file_def)

lemma append_file_Nil [simp]: "dk_files (append_file n [] d) = dk_files d"
  by (auto simp: append_file_def intro!: map_idI)

lemma append_file_cong: "dk_files d = dk_files e \<Longrightarrow> dk_files (append_file n xs d) = dk_files (append_file n xs e)"
  by (simp add: append_file_def)

lemma append_file_fields [simp]: "map fst (dk_files (append_file n xs d)) = map fst (dk_files d)"
  by (induction "dk_files d") (auto simp: append_file_def)

lemma tick_files [simp]: "dk_files (tick d) = dk_files d" "dk_synced (tick d) = dk_synced d"
    "dk_synced (append_file n xs d) = dk_synced d"
  by (simp_all add: tick_def append_file_def)

text \<open>Whatever the system does, what reaches the file is a prefix of the buffer; all of it on success.\<close>

definition wrote :: "string \<Rightarrow> u8 list \<Rightarrow> JournalWriter \<Rightarrow> Disk \<Rightarrow> bool \<times> JournalWriter \<times> Disk \<Rightarrow> bool" where
  "wrote fd bs w d y = (case y of (ok, w', d') \<Rightarrow>
     (\<exists>n \<le> length bs. dk_files d' = dk_files (append_file fd (take n bs) d) \<and> (ok \<longrightarrow> n = length bs)) \<and>
     dk_synced d' = dk_synced d \<and> w' = (if ok then w else jw_fail ''write journal segment'' w))"

lemma write_all_wrote:
  assumes "write_all env fd bs w d = Some y"
  shows "wrote fd bs w d y"
proof (rule write_all.raw_induct[where P = "\<lambda>env fd bs w d y. wrote fd bs w d y", OF _ assms], goal_cases)
  case (1 f env fd bs w d y)
  show ?case
  proof (cases "bs = []")
    case True
    then show ?thesis using 1(2) by (auto simp: wrote_def)
  next
    case False
    obtain r d1 where s: "sys_write env fd bs d = (r, d1)" by (metis surj_pair)
    show ?thesis
    proof (cases r)
      case (Done n)
      have "take (min k (length bs)) bs = take k bs" for k by (simp add: min_def)
      then have d1: "dk_files d1 = dk_files (append_file fd (take n bs) d)" "n \<le> length bs" "dk_synced d1 = dk_synced d"
        using s Done by (auto simp: sys_write_def split: Reply.splits)
      have "wrote fd (drop n bs) w d1 y" using 1 False s Done by simp
      then obtain m where m: "m \<le> length bs - n" "dk_files (snd (snd y)) = dk_files (append_file fd (take m (drop n bs)) d1)"
        "fst y \<longrightarrow> m = length bs - n" "dk_synced (snd (snd y)) = dk_synced d1" "fst (snd y) = (if fst y then w else jw_fail ''write journal segment'' w)"
        by (auto simp: wrote_def split: prod.splits)
      have "dk_files (append_file fd (take m (drop n bs)) d1) = dk_files (append_file fd (take (n + m) bs) d)"
        using append_file_append[of fd "take m (drop n bs)" "take n bs" d] append_file_cong[OF d1(1)] by (simp add: take_add)
      then show ?thesis using m d1(2,3) by (auto simp: wrote_def split: prod.splits intro!: exI[of _ "n + m"])
    next
      case Interrupted
      then have "dk_files d1 = dk_files d" "dk_synced d1 = dk_synced d" using s by (auto simp: sys_write_def split: Reply.splits)
      moreover have "wrote fd bs w d1 y" using 1 False s Interrupted by simp
      ultimately show ?thesis using append_file_cong[of d1 d fd] by (simp add: wrote_def)
    next
      case Failed
      then have "dk_files d1 = dk_files d" "dk_synced d1 = dk_synced d" using s by (auto simp: sys_write_def split: Reply.splits)
      then show ?thesis using 1(2) False s Failed by (auto simp: wrote_def intro!: exI[of _ 0])
    qed
  qed
qed

section \<open>The log a writer keeps\<close>

definition seg_files :: "nat \<Rightarrow> u8 list list \<Rightarrow> u8 list \<Rightarrow> (string \<times> u8 list) list" where
  "seg_files k xs cur = zip (map segment_name [1..<k]) xs @ [(segment_name k, cur)]"

text \<open>
  The writer is healthy and has segment \<open>k\<close> open; the closed segments hold the records \<open>rss\<close> and are
  on durable storage; the open one followed by the buffer holds the records \<open>rs\<close>.
\<close>

definition logged :: "JournalWriter \<Rightarrow> Disk \<Rightarrow> Record list list \<Rightarrow> Record list \<Rightarrow> bool" where
  "logged w d rss rs \<longleftrightarrow> jw_healthy w \<and> (\<exists>k cur. jw_segment_index w = k \<and> jw_fd w = Some (segment_name k) \<and>
     1 \<le> k \<and> k \<le> kMaxSegmentIndex \<and> length rss = k - 1 \<and> dk_files d = seg_files k (map log_bytes rss) cur \<and>
     cur @ jw_buffer w = log_bytes rs \<and> (\<forall>i < k - 1. dk_synced d (segment_name (Suc i)) = length (log_bytes (rss ! i))))"

text \<open>Nothing is buffered and all of the open segment is on durable storage.\<close>

definition stored :: "JournalWriter \<Rightarrow> Disk \<Rightarrow> Record list \<Rightarrow> bool" where
  "stored w d rs \<longleftrightarrow> jw_buffer w = [] \<and> dk_synced d (segment_name (jw_segment_index w)) = length (log_bytes rs)"

lemma segment_name_inj: "i \<le> kMaxSegmentIndex \<Longrightarrow> j \<le> kMaxSegmentIndex \<Longrightarrow> segment_name i = segment_name j \<Longrightarrow> i = j"
  by (metis option.inject parse_name_iff)

lemma append_open_segment:
  assumes "dk_files d = seg_files k xs cur" "k \<le> kMaxSegmentIndex"
  shows "dk_files (append_file (segment_name k) bs d) = seg_files k xs (cur @ bs)"
proof -
  have "segment_name i \<noteq> segment_name k" if "i \<in> set [1..<k]" for i
    using segment_name_inj[of i k] that assms(2) by auto
  then have "map (\<lambda>(n, c). (n, if n = segment_name k then c @ bs else c)) (zip (map segment_name [1..<k]) xs) =
      zip (map segment_name [1..<k]) xs"
    by (intro map_idI) (auto dest!: set_zip_leftD)
  then show ?thesis using assms(1) by (simp add: append_file_def seg_files_def)
qed

lemma file_bytes_open:
  assumes "dk_files d = seg_files k xs cur" "k \<le> kMaxSegmentIndex"
  shows "file_bytes d (segment_name k) = cur"
proof -
  have "segment_name i \<noteq> segment_name k" if "i \<in> set [1..<k]" for i
    using segment_name_inj[of i k] that assms(2) by auto
  then have "map_of (zip (map segment_name [1..<k]) xs) (segment_name k) = None"
    by (force simp: map_of_eq_None_iff dest!: set_zip_leftD)
  then show ?thesis using assms(1) by (simp add: file_bytes_def seg_files_def map_add_def)
qed

lemma flush_logged:
  assumes "logged w d rss rs" "jw_flush env w d = Some (True, w', d')"
  shows "w' = w\<lparr>jw_buffer := []\<rparr> \<and> jw_config w' = jw_config w \<and> logged w' d' rss rs"
proof (cases "jw_buffer w = []")
  case True
  then have "w = w\<lparr>jw_buffer := []\<rparr>" by simp
  then show ?thesis using assms True by (simp add: jw_flush_def)
next
  case False
  obtain k cur where k: "jw_segment_index w = k" "jw_fd w = Some (segment_name k)" "k \<le> kMaxSegmentIndex"
    "dk_files d = seg_files k (map log_bytes rss) cur" "cur @ jw_buffer w = log_bytes rs"
    using assms(1) by (auto simp: logged_def)
  obtain w1 where a: "write_all env (segment_name k) (jw_buffer w) w d = Some (True, w1, d')" "w' = w1\<lparr>jw_buffer := []\<rparr>"
    using assms(2) False k(2) by (auto simp: jw_flush_def bind_eq_Some_conv split: if_splits)
  have "w1 = w" "dk_files d' = dk_files (append_file (segment_name k) (jw_buffer w) d)" "dk_synced d' = dk_synced d"
    using write_all_wrote[OF a(1)] by (auto simp: wrote_def)
  then show ?thesis using append_open_segment[OF k(4,3)] k a(2) assms(1) False by (auto simp: logged_def stored_def)
qed

lemma persist_logged:
  assumes "logged w d rss rs" "jw_buffer w = []" "jw_fd w = Some fd" "persist env fd d = (True, d')"
  shows "logged w d' rss rs \<and> stored w d' rs"
proof -
  obtain k cur where k: "jw_segment_index w = k" "fd = segment_name k" "1 \<le> k" "k \<le> kMaxSegmentIndex" "length rss = k - 1"
    "dk_files d = seg_files k (map log_bytes rss) cur" "cur = log_bytes rs"
    using assms(1-3) by (auto simp: logged_def)
  have d': "dk_files d' = dk_files d" "dk_synced d' = (dk_synced d)(segment_name k := length (log_bytes rs))"
    using assms(4) k(2,7) file_bytes_open[OF k(6,4)] by (auto simp: persist_def split: Reply.splits)
  have "segment_name (Suc i) \<noteq> segment_name k" if "i < k - 1" for i
    using segment_name_inj[of "Suc i" k] that k(4) by linarith
  then show ?thesis using assms(1,2) k(1) d' by (auto simp: logged_def stored_def)
qed

lemma sync_logged:
  assumes "logged w d rss rs" "jw_sync env w d = Some (True, w', d')"
  shows "logged w' d' rss rs \<and> stored w' d' rs \<and> jw_config w' = jw_config w"
proof -
  obtain fd w1 d1 where f: "jw_fd w = Some fd" "jw_flush env w d = Some (True, w1, d1)"
    "persist env fd d1 = (True, d')" "w' = w1\<lparr>jw_syncs := jw_syncs w1 + 1\<rparr>"
    using assms(2) by (auto simp: jw_sync_def bind_eq_Some_conv split: option.splits if_splits prod.splits bool.splits)
  have w1: "w1 = w\<lparr>jw_buffer := []\<rparr>" "logged w1 d1 rss rs" using flush_logged[OF assms(1) f(2)] by auto
  have "logged w1 d' rss rs \<and> stored w1 d' rs" using persist_logged[OF w1(2) _ _ f(3)] w1(1) f(1) by simp
  then show ?thesis using f(4) w1(1) by (auto simp: logged_def stored_def)
qed

lemma close_segment_done:
  assumes "jw_fd w = Some fd" "close_segment env w d = Some (True, w1, d1)"
  shows "\<exists>wf df. jw_flush env w d = Some (True, wf, df) \<and> w1 = wf\<lparr>jw_syncs := jw_syncs wf + 1, jw_fd := None\<rparr> \<and>
    persist env fd df = (True, d1)"
proof (cases "jw_flush env w d")
  case (Some y)
  obtain ok wf df where y: "y = (ok, wf, df)" by (metis surj_pair)
  obtain ok2 d2 where p: "persist env fd df = (ok2, d2)" by (metis surj_pair)
  show ?thesis using assms Some y p by (cases ok; cases ok2) (simp_all add: close_segment_def)
qed (use assms in \<open>simp add: close_segment_def\<close>)

text \<open>The second half of \<open>roll_segment\<close>: the next segment is created.\<close>

lemma open_next:
  assumes "roll_segment env w d = Some (True, w', d')" "close_segment env w d = Some (True, w1, d1)"
    "jw_healthy w1" "jw_buffer w1 = []" "jw_segment_index w1 = length rss"
    "dk_files d1 = zip (map segment_name [1..<Suc (length rss)]) (map log_bytes rss)"
    "\<And>i. i < length rss \<Longrightarrow> dk_synced d1 (segment_name (Suc i)) = length (log_bytes (rss ! i))"
  shows "logged w' d' rss [] \<and> stored w' d' [] \<and> jw_config w' = jw_config w1"
proof -
  let ?k = "length rss + 1"
  have lim: "length rss < kMaxSegmentIndex" and op: "fst (sys_open env (segment_name ?k) d1)"
    and w': "jw_healthy w'" "jw_buffer w' = []" "jw_segment_index w' = ?k" "jw_fd w' = Some (segment_name ?k)"
      "jw_config w' = jw_config w1"
    and d': "d' = snd (sys_open env (segment_name ?k) d1)"
    using assms(1-5) by (auto simp: roll_segment_def Let_def split: if_splits prod.splits bool.splits)
  have f: "dk_files d' = dk_files d1 @ [(segment_name ?k, [])]" "dk_synced d' = (dk_synced d1)(segment_name ?k := 0)"
    using op d' by (auto simp: sys_open_def split: Reply.splits if_splits)
  have "segment_name (Suc i) \<noteq> segment_name ?k" if "i < length rss" for i
    using segment_name_inj[of "Suc i" ?k] that lim by linarith
  then show ?thesis using w' lim f assms(6,7) by (auto simp: logged_def stored_def seg_files_def)
qed

lemma roll_logged:
  assumes "logged w d rss rs" "roll_segment env w d = Some (True, w', d')"
  shows "logged w' d' (rss @ [rs]) [] \<and> stored w' d' [] \<and> jw_config w' = jw_config w"
proof -
  obtain k where k: "jw_segment_index w = k" "jw_fd w = Some (segment_name k)" "1 \<le> k" "length rss = k - 1"
    using assms(1) by (auto simp: logged_def)
  obtain w1 d1 where c: "close_segment env w d = Some (True, w1, d1)"
    using assms(2) by (auto simp: roll_segment_def bind_eq_Some_conv split: if_splits)
  from close_segment_done[OF k(2) c] obtain wf df where f: "jw_flush env w d = Some (True, wf, df)"
    "w1 = wf\<lparr>jw_syncs := jw_syncs wf + 1, jw_fd := None\<rparr>" "persist env (segment_name k) df = (True, d1)" by auto
  have fl: "wf = w\<lparr>jw_buffer := []\<rparr>" "logged wf df rss rs" using flush_logged[OF assms(1) f(1)] by auto
  have p: "logged wf d1 rss rs" "stored wf d1 rs" using persist_logged[OF fl(2) _ _ f(3)] fl(1) k(2) by auto
  have files: "dk_files d1 = zip (map segment_name [1..<Suc (length (rss @ [rs]))]) (map log_bytes (rss @ [rs]))"
    using p(1) fl(1) k by (auto simp: logged_def seg_files_def)
  have synced: "dk_synced d1 (segment_name (Suc i)) = length (log_bytes ((rss @ [rs]) ! i))" if "i < length (rss @ [rs])" for i
  proof (cases "i < length rss")
    case True
    then show ?thesis using p(1) fl(1) k by (auto simp: logged_def nth_append)
  next
    case False
    then have "Suc i = k" using that k(3,4) by simp
    then show ?thesis using p(2) fl(1) k(1) False that by (auto simp: stored_def nth_append less_Suc_eq)
  qed
  have "jw_healthy w1" "jw_buffer w1 = []" "jw_segment_index w1 = length (rss @ [rs])" "jw_config w1 = jw_config w"
    using f(2) fl(1) k assms(1) by (auto simp: logged_def)
  then show ?thesis using open_next[OF assms(2) c _ _ _ files synced] by auto
qed

definition log_of :: "JournalWriter \<Rightarrow> Disk \<Rightarrow> Record list \<Rightarrow> bool" where
  "log_of w d rs \<longleftrightarrow> (\<exists>rss cur. logged w d rss cur \<and> rs = concat rss @ cur \<and>
     (wc_durability (jw_config w) = DurabilityAlways \<longrightarrow> stored w d cur))"

lemma bind_succeeds:
  "do { (ok, x, y) \<leftarrow> m; if \<not> ok then Some (False, x, y) else k x y } = Some (True, u, v) \<longleftrightarrow>
   (\<exists>x y. m = Some (True, x, y) \<and> k x y = Some (True, u, v))"
  by (cases m) (auto split: if_splits)

text \<open>The writer with the record in its buffer, and what \<open>append\<close> then does.\<close>

definition buffered :: "Record \<Rightarrow> JournalWriter \<Rightarrow> JournalWriter" where
  "buffered r w = w\<lparr>jw_buffer := jw_buffer w @ encoded r, jw_records_written := jw_records_written w + 1,
     jw_bytes_written := jw_bytes_written w + of_nat (length (jw_buffer w @ encoded r) - length (jw_buffer w)),
     jw_segment_size := jw_segment_size w + of_nat (length (jw_buffer w @ encoded r) - length (jw_buffer w))\<rparr>"

lemma append_run:
  assumes "jw_healthy w" "jw_fd w \<noteq> None" "w1 = buffered r w"
  shows "jw_append env r now w d = do {
      (ok, w2, d2) \<leftarrow> (if length (jw_buffer w1) \<ge> wc_buffer_bytes (jw_config w1) \<or> sync_due w1 now
        then jw_flush env w1 d else Some (True, w1, d));
      if \<not> ok then Some (False, w2, d2)
      else do {
        (ok, w3, d3) \<leftarrow> (if sync_due w1 now then jw_sync env w2 d2 else Some (True, w2, d2));
        if \<not> ok then Some (False, w3, d3)
        else do {
          let w4 = (if sync_due w1 now then w3\<lparr>jw_last_sync := now\<rparr> else w3);
          if jw_segment_size w4 \<ge> wc_segment_bytes (jw_config w4) then roll_segment env w4 d3 else Some (True, w4, d3)
        }
      }
    }"
  using assms
  by (simp only: buffered_def jw_append_def encode_record_bytes Let_def bind.bind_lunit not_True_eq_False simp_thms if_False)

lemma append_log:
  assumes "log_of w d rs" "jw_append env r now w d = Some (True, w', d')"
  shows "log_of w' d' (rs @ [r]) \<and> jw_config w' = jw_config w"
proof -
  obtain rss cur where l: "logged w d rss cur" "rs = concat rss @ cur" using assms(1) by (auto simp: log_of_def)
  define w1 where "w1 = buffered r w"
  have l1: "logged w1 d rss (cur @ [r])" using l(1) by (auto simp: logged_def w1_def buffered_def)
  have live: "jw_healthy w" "jw_fd w \<noteq> None" using l(1) by (auto simp: logged_def)
  let ?flush = "if length (jw_buffer w1) \<ge> wc_buffer_bytes (jw_config w1) \<or> sync_due w1 now
    then jw_flush env w1 d else Some (True, w1, d)"
  obtain w2 d2 w3 d3 where f: "?flush = Some (True, w2, d2)"
    and g: "(if sync_due w1 now then jw_sync env w2 d2 else Some (True, w2, d2)) = Some (True, w3, d3)"
    and e: "(let w4 = (if sync_due w1 now then w3\<lparr>jw_last_sync := now\<rparr> else w3) in
      if jw_segment_size w4 \<ge> wc_segment_bytes (jw_config w4) then roll_segment env w4 d3 else Some (True, w4, d3)) = Some (True, w', d')"
    using assms(2) unfolding append_run[OF live w1_def] bind_succeeds by (elim exE conjE) (rule that)
  have c1: "jw_config w1 = jw_config w" by (simp add: w1_def buffered_def)
  have l2: "logged w2 d2 rss (cur @ [r])" "jw_config w2 = jw_config w1"
    using f l1 flush_logged[OF l1, of env w2 d2] by (auto split: if_splits)
  have l3: "logged w3 d3 rss (cur @ [r]) \<and> jw_config w3 = jw_config w1 \<and> (sync_due w1 now \<longrightarrow> stored w3 d3 (cur @ [r]))"
    using g l2 sync_logged[OF l2(1)] by (auto split: if_splits)
  let ?w4 = "if sync_due w1 now then w3\<lparr>jw_last_sync := now\<rparr> else w3"
  have l4: "logged ?w4 d3 rss (cur @ [r])"
    and s4: "jw_config ?w4 = jw_config w" "wc_durability (jw_config w) = DurabilityAlways \<longrightarrow> stored ?w4 d3 (cur @ [r])"
    using l3 c1 by (auto simp: logged_def stored_def sync_due_def)
  consider "roll_segment env ?w4 d3 = Some (True, w', d')" | "Some (True, ?w4, d3) = Some (True, w', d')"
    using e unfolding Let_def by (cases "jw_segment_size ?w4 \<ge> wc_segment_bytes (jw_config ?w4)") (simp_all only: if_True if_False)
  then show ?thesis
  proof cases
    case 1
    have "logged w' d' (rss @ [cur @ [r]]) [] \<and> stored w' d' [] \<and> jw_config w' = jw_config ?w4" using roll_logged[OF l4 1] by blast
    then show ?thesis using l(2) s4(1) by (auto simp: log_of_def intro!: exI[of _ "rss @ [cur @ [r]]"])
  next
    case 2
    then have "logged w' d' rss (cur @ [r])" "jw_config w' = jw_config w"
      "wc_durability (jw_config w) = DurabilityAlways \<longrightarrow> stored w' d' (cur @ [r])"
      using l4 s4 by (simp_all only: option.inject prod.inject)
    then show ?thesis using l(2) by (auto simp: log_of_def)
  qed
qed

section \<open>A journal from its start\<close>

definition empty_disk :: Disk where
  "empty_disk = \<lparr>dk_files = [], dk_synced = (\<lambda>_. 0), dk_calls = 0\<rparr>"

lemma open_log:
  assumes "jw_open env created (JournalWriter_new config) empty_disk = Some (True, w, d)"
  shows "log_of w d [] \<and> jw_config w = config"
proof -
  let ?w = "JournalWriter_new config" and ?d = empty_disk
  have "highest_segment ?d = 0" by (simp add: highest_segment_def empty_disk_def map_filter_simps)
  then have r: "roll_segment env ?w ?d = Some (True, w, d)"
    using assms by (auto simp: jw_open_def JournalWriter_new_def split: if_splits)
  have c: "close_segment env ?w ?d = Some (True, ?w, ?d)" by (simp add: close_segment_def JournalWriter_new_def)
  have "logged w d [] [] \<and> stored w d [] \<and> jw_config w = jw_config ?w"
    by (rule open_next[OF r c]) (simp_all add: JournalWriter_new_def empty_disk_def)
  then show ?thesis by (auto simp: log_of_def JournalWriter_new_def intro!: exI[of _ "[]"])
qed

text \<open>A writer opens its directory and appends records with the times of the appends.\<close>

fun append_all :: "Env \<Rightarrow> (Record \<times> Nanos) list \<Rightarrow> JournalWriter \<Rightarrow> Disk \<Rightarrow> (bool \<times> JournalWriter \<times> Disk) option" where
  "append_all env [] w d = Some (True, w, d)"
| "append_all env ((r, now) # xs) w d = do {
     (ok, w', d') \<leftarrow> jw_append env r now w d;
     if \<not> ok then Some (False, w', d') else append_all env xs w' d'
   }"

lemma append_all_log:
  assumes "log_of w d rs" "append_all env xs w d = Some (True, w', d')"
  shows "log_of w' d' (rs @ map fst xs) \<and> jw_config w' = jw_config w"
  using assms
proof (induction env xs w d arbitrary: rs rule: append_all.induct)
  case (2 env r now xs w d)
  obtain w1 d1 where a: "jw_append env r now w d = Some (True, w1, d1)" "append_all env xs w1 d1 = Some (True, w', d')"
    using 2(3) by (auto simp: bind_eq_Some_conv split: if_splits)
  have l: "log_of w1 d1 (rs @ [r])" "jw_config w1 = jw_config w" using append_log[OF 2(2) a(1)] by auto
  show ?case using 2(1)[OF a(1) refl refl _ l(1) a(2)] l(2) by simp
qed simp

section \<open>A crash\<close>

text \<open>
  What a crash may leave: of every file a prefix that is at least what was on durable storage.
\<close>

definition crashed :: "Disk \<Rightarrow> Disk \<Rightarrow> bool" where
  "crashed d d' \<longleftrightarrow> list_all2 (\<lambda>(n, c) (n', c'). n' = n \<and>
     (\<exists>k. dk_synced d n \<le> k \<and> k \<le> length c \<and> c' = take k c)) (dk_files d) (dk_files d')"

lemma crashed_log:
  assumes "logged w d rss rs" "crashed d d'"
  shows "\<exists>k. dk_files d' = seg_files (jw_segment_index w) (map log_bytes rss) (take k (log_bytes rs)) \<and>
    (stored w d rs \<longrightarrow> length (log_bytes rs) \<le> k)"
proof -
  obtain k cur where k: "jw_segment_index w = k" "1 \<le> k" "length rss = k - 1" "dk_files d = seg_files k (map log_bytes rss) cur"
    "cur @ jw_buffer w = log_bytes rs" "\<And>i. i < k - 1 \<Longrightarrow> dk_synced d (segment_name (Suc i)) = length (log_bytes (rss ! i))"
    using assms(1) by (auto simp: logged_def)
  let ?xs = "zip (map segment_name [1..<k]) (map log_bytes rss)"
  obtain ys n' c' where y: "dk_files d' = ys @ [(n', c')]" "list_all2 (\<lambda>(n, c) (n', c'). n' = n \<and>
     (\<exists>k. dk_synced d n \<le> k \<and> k \<le> length c \<and> c' = take k c)) ?xs ys"
     "n' = segment_name k" "\<exists>j. dk_synced d n' \<le> j \<and> j \<le> length cur \<and> c' = take j cur"
    using assms(2) unfolding crashed_def k(4) seg_files_def by (auto simp: list_all2_append1 list_all2_Cons1)
  have "length ys = length ?xs" using y(2) list_all2_lengthD by fastforce
  moreover have "ys ! i = ?xs ! i" if "i < length ?xs" for i
    using list_all2_nthD[OF y(2) that] that k(3,6) by (cases "ys ! i") auto
  ultimately have "ys = ?xs" by (intro nth_equalityI) auto
  moreover obtain j where j: "dk_synced d (segment_name k) \<le> j" "j \<le> length cur" "c' = take j cur" using y(3,4) by auto
  have "c' = take j (log_bytes rs)" using j k(5)[symmetric] by simp
  moreover have "stored w d rs \<longrightarrow> length (log_bytes rs) \<le> j" using j(1) k(1) by (auto simp: stored_def)
  ultimately show ?thesis using y(1,3) k(1) by (auto simp: seg_files_def)
qed

section \<open>Reading it back\<close>

lemma numbered_append: "numbered n (xs @ ys) \<longleftrightarrow> numbered n xs \<and> numbered (n + of_nat (length xs)) ys"
  by (induction xs arbitrary: n) (auto simp: add.assoc)

lemma filter_names:
  assumes "length cs = length is" "\<forall>i \<in> set is. i \<le> kMaxSegmentIndex"
  shows "List.map_filter (\<lambda>(name, _). map_option (\<lambda>i. (i, name)) (parse_segment_name name)) (zip (map segment_name is) cs) =
    map (\<lambda>i. (i, segment_name i)) is"
  using assms
proof (induction cs "is" rule: list_induct2)
  case (Cons c cs i "is")
  then have "parse_segment_name (segment_name i) = Some i" using parse_name_iff by simp
  then show ?case using Cons by (simp add: map_filter_simps)
qed (simp add: map_filter_simps)

lemma segments_files:
  assumes "dk_files d = zip (map segment_name [1..<Suc k]) cs" "length cs = k" "k \<le> kMaxSegmentIndex"
  shows "segments d = map segment_name [1..<Suc k]"
proof -
  let ?is = "[1..<Suc k]"
  have "List.map_filter (\<lambda>(name, _). map_option (\<lambda>i. (i, name)) (parse_segment_name name)) (dk_files d) =
      map (\<lambda>i. (i, segment_name i)) ?is"
    unfolding assms(1) by (rule filter_names) (use assms(2,3) in auto)
  moreover have "sorted (map fst (map (\<lambda>i. (i, segment_name i)) ?is))" by (simp add: comp_def del: upt_Suc)
  ultimately show ?thesis by (simp add: segments_def indexed_segments_def sort_key_id_if_sorted comp_def del: upt_Suc)
qed

lemma names_distinct: "k \<le> kMaxSegmentIndex \<Longrightarrow> distinct (map segment_name [1..<Suc k])"
  using segment_name_inj by (auto simp: distinct_map inj_on_def simp del: upt_Suc)

lemma file_bytes_nth:
  assumes "dk_files d = zip (map segment_name [1..<Suc k]) cs" "length cs = k" "k \<le> kMaxSegmentIndex" "i < k"
  shows "file_bytes d (segment_name (Suc i)) = cs ! i"
proof -
  have "map_of (zip (map segment_name [1..<Suc k]) cs) (map segment_name [1..<Suc k] ! i) = Some (cs ! i)"
    by (rule map_of_zip_nth) (use assms names_distinct in \<open>auto simp del: upt_Suc\<close>)
  then show ?thesis using assms(1,4) by (simp add: file_bytes_def del: upt_Suc)
qed

definition recovered :: "Record list \<Rightarrow> RecoveryReport \<Rightarrow> RecoveryReport \<Rightarrow> bool" where
  "recovered rs rep rep' \<longleftrightarrow> rp_outcome rep' = rp_outcome rep \<and>
     rp_records_recovered rep' = rp_records_recovered rep + of_nat (length rs)"

lemma advance_recovered: "recovered rs rep (advance_report rs rep)"
  by (induction rs arbitrary: rep) (simp_all add: recovered_def advance_report_def)

lemma read_whole_segments:
  assumes "list_all2 (\<lambda>p rs. file_bytes d p = log_bytes rs) ps rss" "numbered n (concat rss)"
  shows "\<exists>rep'. read_segments visit (\<lambda>_. True) d (ps @ qs) (n, s, rep) = read_segments visit (\<lambda>_. True) d qs
      (n + of_nat (length (concat rss)), fold (\<lambda>r. visit (carried r)) (concat rss) s, rep') \<and> recovered (concat rss) rep rep'"
  using assms
proof (induction ps rss arbitrary: n s rep rule: list_all2_induct)
  case Nil
  then show ?case by (auto simp: recovered_def)
next
  case (Cons p ps rs rss)
  have nu: "numbered n rs" "numbered (n + of_nat (length rs)) (concat rss)" using Cons.prems by (auto simp: numbered_append)
  let ?r0 = "rep\<lparr>rp_segments_read := rp_segments_read rep + 1\<rparr>"
  obtain rep' where r: "read_segments visit (\<lambda>_. True) d (ps @ qs) (n + of_nat (length rs), fold (\<lambda>r. visit (carried r)) rs s, advance_report rs ?r0) =
      read_segments visit (\<lambda>_. True) d qs (n + of_nat (length rs) + of_nat (length (concat rss)),
        fold (\<lambda>r. visit (carried r)) (concat rss) (fold (\<lambda>r. visit (carried r)) rs s), rep')"
    "recovered (concat rss) (advance_report rs ?r0) rep'"
    using Cons.IH[OF nu(2)] by blast
  show ?case using r read_segment_whole[OF nu(1), of visit p s ?r0] Cons.hyps(1) advance_recovered[of rs ?r0]
    by (auto simp: recovered_def add.assoc intro!: exI[of _ rep'])
qed

text \<open>A prefix of a log holds some records whole and perhaps a part of the next.\<close>

lemma cut_log:
  "\<exists>m \<le> length rs. (length (log_bytes rs) \<le> k \<longrightarrow> m = length rs) \<and> (take k (log_bytes rs) = log_bytes (take m rs) \<or>
     m < length rs \<and> (\<exists>j. 0 < j \<and> j < length (encoded (rs ! m)) \<and> take k (log_bytes rs) = log_bytes (take m rs) @ take j (encoded (rs ! m))))"
proof (induction rs arbitrary: k)
  case (Cons r rs)
  show ?case
  proof (cases "length (encoded r) \<le> k")
    case True
    obtain m where m: "m \<le> length rs" "length (log_bytes rs) \<le> k - length (encoded r) \<longrightarrow> m = length rs"
      "take (k - length (encoded r)) (log_bytes rs) = log_bytes (take m rs) \<or>
       m < length rs \<and> (\<exists>j. 0 < j \<and> j < length (encoded (rs ! m)) \<and>
         take (k - length (encoded r)) (log_bytes rs) = log_bytes (take m rs) @ take j (encoded (rs ! m)))"
      using Cons.IH[of "k - length (encoded r)"] by blast
    then show ?thesis using True by (intro exI[of _ "Suc m"]) auto
  next
    case False
    have "take k (encoded r) = [] \<or> 0 < k" by auto
    then show ?thesis
    proof
      assume "0 < k"
      then have "0 < k \<and> k < length (encoded r) \<and> take k (log_bytes (r # rs)) = take k (encoded r)" using False by simp
      then show ?thesis by (intro exI[of _ 0]) (auto simp del: encoded_nonempty)
    qed (use False in \<open>auto intro!: exI[of _ 0]\<close>)
  qed
qed simp

lemma read_cut:
  assumes "numbered n rs" "file_bytes d p = take k (log_bytes rs)"
  shows "\<exists>m rep'. m \<le> length rs \<and> (length (log_bytes rs) \<le> k \<longrightarrow> m = length rs) \<and>
    read_segments visit (\<lambda>_. True) d [p] (n, s, rep) = Some (fold (\<lambda>r. visit (carried r)) (take m rs) s, rep') \<and>
    rp_records_recovered rep' = rp_records_recovered rep + of_nat m \<and>
    rp_outcome rep' \<in> {rp_outcome rep, TornTail}"
proof -
  let ?r0 = "rep\<lparr>rp_segments_read := rp_segments_read rep + 1\<rparr>"
  obtain m where m: "m \<le> length rs" "length (log_bytes rs) \<le> k \<longrightarrow> m = length rs"
    "take k (log_bytes rs) = log_bytes (take m rs) \<or>
     m < length rs \<and> (\<exists>j. 0 < j \<and> j < length (encoded (rs ! m)) \<and> take k (log_bytes rs) = log_bytes (take m rs) @ take j (encoded (rs ! m)))"
    using cut_log by blast
  have rec: "recovered (take m rs) ?r0 (advance_report (take m rs) ?r0)" by (rule advance_recovered)
  from m(3) show ?thesis
  proof
    assume e: "take k (log_bytes rs) = log_bytes (take m rs)"
    have "numbered n (take m rs)" using assms(1) numbered_append[of n "take m rs" "drop m rs"] by simp
    from read_segment_whole[OF this, of visit p s ?r0] show ?thesis
      using assms(2) e m(1,2) rec by (intro exI[of _ m] exI[of _ "advance_report (take m rs) ?r0"]) (simp add: recovered_def min_absorb2)
  next
    assume "m < length rs \<and> (\<exists>j. 0 < j \<and> j < length (encoded (rs ! m)) \<and> take k (log_bytes rs) = log_bytes (take m rs) @ take j (encoded (rs ! m)))"
    then obtain j where j: "m < length rs" "0 < j" "j < length (encoded (rs ! m))"
      "take k (log_bytes rs) = log_bytes (take m rs) @ take j (encoded (rs ! m))" by blast
    have "numbered n (take (Suc m) rs)"
      using assms(1) numbered_append[of n "take (Suc m) rs" "drop (Suc m) rs"] by simp
    then have "numbered n (take m rs @ [rs ! m])" unfolding take_Suc_conv_app_nth[OF j(1)] .
    from read_segment_torn[OF this j(2,3), of visit p s ?r0] show ?thesis
      using assms(2) j(4) m(1,2) rec by (intro exI[of _ m]) (simp add: recovered_def min_absorb2)
  qed
qed

lemma read_crashed:
  assumes "logged w d rss cur" "crashed d d'" "numbered 1 (concat rss @ cur)"
  shows "\<exists>m rep. m \<le> length cur \<and> (stored w d cur \<longrightarrow> m = length cur) \<and>
    journal_read visit (\<lambda>_. True) True d' 1 s = Some (fold (\<lambda>r. visit (carried r)) (concat rss @ take m cur) s, rep) \<and>
    usable rep \<and> rp_records_recovered rep = of_nat (length (concat rss) + m)"
proof -
  let ?k = "jw_segment_index w"
  obtain j where j: "dk_files d' = seg_files ?k (map log_bytes rss) (take j (log_bytes cur))"
    "stored w d cur \<longrightarrow> length (log_bytes cur) \<le> j" using crashed_log[OF assms(1,2)] by blast
  have k: "1 \<le> ?k" "?k \<le> kMaxSegmentIndex" "length rss = ?k - 1" using assms(1) by (auto simp: logged_def)
  let ?cs = "map log_bytes rss @ [take j (log_bytes cur)]"
  have f: "dk_files d' = zip (map segment_name [1..<Suc ?k]) ?cs" "length ?cs = ?k"
    using j(1) k by (auto simp: seg_files_def)
  have segs: "segments d' = map segment_name [1..<?k] @ [segment_name ?k]" using segments_files[OF f k(2)] k(1) by simp
  have whole: "list_all2 (\<lambda>p rs. file_bytes d' p = log_bytes rs) (map segment_name [1..<?k]) rss"
    using k file_bytes_nth[OF f k(2)] by (auto simp: list_all2_conv_all_nth nth_append)
  have last: "file_bytes d' (segment_name ?k) = take j (log_bytes cur)" by (rule file_bytes_open[OF j(1) k(2)])
  have nu: "numbered 1 (concat rss)" "numbered (1 + of_nat (length (concat rss))) cur"
    using assms(3) by (auto simp: numbered_append)
  obtain r1 where r1: "read_segments visit (\<lambda>_. True) d' (segments d') (1, s, RecoveryReport_default) =
      read_segments visit (\<lambda>_. True) d' [segment_name ?k] (1 + of_nat (length (concat rss)), fold (\<lambda>r. visit (carried r)) (concat rss) s, r1)"
    "recovered (concat rss) RecoveryReport_default r1"
    using read_whole_segments[OF whole nu(1), of visit "[segment_name ?k]" s RecoveryReport_default] unfolding segs by blast
  let ?s = "fold (\<lambda>r. visit (carried r)) (concat rss) s"
  obtain m rep where m: "m \<le> length cur" "length (log_bytes cur) \<le> j \<longrightarrow> m = length cur"
    "read_segments visit (\<lambda>_. True) d' [segment_name ?k] (1 + of_nat (length (concat rss)), ?s, r1) =
      Some (fold (\<lambda>r. visit (carried r)) (take m cur) ?s, rep)"
    "rp_records_recovered rep = rp_records_recovered r1 + of_nat m" "rp_outcome rep \<in> {rp_outcome r1, TornTail}"
    using read_cut[OF nu(2) last, of visit ?s r1] by (elim exE conjE) (rule that)
  have "journal_read visit (\<lambda>_. True) True d' 1 s = Some (fold (\<lambda>r. visit (carried r)) (concat rss @ take m cur) s, rep)"
    using r1(1) m(3) by (simp add: journal_read_def)
  moreover have "usable rep" "rp_records_recovered rep = of_nat (length (concat rss) + m)"
    using r1(2) m(4,5) by (auto simp: recovered_def usable_def RecoveryReport_default_def)
  ultimately show ?thesis using m(1,2) j(2) by blast
qed

end
