(* ===== verification/Journal_Recovery.thy ===== *)
theory Journal_Recovery
  imports Journal_Log
begin

text \<open>
  The theorems about the journal as a whole: the writer returns whenever the system makes progress,
  what was appended is recovered after a crash, and a torn tail can be cut off.
\<close>

section \<open>Progress\<close>

definition progress :: "Env \<Rightarrow> bool" where
  "progress env \<longleftrightarrow> (\<forall>n. \<exists>m \<ge> n. env m \<noteq> Interrupted \<and> env m \<noteq> Done 0)"

lemma write_all_returns:
  assumes "progress env"
  shows "\<exists>y. write_all env fd bs w d = Some y"
proof (induction "length bs" arbitrary: bs d rule: less_induct)
  case less
  have "\<exists>y. write_all env fd bs w e = Some y"
    if "env (dk_calls e + k) \<noteq> Interrupted" "env (dk_calls e + k) \<noteq> Done 0" for k e
    using that
  proof (induction k arbitrary: e)
    case 0
    show ?case
    proof (cases "env (dk_calls e)")
      case (Done n)
      then show ?thesis using less[of "drop n bs" "tick (append_file fd (take n bs) e)"] 0
        by (subst write_all.simps) (auto simp: sys_write_def min_def)
    qed (use 0 in \<open>subst write_all.simps, auto simp: sys_write_def\<close>)+
  next
    case (Suc k)
    have tick: "dk_calls (tick e) + k = dk_calls e + Suc k" "dk_calls (append_file fd xs e') = dk_calls e'" for xs e'
      by (simp_all add: tick_def append_file_def)
    show ?case
    proof (cases "env (dk_calls e)")
      case (Done n)
      show ?thesis
      proof (cases "n = 0 \<or> bs = []")
        case True
        have "\<exists>y. write_all env fd bs w (tick (append_file fd [] e)) = Some y"
          by (rule Suc.IH) (use Suc.prems in \<open>simp_all add: tick_def append_file_def\<close>)
        then show ?thesis using True Done by (subst write_all.simps) (auto simp: sys_write_def)
      next
        case False
        then show ?thesis using less[of "drop n bs" "tick (append_file fd (take n bs) e)"] Done
          by (subst write_all.simps) (auto simp: sys_write_def min_def)
      qed
    next
      case Interrupted
      have "\<exists>y. write_all env fd bs w (tick e) = Some y" by (rule Suc.IH) (use Suc.prems tick(1) in simp_all)
      then show ?thesis using Interrupted by (subst write_all.simps) (auto simp: sys_write_def)
    qed (subst write_all.simps, auto simp: sys_write_def)
  qed
  moreover obtain m where "m \<ge> dk_calls d" "env m \<noteq> Interrupted" "env m \<noteq> Done 0" using assms by (auto simp: progress_def)
  ultimately show ?case using le_Suc_ex by metis
qed

lemma bind_returns:
  assumes "m \<noteq> None" "\<And>ok w d. k ok w d \<noteq> None"
  shows "do { (ok, w, d) \<leftarrow> m; k ok w d } \<noteq> None"
  using assms by (auto split: prod.splits)

lemma if_returns: "(P \<Longrightarrow> a \<noteq> None) \<Longrightarrow> (\<not> P \<Longrightarrow> b \<noteq> None) \<Longrightarrow> (if P then a else b) \<noteq> None"
  by simp

lemma flush_returns: "progress env \<Longrightarrow> jw_flush env w d \<noteq> None"
  using write_all_returns[of env "the (jw_fd w)" "jw_buffer w" w d]
  by (cases "jw_fd w") (auto simp: jw_flush_def)

lemma sync_returns: "progress env \<Longrightarrow> jw_sync env w d \<noteq> None"
  using flush_returns[of env w d] by (cases "jw_flush env w d") (auto simp: jw_sync_def split: option.splits prod.splits bool.splits)

lemma roll_returns: "progress env \<Longrightarrow> roll_segment env w d \<noteq> None"
proof -
  assume p: "progress env"
  have "close_segment env w d \<noteq> None"
    using flush_returns[OF p, of w d] by (cases "jw_flush env w d") (auto simp: close_segment_def split: option.splits prod.splits)
  then show ?thesis by (auto simp: roll_segment_def Let_def split: prod.splits bool.splits)
qed

lemma append_returns: "progress env \<Longrightarrow> jw_append env r now w d \<noteq> None"
  unfolding jw_append_def encode_record_bytes Let_def bind.bind_lunit
  by (intro if_returns bind_returns flush_returns sync_returns roll_returns option.discI[OF refl])

text \<open>
  C26: the writer returns.  If the system, from any point on, at some time does something other than
  report an interrupted call or transfer nothing, then opening, appending, flushing, syncing and
  closing all return, whatever state they find; so no retry loop runs forever.
\<close>

theorem journal_returns:
  assumes "\<forall>n. \<exists>m \<ge> n. env m \<noteq> Interrupted \<and> env m \<noteq> Done 0"
  shows "(\<exists>y. jw_open env created w d = Some y) \<and> (\<exists>y. jw_append env r now w d = Some y) \<and>
    (\<exists>y. jw_flush env w d = Some y) \<and> (\<exists>y. jw_sync env w d = Some y) \<and> (\<exists>y. jw_close env w d = Some y)"
proof -
  have p: "progress env" using assms by (simp add: progress_def)
  have "jw_open env created w d \<noteq> None" using roll_returns[OF p] by (auto simp: jw_open_def)
  moreover have "jw_append env r now w d \<noteq> None" by (rule append_returns[OF p])
  moreover have "jw_close env w d \<noteq> None"
    using flush_returns[OF p, of w d] by (auto simp: jw_close_def split: option.splits prod.splits)
  ultimately show ?thesis using flush_returns[OF p] sync_returns[OF p] unfolding not_None_eq by blast
qed

theorem journal_returns_witness:
  "\<exists>y. jw_append (\<lambda>n. if even n then Interrupted else Done 3) demo_record 5 (JournalWriter_new
     \<lparr>wc_segment_bytes = 100, wc_durability = DurabilityAlways, wc_sync_interval = 0, wc_buffer_bytes = 0\<rparr>
     \<lparr>jw_fd := Some (segment_name 1)\<rparr>) \<lparr>dk_files = [(segment_name 1, [])], dk_synced = (\<lambda>_. 0), dk_calls = 0\<rparr> = Some y"
proof (rule journal_returns[THEN conjunct2, THEN conjunct1], intro allI)
  fix n :: nat
  show "\<exists>m \<ge> n. (if even m then Interrupted else Done 3) \<noteq> Interrupted \<and> (if even m then Interrupted else Done 3) \<noteq> Done 0"
    by (intro exI[of _ "2 * n + 1"]) simp
qed

section \<open>Recovery\<close>

lemma log_crashed:
  assumes "log_of w d rs" "numbered 1 rs" "crashed d d'"
  shows "\<exists>m report. m \<le> length rs \<and> (wc_durability (jw_config w) = DurabilityAlways \<longrightarrow> m = length rs) \<and>
    journal_read visit (\<lambda>_. True) True d' 1 s = Some (fold (\<lambda>r. visit (carried r)) (take m rs) s, report) \<and>
    usable report \<and> rp_records_recovered report = of_nat m"
proof -
  obtain rss cur where l: "logged w d rss cur" "rs = concat rss @ cur"
    "wc_durability (jw_config w) = DurabilityAlways \<longrightarrow> stored w d cur" using assms(1) by (auto simp: log_of_def)
  obtain k report where k: "k \<le> length cur" "stored w d cur \<longrightarrow> k = length cur"
    "journal_read visit (\<lambda>_. True) True d' 1 s = Some (fold (\<lambda>r. visit (carried r)) (concat rss @ take k cur) s, report)"
    "usable report" "rp_records_recovered report = of_nat (length (concat rss) + k)"
    using read_crashed[OF l(1) assms(3) assms(2)[unfolded l(2)], of visit s] by (elim exE conjE) (rule that)
  have "take (length (concat rss) + k) rs = concat rss @ take k cur" unfolding l(2) by simp
  then show ?thesis using k l(2,3) by (intro exI[of _ "length (concat rss) + k"] exI[of _ report]) auto
qed


text \<open>A system that always answers: nothing fails.\<close>

lemma write_all_succeeds:
  assumes "env = (\<lambda>_. Done k)" "0 < k"
  shows "\<exists>d'. write_all env fd bs w d = Some (True, w, d')"
proof (induction "length bs" arbitrary: bs d rule: less_induct)
  case less
  then show ?case using less[of "drop k bs" "tick (append_file fd (take k bs) d)"] assms
    by (subst write_all.simps) (auto simp: sys_write_def min_def)
qed

lemma flush_succeeds:
  assumes "env = (\<lambda>_. Done k)" "0 < k" "jw_healthy w" "jw_fd w = Some fd"
  shows "\<exists>d'. jw_flush env w d = Some (True, w\<lparr>jw_buffer := []\<rparr>, d')"
  using write_all_succeeds[of env k fd "jw_buffer w" w d] assms by (cases "jw_buffer w = []") (auto simp: jw_flush_def)

lemma sync_succeeds:
  assumes "env = (\<lambda>_. Done k)" "0 < k" "jw_healthy w" "jw_fd w = Some fd"
  shows "\<exists>d'. jw_sync env w d = Some (True, w\<lparr>jw_buffer := [], jw_syncs := jw_syncs w + 1\<rparr>, d')"
  using flush_succeeds[OF assms, of d] assms by (auto simp: jw_sync_def persist_def)

text \<open>Rolling over to the next segment succeeds too, while there are indices left.\<close>

lemma roll_succeeds:
  assumes "env = (\<lambda>_. Done k)" "0 < k" "logged w d rss rs" "jw_segment_index w < kMaxSegmentIndex"
  shows "\<exists>w' d'. roll_segment env w d = Some (True, w', d') \<and> jw_segment_index w' = Suc (jw_segment_index w)"
proof -
  let ?n = "jw_segment_index w"
  obtain fd where w: "jw_healthy w" "jw_fd w = Some fd" using assms(3) by (auto simp: logged_def)
  obtain d1 where f: "jw_flush env w d = Some (True, w\<lparr>jw_buffer := []\<rparr>, d1)" using flush_succeeds[OF assms(1,2) w] by blast
  have l: "logged (w\<lparr>jw_buffer := []\<rparr>) d1 rss rs" using flush_logged[OF assms(3) f] by simp
  obtain d2 where p: "persist env fd d1 = (True, d2)" "dk_files d2 = dk_files d1" using assms(1) by (simp add: persist_def)
  have c: "close_segment env w d = Some (True, w\<lparr>jw_buffer := [], jw_syncs := jw_syncs w + 1, jw_fd := None\<rparr>, d2)"
    using f p(1) w(2) by (simp add: close_segment_def)
  obtain xs cur where files: "dk_files d2 = seg_files ?n xs cur" using l p(2) by (auto simp: logged_def)
  have "segment_name (Suc ?n) \<noteq> segment_name i" if "i \<le> ?n" for i
    using segment_name_inj[of "Suc ?n" i] that assms(4) by auto
  then have "segment_name (Suc ?n) \<notin> segment_name ` {..?n}" by blast
  moreover have "fst ` set (dk_files d2) \<subseteq> segment_name ` {..?n}"
    unfolding files seg_files_def by (auto dest!: set_zip_leftD)
  ultimately have "segment_name (Suc ?n) \<notin> fst ` set (dk_files d2)" by blast
  then show ?thesis using c assms(1,4) by (simp add: roll_segment_def Let_def sys_open_def)
qed

lemma append_succeeds:
  assumes "env = (\<lambda>_. Done k)" "0 < k" "log_of w d rs" "jw_segment_index w < kMaxSegmentIndex"
  shows "\<exists>w' d'. jw_append env r now w d = Some (True, w', d') \<and> jw_segment_index w' \<le> Suc (jw_segment_index w)"
proof -
  obtain rss cur where l: "logged w d rss cur" using assms(3) by (auto simp: log_of_def)
  then obtain fd where w: "jw_healthy w" "jw_fd w = Some fd" by (auto simp: logged_def)
  define w1 where "w1 = buffered r w"
  have w1: "jw_healthy w1" "jw_fd w1 = Some fd" "jw_segment_index w1 = jw_segment_index w" "logged w1 d rss (cur @ [r])"
    using w l by (auto simp: w1_def buffered_def logged_def)
  let ?flush = "if length (jw_buffer w1) \<ge> wc_buffer_bytes (jw_config w1) \<or> sync_due w1 now then jw_flush env w1 d else Some (True, w1, d)"
  obtain w2 d2 where f: "?flush = Some (True, w2, d2)" "logged w2 d2 rss (cur @ [r])" "jw_segment_index w2 = jw_segment_index w"
  proof (cases "length (jw_buffer w1) \<ge> wc_buffer_bytes (jw_config w1) \<or> sync_due w1 now")
    case True
    obtain d2 where d2: "jw_flush env w1 d = Some (True, w1\<lparr>jw_buffer := []\<rparr>, d2)" using flush_succeeds[OF assms(1,2) w1(1,2)] by blast
    show ?thesis by (rule that[of "w1\<lparr>jw_buffer := []\<rparr>" d2]) (use True d2 flush_logged[OF w1(4) d2] w1(3) in simp_all)
  qed (use w1(3,4) that in simp)
  obtain w3 d3 where g: "(if sync_due w1 now then jw_sync env w2 d2 else Some (True, w2, d2)) = Some (True, w3, d3)"
    "logged w3 d3 rss (cur @ [r])" "jw_segment_index w3 = jw_segment_index w"
  proof (cases "sync_due w1 now")
    case True
    have "jw_healthy w2" "jw_fd w2 = Some (segment_name (jw_segment_index w2))" using f(2) by (auto simp: logged_def)
    then obtain d3 where d3: "jw_sync env w2 d2 = Some (True, w2\<lparr>jw_buffer := [], jw_syncs := jw_syncs w2 + 1\<rparr>, d3)"
      using sync_succeeds[OF assms(1,2)] by blast
    show ?thesis by (rule that[of "w2\<lparr>jw_buffer := [], jw_syncs := jw_syncs w2 + 1\<rparr>" d3]) (use True d3 sync_logged[OF f(2) d3] f(3) in simp_all)
  qed (use f that in simp)
  let ?w4 = "if sync_due w1 now then w3\<lparr>jw_last_sync := now\<rparr> else w3"
  have l4: "logged ?w4 d3 rss (cur @ [r])" "jw_segment_index ?w4 = jw_segment_index w" using g(2,3) by (auto simp: logged_def)
  have "\<exists>w' d'. (if jw_segment_size ?w4 \<ge> wc_segment_bytes (jw_config ?w4) then roll_segment env ?w4 d3 else Some (True, ?w4, d3)) =
      Some (True, w', d') \<and> jw_segment_index w' \<le> Suc (jw_segment_index w)"
    using roll_succeeds[OF assms(1,2) l4(1)] l4(2) assms(4) by (cases "jw_segment_size ?w4 \<ge> wc_segment_bytes (jw_config ?w4)") auto
  then show ?thesis unfolding append_run[OF w(1) _ w1_def, of env now d] using w(2) f(1) g(1)
    by (simp only: append_run[OF w(1) _ w1_def] option.distinct not_False_eq_True bind.bind_lunit prod.case if_False not_True_eq_False Let_def simp_thms)
qed

abbreviation demo_env :: Env where
  "demo_env \<equiv> \<lambda>_. Done 7"

definition demo_config :: WriterConfig where
  "demo_config = \<lparr>wc_segment_bytes = 4096, wc_durability = DurabilityAlways, wc_sync_interval = 0, wc_buffer_bytes = 4096\<rparr>"

definition demo_first :: Record where
  "demo_first = demo_record\<lparr>rec_sequence := 1\<rparr>"

lemma demo_opened:
  obtains w0 d0 where "jw_open demo_env True (JournalWriter_new demo_config) empty_disk = Some (True, w0, d0)"
    "log_of w0 d0 []" "jw_config w0 = demo_config" "jw_segment_index w0 = 1"
proof -
  obtain w0 d0 where o: "jw_open demo_env True (JournalWriter_new demo_config) empty_disk = Some (True, w0, d0)" "jw_segment_index w0 = 1"
    by (simp add: jw_open_def highest_segment_def empty_disk_def map_filter_simps roll_segment_def close_segment_def
      JournalWriter_new_def sys_open_def kMaxSegmentIndex_def)
  then show thesis using open_log[OF o(1)] that by blast
qed

lemma demo_journal:
  "\<exists>w0 d0 w d. jw_open demo_env True (JournalWriter_new demo_config) empty_disk = Some (True, w0, d0) \<and>
     append_all demo_env [(demo_first, 5)] w0 d0 = Some (True, w, d)"
proof -
  obtain w0 d0 where o: "jw_open demo_env True (JournalWriter_new demo_config) empty_disk = Some (True, w0, d0)"
    "log_of w0 d0 []" "jw_segment_index w0 = 1" by (rule demo_opened)
  obtain w d where "jw_append demo_env demo_first 5 w0 d0 = Some (True, w, d)"
    using append_succeeds[OF refl _ o(2), of 7 demo_first 5] o(3) by (auto simp: kMaxSegmentIndex_def)
  then show ?thesis using o(1) by auto
qed

lemma crashed_self:
  assumes "logged w d rss cur" "stored w d cur"
  shows "crashed d d"
proof -
  obtain k where k: "1 \<le> k" "length rss = k - 1" "dk_files d = zip (map segment_name [1..<Suc k]) (map log_bytes (rss @ [cur]))"
    "\<forall>i < k - 1. dk_synced d (segment_name (Suc i)) = length (log_bytes (rss ! i))"
    "dk_synced d (segment_name k) = length (log_bytes cur)"
    using assms by (auto simp: logged_def stored_def seg_files_def)
  have "dk_synced d (segment_name (Suc i)) = length (log_bytes ((rss @ [cur]) ! i))" if "i < k" for i
    using k(1,2,4,5) that by (cases "i = k - 1") (auto simp: nth_append)
  then have "dk_synced d n = length c" if "(n, c) \<in> set (dk_files d)" for n c
    using that k(1,2) unfolding k(3) by (auto simp: in_set_zip nth_append simp del: upt_Suc)
  then show ?thesis unfolding crashed_def by (auto simp: list.rel_refl_strong intro!: list.rel_refl_strong)
qed


end
