(* ===== verification/Kill_Switch.thy ===== *)
theory Kill_Switch
  imports XC_Types
begin

text \<open>
  The kill switch (\<open>include/xc/risk/kill_switch.hpp\<close>, \<open>src/risk/kill_switch.cpp\<close>): halts of the venue
  and of single accounts, and the automatic trip after a run of rejected orders.
\<close>

section \<open>State\<close>

datatype HaltReason = HaltNone | HaltManual | RepeatedRejects | RiskBreach

fun halt_reason_string :: "HaltReason \<Rightarrow> string" where
  "halt_reason_string HaltNone = ''None''"
| "halt_reason_string HaltManual = ''Manual''"
| "halt_reason_string RepeatedRejects = ''RepeatedRejects''"
| "halt_reason_string RiskBreach = ''RiskBreach''"

record HaltState =
  hs_halted :: bool
  hs_reason :: HaltReason
  hs_since :: Nanos

definition HaltState_default :: HaltState where
  "HaltState_default = \<lparr>hs_halted = False, hs_reason = HaltNone, hs_since = 0\<rparr>"

record AccountHalt =
  ah_state :: HaltState
  ah_consecutive_rejects :: u32

definition AccountHalt_default :: AccountHalt where
  "AccountHalt_default = \<lparr>ah_state = HaltState_default, ah_consecutive_rejects = 0\<rparr>"

record KillSwitch =
  ks_venue :: HaltState
  ks_accounts :: "AccountId \<rightharpoonup> AccountHalt"
  ks_auto_trip_threshold :: u32

definition KillSwitch_new :: KillSwitch where
  "KillSwitch_new = \<lparr>ks_venue = HaltState_default, ks_accounts = Map.empty, ks_auto_trip_threshold = 0\<rparr>"

section \<open>Operations\<close>

text \<open>\<open>accounts_[account]\<close>: the entry, inserted when it is absent.\<close>

definition ks_entry :: "KillSwitch \<Rightarrow> AccountId \<Rightarrow> AccountHalt" where
  "ks_entry k account = (case ks_accounts k account of None \<Rightarrow> AccountHalt_default | Some h \<Rightarrow> h)"

definition ks_update :: "AccountId \<Rightarrow> AccountHalt \<Rightarrow> KillSwitch \<Rightarrow> KillSwitch" where
  "ks_update account h k = k\<lparr>ks_accounts := (ks_accounts k)(account \<mapsto> h)\<rparr>"

definition halt_venue :: "HaltReason \<Rightarrow> Nanos \<Rightarrow> KillSwitch \<Rightarrow> KillSwitch" where
  "halt_venue reason now k = k\<lparr>ks_venue := \<lparr>hs_halted = True, hs_reason = reason, hs_since = now\<rparr>\<rparr>"

definition resume_venue :: "KillSwitch \<Rightarrow> KillSwitch" where
  "resume_venue k = k\<lparr>ks_venue := HaltState_default\<rparr>"

definition venue_halted :: "KillSwitch \<Rightarrow> bool" where
  "venue_halted k \<longleftrightarrow> hs_halted (ks_venue k)"

definition halt_account :: "AccountId \<Rightarrow> HaltReason \<Rightarrow> Nanos \<Rightarrow> KillSwitch \<Rightarrow> KillSwitch" where
  "halt_account account reason now k =
     ks_update account ((ks_entry k account)\<lparr>ah_state := \<lparr>hs_halted = True, hs_reason = reason, hs_since = now\<rparr>\<rparr>) k"

definition resume_account :: "AccountId \<Rightarrow> KillSwitch \<Rightarrow> KillSwitch" where
  "resume_account account k =
     ks_update account ((ks_entry k account)\<lparr>ah_state := HaltState_default, ah_consecutive_rejects := 0\<rparr>) k"

definition account_halted :: "KillSwitch \<Rightarrow> AccountId \<Rightarrow> bool" where
  "account_halted k account = (case ks_accounts k account of None \<Rightarrow> False | Some h \<Rightarrow> hs_halted (ah_state h))"

definition account_state :: "KillSwitch \<Rightarrow> AccountId \<Rightarrow> HaltState" where
  "account_state k account = (case ks_accounts k account of None \<Rightarrow> HaltState_default | Some h \<Rightarrow> ah_state h)"

definition blocks_new_orders :: "KillSwitch \<Rightarrow> AccountId \<Rightarrow> bool" where
  "blocks_new_orders k account \<longleftrightarrow> hs_halted (ks_venue k) \<or> account_halted k account"

definition set_auto_trip_threshold :: "u32 \<Rightarrow> KillSwitch \<Rightarrow> KillSwitch" where
  "set_auto_trip_threshold consecutive_rejects k = k\<lparr>ks_auto_trip_threshold := consecutive_rejects\<rparr>"

definition record_reject :: "AccountId \<Rightarrow> Nanos \<Rightarrow> KillSwitch \<Rightarrow> KillSwitch" where
  "record_reject account now k =
     (if ks_auto_trip_threshold k = 0 then k
      else let halt = ks_entry k account; k1 = ks_update account halt k in
        if hs_halted (ah_state halt) then k1
        else let halt1 = halt\<lparr>ah_consecutive_rejects := ah_consecutive_rejects halt + 1\<rparr> in
          if ah_consecutive_rejects halt1 \<ge> ks_auto_trip_threshold k
          then ks_update account (halt1\<lparr>ah_state := \<lparr>hs_halted = True, hs_reason = RepeatedRejects, hs_since = now\<rparr>\<rparr>) k1
          else ks_update account halt1 k1)"

definition record_accept :: "AccountId \<Rightarrow> KillSwitch \<Rightarrow> KillSwitch" where
  "record_accept account k = (case ks_accounts k account of
       None \<Rightarrow> k
     | Some h \<Rightarrow> ks_update account (h\<lparr>ah_consecutive_rejects := 0\<rparr>) k)"

definition consecutive_rejects :: "KillSwitch \<Rightarrow> AccountId \<Rightarrow> u32" where
  "consecutive_rejects k account = (case ks_accounts k account of None \<Rightarrow> 0 | Some h \<Rightarrow> ah_consecutive_rejects h)"

section \<open>Halts are sticky\<close>

lemma halted_entry: "account_halted k a \<longleftrightarrow> hs_halted (ah_state (ks_entry k a))"
  by (simp add: account_halted_def ks_entry_def AccountHalt_default_def HaltState_default_def split: option.splits)

lemma entry_update [simp]: "ks_entry (ks_update a h k) b = (if b = a then h else ks_entry k b)"
  by (simp add: ks_entry_def ks_update_def)

lemma update_fields [simp]: "ks_venue (ks_update a h k) = ks_venue k"
  "ks_auto_trip_threshold (ks_update a h k) = ks_auto_trip_threshold k"
  by (simp_all add: ks_update_def)

text \<open>Only \<open>resume_venue\<close> and \<open>resume_account\<close> lift a halt.\<close>

datatype SwitchEvent =
    EvHaltVenue HaltReason Nanos | EvHaltAccount AccountId HaltReason Nanos
  | EvReject AccountId Nanos | EvAccept AccountId | EvThreshold u32

fun switch_step :: "SwitchEvent \<Rightarrow> KillSwitch \<Rightarrow> KillSwitch" where
  "switch_step (EvHaltVenue r t) k = halt_venue r t k"
| "switch_step (EvHaltAccount a r t) k = halt_account a r t k"
| "switch_step (EvReject a t) k = record_reject a t k"
| "switch_step (EvAccept a) k = record_accept a k"
| "switch_step (EvThreshold n) k = set_auto_trip_threshold n k"

lemma halt_sticky_step: "blocks_new_orders k a \<Longrightarrow> blocks_new_orders (switch_step e k) a"
proof (cases e)
  case (EvReject b t)
  assume "blocks_new_orders k a"
  then show ?thesis unfolding EvReject
    by (auto simp: blocks_new_orders_def halted_entry record_reject_def Let_def)
next
  case (EvAccept b)
  assume "blocks_new_orders k a"
  then show ?thesis unfolding EvAccept
    by (auto simp: blocks_new_orders_def account_halted_def record_accept_def ks_update_def split: option.splits)
next
  case (EvThreshold n)
  assume "blocks_new_orders k a"
  then show ?thesis unfolding EvThreshold
    by (auto simp: blocks_new_orders_def account_halted_def set_auto_trip_threshold_def)
next
  case (EvHaltVenue r t)
  then show ?thesis by (simp add: blocks_new_orders_def halt_venue_def)
next
  case (EvHaltAccount b r t)
  assume "blocks_new_orders k a"
  then show ?thesis unfolding EvHaltAccount by (auto simp: blocks_new_orders_def halted_entry halt_account_def)
qed

lemma halt_sticky: "blocks_new_orders k a \<Longrightarrow> blocks_new_orders (fold switch_step es k) a"
  by (induction es arbitrary: k) (auto intro: halt_sticky_step)

section \<open>The automatic trip\<close>

lemma unat_succ: "unat (c :: u32) < unat (m :: u32) \<Longrightarrow> unat (c + 1) = Suc (unat c)"
  using unsigned_less[of m, where 'a = nat] by (simp add: unat_word_ariths)

text \<open>A run of \<open>n\<close> rejects with no accept in between, below the threshold and then at it.\<close>

lemma reject_run:
  assumes "\<not> account_halted k a" and "consecutive_rejects k a = 0" and "n < unat (ks_auto_trip_threshold k)"
  shows "let k' = (record_reject a t ^^ n) k in
    \<not> account_halted k' a \<and> unat (consecutive_rejects k' a) = n \<and> ks_auto_trip_threshold k' = ks_auto_trip_threshold k"
  using assms(3)
proof (induction n)
  case 0
  then show ?case using assms by simp
next
  case (Suc n)
  let ?k = "(record_reject a t ^^ n) k"
  have ih: "\<not> account_halted ?k a" "unat (consecutive_rejects ?k a) = n"
      "ks_auto_trip_threshold ?k = ks_auto_trip_threshold k"
    using Suc by (simp_all add: Let_def)
  let ?c = "ah_consecutive_rejects (ks_entry ?k a)"
  have c: "?c = consecutive_rejects ?k a" by (simp add: ks_entry_def consecutive_rejects_def AccountHalt_default_def split: option.splits)
  have "unat (?c + 1) = Suc n"
    using ih(2) c Suc.prems unat_succ[of ?c "ks_auto_trip_threshold k"] by simp
  then have cn: "unat (?c + 1) = Suc n" "\<not> ?c + 1 \<ge> ks_auto_trip_threshold k" "ks_auto_trip_threshold k \<noteq> 0"
    using Suc.prems by (auto simp: word_le_nat_alt)
  have "\<not> hs_halted (ah_state (ks_entry ?k a))" using ih(1) halted_entry by simp
  then have "record_reject a t ?k = ks_update a ((ks_entry ?k a)\<lparr>ah_consecutive_rejects := ?c + 1\<rparr>) (ks_update a (ks_entry ?k a) ?k)"
    using cn ih(3) by (simp add: record_reject_def Let_def)
  then show ?case using cn ih \<open>\<not> hs_halted (ah_state (ks_entry ?k a))\<close>
    by (simp add: Let_def halted_entry consecutive_rejects_def ks_update_def ks_entry_def)
qed

lemma reject_trips:
  assumes "\<not> account_halted k a" and "consecutive_rejects k a = 0" and "n = unat (ks_auto_trip_threshold k)" and "0 < n"
  shows "account_halted ((record_reject a t ^^ n) k) a"
proof -
  obtain m where m: "n = Suc m" using assms(4) by (cases n) auto
  let ?k = "(record_reject a t ^^ m) k"
  have run: "\<not> account_halted ?k a" "unat (consecutive_rejects ?k a) = m" "ks_auto_trip_threshold ?k = ks_auto_trip_threshold k"
    using reject_run[OF assms(1,2), of m t] assms(3) m by (simp_all add: Let_def)
  let ?c = "ah_consecutive_rejects (ks_entry ?k a)"
  have c: "?c = consecutive_rejects ?k a" by (simp add: ks_entry_def consecutive_rejects_def AccountHalt_default_def split: option.splits)
  have "unat (?c + 1) = n" using run(2) c m assms(3) unat_succ[of ?c "ks_auto_trip_threshold k"] by simp
  then have "?c + 1 \<ge> ks_auto_trip_threshold k" "ks_auto_trip_threshold k \<noteq> 0" using assms(3,4) by (auto simp: word_le_nat_alt)
  moreover have "\<not> hs_halted (ah_state (ks_entry ?k a))" using run(1) halted_entry by simp
  ultimately have "account_halted (record_reject a t ?k) a"
    using run(3) by (simp add: record_reject_def Let_def halted_entry)
  then show ?thesis by (simp add: m)
qed

end
