(* ===== verification/Risk_Engine.thy ===== *)
theory Risk_Engine
  imports XC_Types
begin

text \<open>
  Pre-trade risk (\<open>include/xc/risk/limits.hpp\<close>, \<open>exposure.hpp\<close>, \<open>risk_engine.hpp\<close> and
  \<open>src/risk/risk_engine.cpp\<close>): the limits and exposure of the accounts, the price collar, the message
  rate limiter and the callbacks that keep the exposure current.  A net position is a signed 64-bit
  number; it is held as its two's complement word, and \<open>sint\<close> reads it.
\<close>

section \<open>Limits and exposure\<close>

record AccountLimits =
  al_max_order_quantity :: Quantity
  al_max_order_notional :: u64
  al_max_open_orders :: u32
  al_max_position :: Quantity
  al_max_messages_per_second :: u32
  al_message_burst :: u32

definition AccountLimits_default :: AccountLimits where
  "AccountLimits_default = \<lparr>al_max_order_quantity = - 1, al_max_order_notional = - 1, al_max_open_orders = - 1,
     al_max_position = - 1, al_max_messages_per_second = 0, al_message_burst = 1\<rparr>"

record InstrumentControls =
  ic_collar_bps :: u32

record Exposure =
  ex_net_position :: u64
  ex_working_buy :: Quantity
  ex_working_sell :: Quantity

definition Exposure_default :: Exposure where
  "Exposure_default = \<lparr>ex_net_position = 0, ex_working_buy = 0, ex_working_sell = 0\<rparr>"

definition projected_long :: "Exposure \<Rightarrow> int" where
  "projected_long e = sint (ex_net_position e + ex_working_buy e)"

definition projected_short :: "Exposure \<Rightarrow> int" where
  "projected_short e = sint (ex_working_sell e - ex_net_position e)"

section \<open>The engine's state\<close>

record AccountState =
  as_limits :: AccountLimits
  as_open_orders :: u32
  as_exposure :: "InstrumentId \<rightharpoonup> Exposure"
  as_theoretical_arrival :: Nanos

definition AccountState_default :: AccountState where
  "AccountState_default = \<lparr>as_limits = AccountLimits_default, as_open_orders = 0, as_exposure = Map.empty,
     as_theoretical_arrival = 0\<rparr>"

record InstrumentState =
  is_controls :: InstrumentControls
  is_reference_price :: Price

definition InstrumentState_default :: InstrumentState where
  "InstrumentState_default = \<lparr>is_controls = \<lparr>ic_collar_bps = 0\<rparr>, is_reference_price = kNoPrice\<rparr>"

record RiskEngine =
  re_accounts :: "AccountId \<rightharpoonup> AccountState"
  re_instruments :: "InstrumentId \<rightharpoonup> InstrumentState"

definition RiskEngine_new :: RiskEngine where
  "RiskEngine_new = \<lparr>re_accounts = Map.empty, re_instruments = Map.empty\<rparr>"

section \<open>Configuration\<close>

definition state_for :: "RiskEngine \<Rightarrow> AccountId \<Rightarrow> AccountState" where
  "state_for e account = (case re_accounts e account of None \<Rightarrow> AccountState_default | Some s \<Rightarrow> s)"

definition set_state :: "AccountId \<Rightarrow> AccountState \<Rightarrow> RiskEngine \<Rightarrow> RiskEngine" where
  "set_state account s e = e\<lparr>re_accounts := (re_accounts e)(account \<mapsto> s)\<rparr>"

definition risk_configure :: "AccountId \<Rightarrow> AccountLimits \<Rightarrow> RiskEngine \<Rightarrow> RiskEngine" where
  "risk_configure account limits e = set_state account ((state_for e account)\<lparr>as_limits := limits\<rparr>) e"

definition limits_for :: "RiskEngine \<Rightarrow> AccountId \<Rightarrow> AccountLimits option" where
  "limits_for e account = map_option as_limits (re_accounts e account)"

definition instrument_state :: "RiskEngine \<Rightarrow> InstrumentId \<Rightarrow> InstrumentState" where
  "instrument_state e instrument = (case re_instruments e instrument of None \<Rightarrow> InstrumentState_default | Some s \<Rightarrow> s)"

definition configure_instrument :: "InstrumentId \<Rightarrow> InstrumentControls \<Rightarrow> RiskEngine \<Rightarrow> RiskEngine" where
  "configure_instrument instrument controls e = e\<lparr>re_instruments :=
     (re_instruments e)(instrument \<mapsto> (instrument_state e instrument)\<lparr>is_controls := controls\<rparr>)\<rparr>"

definition set_reference_price :: "InstrumentId \<Rightarrow> Price \<Rightarrow> RiskEngine \<Rightarrow> RiskEngine" where
  "set_reference_price instrument price e =
     (if price > 0 then e\<lparr>re_instruments :=
        (re_instruments e)(instrument \<mapsto> (instrument_state e instrument)\<lparr>is_reference_price := price\<rparr>)\<rparr>
      else e)"

definition reference_price :: "RiskEngine \<Rightarrow> InstrumentId \<Rightarrow> Price" where
  "reference_price e instrument = (case re_instruments e instrument of None \<Rightarrow> kNoPrice | Some s \<Rightarrow> is_reference_price s)"

section \<open>Checks\<close>

definition rate_interval :: "AccountLimits \<Rightarrow> Nanos" where
  "rate_interval limits = int (1000000000 div unat (al_max_messages_per_second limits))"

definition rate_tolerance :: "AccountLimits \<Rightarrow> Nanos" where
  "rate_tolerance limits =
     (let burst = (if al_message_burst limits = 0 then 1 else al_message_burst limits)
      in int (unat (burst - 1)) * rate_interval limits)"

definition consume_rate_budget :: "AccountState \<Rightarrow> Nanos \<Rightarrow> bool \<times> AccountState" where
  "consume_rate_budget s now =
     (if al_max_messages_per_second (as_limits s) = 0 then (True, s)
      else let interval = rate_interval (as_limits s); tolerance = rate_tolerance (as_limits s) in
        if now < as_theoretical_arrival s - tolerance then (False, s)
        else (True, s\<lparr>as_theoretical_arrival := max now (as_theoretical_arrival s) + interval\<rparr>))"

definition check_collar :: "RiskEngine \<Rightarrow> NewOrder \<Rightarrow> RejectReason" where
  "check_collar e command = (case re_instruments e (no_instrument command) of
       None \<Rightarrow> RejectNone
     | Some s \<Rightarrow>
         if ic_collar_bps (is_controls s) = 0 then RejectNone
         else let reference = is_reference_price s in
           if reference \<le> 0 \<or> no_type command \<noteq> Limit \<or> no_price command \<le> 0 then RejectNone
           else let deviation = (if no_price command > reference then no_price command - reference
                                 else reference - no_price command);
                    kMax = - 1 :: u64; kBasisPoints = 10000 :: u64;
                    scaled_deviation = word_of_int deviation :: u64;
                    scaled_reference = word_of_int reference :: u64;
                    collar = ucast (ic_collar_bps (is_controls s)) :: u64
             in if scaled_deviation > kMax div kBasisPoints then PriceCollar
                else if scaled_reference > kMax div collar then RejectNone
                else if scaled_deviation * kBasisPoints > scaled_reference * collar then PriceCollar
                else RejectNone)"

text \<open>The notional check: the product, and whether dividing it back shows that it wrapped.\<close>

definition notional_breach :: "AccountLimits \<Rightarrow> NewOrder \<Rightarrow> bool" where
  "notional_breach limits command =
     (if no_type command = Limit \<and> no_price command > 0 then
        let price = word_of_int (no_price command) :: u64;
            notional = price * no_quantity command;
            overflowed = (no_quantity command \<noteq> 0 \<and> notional div no_quantity command \<noteq> price)
        in overflowed \<or> notional > al_max_order_notional limits
      else False)"

definition position_breach :: "AccountState \<Rightarrow> NewOrder \<Rightarrow> bool" where
  "position_breach s command =
     (if al_max_position (as_limits s) \<noteq> - 1 then
        let current = (case as_exposure s (no_instrument command) of None \<Rightarrow> Exposure_default | Some x \<Rightarrow> x);
            projected = (if no_side command = Buy
              then current\<lparr>ex_working_buy := ex_working_buy current + no_quantity command\<rparr>
              else current\<lparr>ex_working_sell := ex_working_sell current + no_quantity command\<rparr>);
            cap = sint (al_max_position (as_limits s))
        in projected_long projected > cap \<or> projected_short projected > cap
      else False)"

definition limit_check :: "AccountState \<Rightarrow> NewOrder \<Rightarrow> RejectReason" where
  "limit_check s command =
     (if no_quantity command > al_max_order_quantity (as_limits s) then RiskLimit
      else if notional_breach (as_limits s) command then RiskLimit
      else if as_open_orders s \<ge> al_max_open_orders (as_limits s) then RiskLimit
      else if position_breach s command then RiskLimit
      else RejectNone)"

definition check :: "NewOrder \<Rightarrow> Instrument \<Rightarrow> Nanos \<Rightarrow> RiskEngine \<Rightarrow> RejectReason \<times> RiskEngine" where
  "check command instrument now e = (case re_accounts e (no_account command) of
       None \<Rightarrow> (check_collar e command, e)
     | Some s \<Rightarrow>
         (case consume_rate_budget s now of
            (False, s') \<Rightarrow> (RateLimit, set_state (no_account command) s' e)
          | (True, s') \<Rightarrow>
              let e' = set_state (no_account command) s' e; collar = check_collar e' command in
              if collar \<noteq> RejectNone then (collar, e') else (limit_check s' command, e')))"

section \<open>Callbacks\<close>

definition exposure_for :: "AccountState \<Rightarrow> InstrumentId \<Rightarrow> Exposure" where
  "exposure_for s instrument = (case as_exposure s instrument of None \<Rightarrow> Exposure_default | Some x \<Rightarrow> x)"

definition set_exposure :: "InstrumentId \<Rightarrow> Exposure \<Rightarrow> AccountState \<Rightarrow> AccountState" where
  "set_exposure instrument x s = s\<lparr>as_exposure := (as_exposure s)(instrument \<mapsto> x)\<rparr>"

definition on_order_rested :: "Order \<Rightarrow> RiskEngine \<Rightarrow> RiskEngine" where
  "on_order_rested ord e =
     (let s = state_for e (ord_account ord); s1 = s\<lparr>as_open_orders := as_open_orders s + 1\<rparr>;
          x = exposure_for s1 (ord_instrument ord);
          x' = (if is_buy ord then x\<lparr>ex_working_buy := ex_working_buy x + ord_remaining ord\<rparr>
                else x\<lparr>ex_working_sell := ex_working_sell x + ord_remaining ord\<rparr>)
      in set_state (ord_account ord) (set_exposure (ord_instrument ord) x' s1) e)"

definition on_working_released :: "AccountId \<Rightarrow> InstrumentId \<Rightarrow> Side \<Rightarrow> Quantity \<Rightarrow> RiskEngine \<Rightarrow> RiskEngine" where
  "on_working_released account instrument side quantity e = (case re_accounts e account of
       None \<Rightarrow> e
     | Some s \<Rightarrow> (case as_exposure s instrument of
           None \<Rightarrow> e
         | Some x \<Rightarrow>
             let x' = (if side = Buy then x\<lparr>ex_working_buy := ex_working_buy x - min (ex_working_buy x) quantity\<rparr>
                       else x\<lparr>ex_working_sell := ex_working_sell x - min (ex_working_sell x) quantity\<rparr>)
             in set_state account (set_exposure instrument x' s) e))"

definition fill_exposure :: "Side \<Rightarrow> Quantity \<Rightarrow> Exposure \<Rightarrow> Exposure" where
  "fill_exposure side quantity x =
     (if side = Buy
      then x\<lparr>ex_net_position := ex_net_position x + quantity,
             ex_working_buy := ex_working_buy x - min (ex_working_buy x) quantity\<rparr>
      else x\<lparr>ex_net_position := ex_net_position x - quantity,
             ex_working_sell := ex_working_sell x - min (ex_working_sell x) quantity\<rparr>)"

definition apply_fill :: "Fill \<Rightarrow> AccountId \<Rightarrow> Side \<Rightarrow> RiskEngine \<Rightarrow> RiskEngine" where
  "apply_fill f account side e = (case re_accounts e account of
       None \<Rightarrow> e
     | Some s \<Rightarrow> set_state account (set_exposure (fill_instrument f)
         (fill_exposure side (fill_quantity f) (exposure_for s (fill_instrument f))) s) e)"

definition on_fill :: "Fill \<Rightarrow> RiskEngine \<Rightarrow> RiskEngine" where
  "on_fill f e = apply_fill f (fill_resting_account f) (opposite (fill_aggressor_side f))
     (apply_fill f (fill_aggressor_account f) (fill_aggressor_side f) e)"

definition on_order_closed :: "AccountId \<Rightarrow> RiskEngine \<Rightarrow> RiskEngine" where
  "on_order_closed account e = (case re_accounts e account of
       None \<Rightarrow> e
     | Some s \<Rightarrow> if as_open_orders s > 0 then set_state account (s\<lparr>as_open_orders := as_open_orders s - 1\<rparr>) e else e)"

definition exposure :: "RiskEngine \<Rightarrow> AccountId \<Rightarrow> InstrumentId \<Rightarrow> Exposure" where
  "exposure e account instrument = (case re_accounts e account of
       None \<Rightarrow> Exposure_default
     | Some s \<Rightarrow> (case as_exposure s instrument of None \<Rightarrow> Exposure_default | Some x \<Rightarrow> x))"

definition open_orders :: "RiskEngine \<Rightarrow> AccountId \<Rightarrow> u32" where
  "open_orders e account = (case re_accounts e account of None \<Rightarrow> 0 | Some s \<Rightarrow> as_open_orders s)"

section \<open>The notional check is exact\<close>

lemma unat_price: "0 < p \<Longrightarrow> p \<in> i64_range \<Longrightarrow> unat (word_of_int p :: u64) = nat p"
  by (simp add: i64_range_def unsigned_of_int nat_take_bit_eq take_bit_nat_eq_self nat_less_iff)

lemma mult_wraps:
  fixes a b :: u64
  assumes "b \<noteq> 0"
  shows "a * b div b \<noteq> a \<longleftrightarrow> unat a * unat b \<ge> 2 ^ 64"
proof -
  have b: "unat b > 0" using assms by (simp add: unat_gt_0)
  have eq: "unat (a * b div b) = (unat a * unat b) mod 2 ^ 64 div unat b" by (simp add: unat_div unat_word_ariths)
  show ?thesis
  proof (cases "unat a * unat b < 2 ^ 64")
    case True
    then have "unat (a * b div b) = unat a" using eq b by simp
    then show ?thesis using True by (simp add: word_unat_eq_iff)
  next
    case False
    moreover have "(unat a * unat b) mod 2 ^ 64 < 2 ^ 64" by simp
    ultimately have "(unat a * unat b) mod 2 ^ 64 < unat a * unat b" by linarith
    then have "(unat a * unat b) mod 2 ^ 64 div unat b < unat a" using b by (simp add: div_less_iff_less_mult)
    then have "a * b div b \<noteq> a" using eq by auto
    then show ?thesis using False by simp
  qed
qed

lemma notional_exact:
  assumes "no_price c \<in> i64_range"
  shows "notional_breach limits c \<longleftrightarrow> no_type c = Limit \<and> no_price c > 0 \<and>
    nat (no_price c) * unat (no_quantity c) > unat (al_max_order_notional limits)"
proof (cases "no_type c = Limit \<and> no_price c > 0")
  case True
  let ?p = "word_of_int (no_price c) :: u64" and ?q = "no_quantity c"
  have p: "unat ?p = nat (no_price c)" using unat_price assms True by simp
  have b: "notional_breach limits c \<longleftrightarrow> (?q \<noteq> 0 \<and> ?p * ?q div ?q \<noteq> ?p) \<or> ?p * ?q > al_max_order_notional limits"
    using True by (simp add: notional_breach_def Let_def)
  show ?thesis
  proof (cases "unat ?p * unat ?q < 2 ^ 64")
    case small: True
    then have "unat (?p * ?q) = unat ?p * unat ?q" by (simp add: unat_word_ariths)
    then show ?thesis using b mult_wraps[of ?q ?p] small True p by (auto simp: word_less_nat_alt)
  next
    case False
    then have "?q \<noteq> 0" by (auto simp: not_less)
    moreover have "unat (al_max_order_notional limits) < 2 ^ 64" using unsigned_less[of "al_max_order_notional limits", where 'a = nat] by simp
    ultimately show ?thesis using b mult_wraps[of ?q ?p] False True p by auto
  qed
next
  case False
  then show ?thesis by (auto simp: notional_breach_def)
qed

section \<open>The price collar\<close>

lemma le_max_div: "b \<noteq> 0 \<Longrightarrow> (a :: u64) \<le> (- 1) div b \<longleftrightarrow> unat a * unat b < 2 ^ 64"
proof -
  assume "b \<noteq> 0"
  then have b: "unat b > 0" by (simp add: unat_gt_0)
  have "unat ((- 1 :: u64) div b) = (2 ^ 64 - 1) div unat b"
    by (simp add: unat_div unsigned_minus_1_eq_mask mask_eq_exp_minus_1)
  then have "a \<le> (- 1) div b \<longleftrightarrow> unat a * unat b \<le> 2 ^ 64 - 1" using b by (simp add: word_le_nat_alt less_eq_div_iff_mult_less_eq)
  then show ?thesis by auto
qed

text \<open>The band around the reference price, in exact arithmetic.\<close>

definition outside_band :: "Price \<Rightarrow> nat \<Rightarrow> Price \<Rightarrow> bool" where
  "outside_band reference bps price \<longleftrightarrow> \<bar>price - reference\<bar> * 10000 > reference * int bps"

lemma collar_exact:
  assumes st: "re_instruments e (no_instrument c) = Some s" and on: "ic_collar_bps (is_controls s) \<noteq> 0"
    and ref: "0 < is_reference_price s" "is_reference_price s \<in> i64_range"
    and p: "no_type c = Limit" "0 < no_price c" "no_price c \<in> i64_range"
    and band: "is_reference_price s * int (unat (ic_collar_bps (is_controls s))) < 2 ^ 64"
  shows "check_collar e c = (if outside_band (is_reference_price s) (unat (ic_collar_bps (is_controls s))) (no_price c)
    then PriceCollar else RejectNone)"
proof -
  let ?r = "is_reference_price s" and ?p = "no_price c" and ?b = "ic_collar_bps (is_controls s)"
  let ?d = "if ?p > ?r then ?p - ?r else ?r - ?p"
  let ?wd = "word_of_int ?d :: u64" and ?wr = "word_of_int ?r :: u64" and ?wb = "ucast ?b :: u64"
  have d: "?d = \<bar>?p - ?r\<bar>" "0 \<le> ?d" "?d < 2 ^ 63" using ref p by (auto simp: i64_range_def)
  have ud: "unat ?wd = nat ?d" using d(2,3)
    by (simp add: unsigned_of_int nat_take_bit_eq take_bit_nat_eq_self nat_less_iff del: if_split)
  have ur: "unat ?wr = nat ?r" using unat_price ref by simp
  have ub: "unat ?wb = unat ?b" "?wb \<noteq> 0"
    using on unsigned_less[of ?b, where 'a = nat] by (auto simp: unsigned_ucast_eq take_bit_nat_eq_self word_unat_eq_iff)
  have ir: "int (nat ?r * unat ?b) = ?r * int (unat ?b)" using ref(1) by simp
  have "int (nat ?r * unat ?b) < int (2 ^ 64)" using band unfolding ir by simp
  then have nb: "nat ?r * unat ?b < 2 ^ 64" by (simp only: of_nat_less_iff)
  have out: "outside_band ?r (unat ?b) ?p \<longleftrightarrow> nat ?d * 10000 > nat ?r * unat ?b"
  proof -
    have "int (nat ?d * 10000) = \<bar>?p - ?r\<bar> * 10000" using d by simp
    then show ?thesis unfolding outside_band_def ir[symmetric] by (metis of_nat_less_iff)
  qed
  have cc: "check_collar e c = (if ?wd > (- 1) div 10000 then PriceCollar
      else if ?wr > (- 1) div ?wb then RejectNone else if ?wd * 10000 > ?wr * ?wb then PriceCollar else RejectNone)"
    using st on ref(1) p(1,2) by (simp add: check_collar_def Let_def)
  have wr: "\<not> ?wr > (- 1) div ?wb" using le_max_div[OF ub(2), of ?wr] nb ur ub(1) by (simp add: not_less)
  have mr: "unat (?wr * ?wb) = nat ?r * unat ?b" using nb ur ub(1) by (simp add: unat_word_ariths)
  show ?thesis
  proof (cases "nat ?d * 10000 < 2 ^ 64")
    case True
    then have "\<not> ?wd > (- 1) div 10000" using le_max_div[of 10000 ?wd] ud by (simp add: not_less)
    moreover have "unat (?wd * 10000) = nat ?d * 10000" using True ud by (simp add: unat_word_ariths)
    ultimately show ?thesis unfolding cc out using wr mr by (simp add: word_less_nat_alt)
  next
    case False
    then have "?wd > (- 1) div 10000" using le_max_div[of 10000 ?wd] ud by (simp add: not_less not_le)
    moreover have "nat ?d * 10000 > nat ?r * unat ?b" using False nb by linarith
    ultimately show ?thesis unfolding cc out by simp
  qed
qed

section \<open>The rate limiter\<close>

text \<open>The times, among those at which messages arrive, at which one is admitted.\<close>

fun admitted :: "AccountState \<Rightarrow> Nanos list \<Rightarrow> Nanos list" where
  "admitted s [] = []"
| "admitted s (t # ts) = (case consume_rate_budget s t of
     (ok, s') \<Rightarrow> if ok then t # admitted s' ts else admitted s' ts)"

lemma consume_limits: "consume_rate_budget s t = (ok, s') \<Longrightarrow> as_limits s' = as_limits s"
  by (auto simp: consume_rate_budget_def Let_def split: if_splits)

lemma consume_admits:
  assumes "al_max_messages_per_second (as_limits s) \<noteq> 0" and "consume_rate_budget s t = (True, s')"
  shows "t + rate_tolerance (as_limits s) \<ge> as_theoretical_arrival s"
    and "as_theoretical_arrival s' \<ge> t + rate_interval (as_limits s)"
    and "as_theoretical_arrival s' \<ge> as_theoretical_arrival s + rate_interval (as_limits s)"
  using assms by (auto simp: consume_rate_budget_def Let_def split: if_splits)

lemma consume_refuses: "consume_rate_budget s t = (False, s') \<Longrightarrow> s' = s"
  by (auto simp: consume_rate_budget_def Let_def split: if_splits)

lemma admitted_after:
  assumes "al_max_messages_per_second (as_limits s) \<noteq> 0" and "j < length (admitted s ts)"
  shows "admitted s ts ! j + rate_tolerance (as_limits s) \<ge> as_theoretical_arrival s + int j * rate_interval (as_limits s)"
  using assms
proof (induction s ts arbitrary: j rule: admitted.induct)
  case (2 s t ts)
  obtain ok s' where c: "consume_rate_budget s t = (ok, s')" by (cases "consume_rate_budget s t")
  have lim: "as_limits s' = as_limits s" by (rule consume_limits[OF c])
  show ?case
  proof (cases ok)
    case True
    have ct: "consume_rate_budget s t = (True, s')" using c True by simp
    note ad = consume_admits[OF "2.prems"(1) ct]
    show ?thesis
    proof (cases j)
      case 0
      then show ?thesis using ad c True by simp
    next
      case (Suc i)
      then have "i < length (admitted s' ts)" using "2.prems"(2) c True by simp
      from "2.IH"(1)[OF c[symmetric] True] this lim "2.prems"(1)
      have "admitted s' ts ! i + rate_tolerance (as_limits s) \<ge> as_theoretical_arrival s' + int i * rate_interval (as_limits s)" by simp
      then show ?thesis using ad(3) c True Suc by (simp add: algebra_simps)
    qed
  next
    case False
    then show ?thesis using "2.IH"(2)[OF c[symmetric] False] "2.prems" c consume_refuses[of s t s'] by simp
  qed
qed simp

lemma admitted_spaced:
  assumes "al_max_messages_per_second (as_limits s) \<noteq> 0" and "i < j" "j < length (admitted s ts)"
  shows "int (j - i) * rate_interval (as_limits s) \<le> admitted s ts ! j - admitted s ts ! i + rate_tolerance (as_limits s)"
  using assms
proof (induction s ts arbitrary: i j rule: admitted.induct)
  case (2 s t ts)
  obtain ok s' where c: "consume_rate_budget s t = (ok, s')" by (cases "consume_rate_budget s t")
  have lim: "as_limits s' = as_limits s" by (rule consume_limits[OF c])
  show ?case
  proof (cases ok)
    case True
    obtain k where k: "j = Suc k" using "2.prems"(2) by (cases j) auto
    have kl: "k < length (admitted s' ts)" using "2.prems"(3) c True k by simp
    have ct: "consume_rate_budget s t = (True, s')" using c True by simp
    note ad = consume_admits[OF "2.prems"(1) ct]
    show ?thesis
    proof (cases i)
      case 0
      have "admitted s' ts ! k + rate_tolerance (as_limits s) \<ge> as_theoretical_arrival s' + int k * rate_interval (as_limits s)"
        using admitted_after[of s' k ts] lim kl "2.prems"(1) by simp
      then show ?thesis using ad(2) c True k 0 by (simp add: algebra_simps)
    next
      case (Suc m)
      then show ?thesis using "2.IH"(1)[OF c[symmetric] True, of m k] "2.prems" lim kl k c True by simp
    qed
  next
    case False
    then show ?thesis using "2.IH"(2)[OF c[symmetric] False] "2.prems" c consume_refuses[of s t s'] by simp
  qed
qed simp

section \<open>Positions\<close>

lemma apply_fill_other: "a \<noteq> b \<Longrightarrow> exposure (apply_fill f a side e) b i = exposure e b i"
  by (simp add: apply_fill_def exposure_def set_state_def split: option.splits)

lemma apply_fill_self:
  "re_accounts e a \<noteq> None \<Longrightarrow> exposure (apply_fill f a side e) a (fill_instrument f) =
     fill_exposure side (fill_quantity f) (exposure e a (fill_instrument f))"
  by (auto simp: apply_fill_def exposure_def set_state_def set_exposure_def exposure_for_def split: option.splits)

lemma apply_fill_known: "re_accounts (apply_fill f a side e) b \<noteq> None \<longleftrightarrow> re_accounts e b \<noteq> None"
  by (auto simp: apply_fill_def set_state_def split: option.splits)

text \<open>What one side buys the other sells.\<close>

lemma fill_zero_sum:
  assumes "re_accounts e a \<noteq> None" and "re_accounts e r \<noteq> None" and "a \<noteq> r"
    and "a = fill_aggressor_account f" and "r = fill_resting_account f"
  shows "ex_net_position (exposure (on_fill f e) a (fill_instrument f)) + ex_net_position (exposure (on_fill f e) r (fill_instrument f)) =
     ex_net_position (exposure e a (fill_instrument f)) + ex_net_position (exposure e r (fill_instrument f))"
proof -
  let ?s = "fill_aggressor_side f" and ?i = "fill_instrument f"
  let ?e1 = "apply_fill f a ?s e"
  have "exposure (on_fill f e) a ?i = fill_exposure ?s (fill_quantity f) (exposure e a ?i)"
    using apply_fill_other[of r a f "opposite ?s" ?e1 ?i] apply_fill_self[of e a f ?s] assms by (simp add: on_fill_def)
  moreover have "exposure (on_fill f e) r ?i = fill_exposure (opposite ?s) (fill_quantity f) (exposure e r ?i)"
    using apply_fill_self[of ?e1 r f "opposite ?s"] apply_fill_known[of f a ?s e r] apply_fill_other[of a r f ?s e ?i] assms
    by (simp add: on_fill_def)
  ultimately show ?thesis by (cases ?s) (simp_all add: fill_exposure_def)
qed

text \<open>The position check, when the sums it forms fit 64-bit signed integers.\<close>

lemma sint_add:
  fixes a b :: u64
  assumes "- (2 ^ 63) \<le> sint a + int (unat b)" and "sint a + int (unat b) < 2 ^ 63"
  shows "sint (a + b) = sint a + int (unat b)"
proof -
  have "a + b = word_of_int (sint a + int (unat b))" by simp
  then have "sint (a + b) = signed_take_bit 63 (sint a + int (unat b))" by (simp only: signed_of_int) simp
  then show ?thesis using assms by (simp add: signed_take_bit_int_eq_self)
qed

lemma sint_diff:
  fixes a b :: u64
  assumes "- (2 ^ 63) \<le> int (unat b) - sint a" and "int (unat b) - sint a < 2 ^ 63"
  shows "sint (b - a) = int (unat b) - sint a"
proof -
  have "b - a = word_of_int (int (unat b) - sint a)" by simp
  then have "sint (b - a) = signed_take_bit 63 (int (unat b) - sint a)" by (simp only: signed_of_int) simp
  then show ?thesis using assms by (simp add: signed_take_bit_int_eq_self)
qed

text \<open>What an account could hold if everything working, the new order included, were to fill.\<close>

definition could_hold :: "Exposure \<Rightarrow> NewOrder \<Rightarrow> int \<times> int" where
  "could_hold x c =
     (sint (ex_net_position x) + int (unat (ex_working_buy x)) + (if no_side c = Buy then int (unat (no_quantity c)) else 0),
      int (unat (ex_working_sell x)) + (if no_side c = Sell then int (unat (no_quantity c)) else 0) - sint (ex_net_position x))"

definition moderate :: "Exposure \<Rightarrow> NewOrder \<Rightarrow> bool" where
  "moderate x c \<longleftrightarrow> \<bar>sint (ex_net_position x)\<bar> < 2 ^ 62 \<and> unat (ex_working_buy x) + unat (no_quantity c) < 2 ^ 62 \<and>
     unat (ex_working_sell x) + unat (no_quantity c) < 2 ^ 62"

lemma position_exact:
  assumes small: "moderate (exposure_for s (no_instrument c)) c" and cap: "unat (al_max_position (as_limits s)) < 2 ^ 63"
  shows "position_breach s c \<longleftrightarrow>
    fst (could_hold (exposure_for s (no_instrument c)) c) > int (unat (al_max_position (as_limits s))) \<or>
    snd (could_hold (exposure_for s (no_instrument c)) c) > int (unat (al_max_position (as_limits s)))"
proof -
  let ?x = "exposure_for s (no_instrument c)" and ?m = "al_max_position (as_limits s)"
  let ?n = "ex_net_position ?x" and ?q = "no_quantity c"
  have ne: "?m \<noteq> - 1" using cap by (auto simp: unsigned_minus_1_eq_mask mask_eq_exp_minus_1)
  have lift: "int k < 2 ^ n" if "k < 2 ^ n" for k n using that by (metis of_nat_less_numeral_power_cancel_iff)
  have nn: "0 \<le> int (unat v)" for v :: u64 by (rule of_nat_0_le_iff)
  have "sint (0 + ?m) = sint (0 :: u64) + int (unat ?m)"
    by (rule sint_add) (use lift[OF cap] nn[of ?m] in \<open>simp_all del: of_nat_unat\<close>)
  then have capi: "sint ?m = int (unat ?m)" by simp
  let ?wb = "ex_working_buy ?x + (if no_side c = Buy then ?q else 0)" and ?ws = "ex_working_sell ?x + (if no_side c = Sell then ?q else 0)"
  have w: "unat ?wb = unat (ex_working_buy ?x) + (if no_side c = Buy then unat ?q else 0)"
    "unat ?ws = unat (ex_working_sell ?x) + (if no_side c = Sell then unat ?q else 0)"
    using small by (auto simp: moderate_def unat_word_ariths)
  have bnd: "unat ?wb < 2 ^ 62" "unat ?ws < 2 ^ 62" "\<bar>sint ?n\<bar> < 2 ^ 62" using small w by (auto simp: moderate_def)
  have sums: "sint (?n + ?wb) = sint ?n + int (unat ?wb)" "sint (?ws - ?n) = int (unat ?ws) - sint ?n"
    using lift[OF bnd(1)] lift[OF bnd(2)] bnd(3) nn[of ?wb] nn[of ?ws] by (auto intro!: sint_add sint_diff simp del: of_nat_unat)
  have "position_breach s c \<longleftrightarrow> sint (?n + ?wb) > sint ?m \<or> sint (?ws - ?n) > sint ?m"
    using ne by (cases "no_side c") (simp_all add: position_breach_def projected_long_def projected_short_def Let_def exposure_for_def)
  then show ?thesis unfolding sums capi w by (simp add: could_hold_def add.assoc)
qed

end
