(* ===== verification/Matching_Engine.thy ===== *)
theory Matching_Engine
  imports Book_Machine Journal_Reader Kill_Switch Risk_Engine
begin

text \<open>
  The matching engine (\<open>include/xc/core/matching_engine.hpp\<close>, \<open>src/core/matching_engine.cpp\<close>): it routes
  commands to the books, numbers and journals them, and keeps risk and the kill switch informed.
  The clock is read once per command, so the time is an argument; \<open>env\<close> is the operating system
  under the journal.  Listeners are named by numbers, and what the engine tells them is the list
  \<open>eng_events\<close> of calls in the order they are made.
\<close>

section \<open>State\<close>

datatype EngineEvent =
    OrderAccepted SeqNum Order
  | OrderRejected SeqNum NewOrder RejectReason
  | OrderCancelled SeqNum Order
  | OrderReplaced SeqNum Order Order
  | FillsReported SeqNum "Fill list"

record Engine =
  eng_journal :: "(JournalWriter \<times> Disk) option"
  eng_risk :: "RiskEngine option"
  eng_kill :: "KillSwitch option"
  eng_books :: "InstrumentId \<rightharpoonup> OrderBook"
  eng_symbols :: "string \<rightharpoonup> InstrumentId"
  eng_instrument_order :: "InstrumentId list"
  eng_scratch_record :: Record
  eng_listeners :: "nat list"
  eng_events :: "(nat \<times> EngineEvent) list"
  eng_fills :: "Fill list"
  eng_withdrawals :: "Withdrawal list"
  eng_sequence :: SeqNum

definition MatchingEngine_new :: Engine where
  "MatchingEngine_new = \<lparr>eng_journal = None, eng_risk = None, eng_kill = None, eng_books = Map.empty,
     eng_symbols = Map.empty, eng_instrument_order = [], eng_scratch_record = Record_default,
     eng_listeners = [], eng_events = [], eng_fills = [], eng_withdrawals = [], eng_sequence = 0\<rparr>"

type_synonym SubmitOutcome = "SubmitResult \<times> SeqNum"
type_synonym CancelOutcome = "CancelResult \<times> SeqNum"
type_synonym ReplaceOutcome = "ReplaceResult \<times> SeqNum"

section \<open>Wiring\<close>

definition set_risk_engine :: "RiskEngine option \<Rightarrow> Engine \<Rightarrow> Engine" where
  "set_risk_engine risk e = e\<lparr>eng_risk := risk\<rparr>"

definition set_kill_switch :: "KillSwitch option \<Rightarrow> Engine \<Rightarrow> Engine" where
  "set_kill_switch kill e = e\<lparr>eng_kill := kill\<rparr>"

definition set_journal :: "(JournalWriter \<times> Disk) option \<Rightarrow> Engine \<Rightarrow> Engine" where
  "set_journal journal e = e\<lparr>eng_journal := journal\<rparr>"

definition add_listener :: "nat option \<Rightarrow> Engine \<Rightarrow> Engine" where
  "add_listener listener e = (case listener of None \<Rightarrow> e | Some l \<Rightarrow> e\<lparr>eng_listeners := eng_listeners e @ [l]\<rparr>)"

definition restore_sequence :: "SeqNum \<Rightarrow> Engine \<Rightarrow> Engine" where
  "restore_sequence last_assigned e = e\<lparr>eng_sequence := last_assigned\<rparr>"

definition next_sequence :: "Engine \<Rightarrow> SeqNum \<times> Engine" where
  "next_sequence e = (let n = eng_sequence e + 1 in (n, e\<lparr>eng_sequence := n\<rparr>))"

definition find_instrument :: "Engine \<Rightarrow> InstrumentId \<Rightarrow> Instrument option" where
  "find_instrument e iid = map_option bk_instrument (eng_books e iid)"

definition find_symbol :: "Engine \<Rightarrow> string \<Rightarrow> Instrument option" where
  "find_symbol e symbol = (case eng_symbols e symbol of None \<Rightarrow> None | Some iid \<Rightarrow> find_instrument e iid)"

definition book_for :: "Engine \<Rightarrow> InstrumentId \<Rightarrow> OrderBook option" where
  "book_for e iid = eng_books e iid"

definition set_book :: "InstrumentId \<Rightarrow> OrderBook \<Rightarrow> Engine \<Rightarrow> Engine" where
  "set_book iid b e = e\<lparr>eng_books := (eng_books e)(iid \<mapsto> b)\<rparr>"

text \<open>Each listener in turn receives the calls of one command.\<close>

definition notify :: "EngineEvent list \<Rightarrow> Engine \<Rightarrow> Engine" where
  "notify evs e = e\<lparr>eng_events := eng_events e @ concat (map (\<lambda>l. map (Pair l) evs) (eng_listeners e))\<rparr>"

definition with_risk :: "(RiskEngine \<Rightarrow> RiskEngine) \<Rightarrow> Engine \<Rightarrow> Engine" where
  "with_risk f e = e\<lparr>eng_risk := map_option f (eng_risk e)\<rparr>"

definition with_kill :: "(KillSwitch \<Rightarrow> KillSwitch) \<Rightarrow> Engine \<Rightarrow> Engine" where
  "with_kill f e = e\<lparr>eng_kill := map_option f (eng_kill e)\<rparr>"

section \<open>Settling and journaling\<close>

definition settle_fill :: "Fill \<Rightarrow> RiskEngine \<Rightarrow> RiskEngine" where
  "settle_fill f r =
     (let r1 = on_fill f r in if fill_resting_filled f then on_order_closed (fill_resting_account f) r1 else r1)"

definition settle_withdrawal :: "Withdrawal \<Rightarrow> RiskEngine \<Rightarrow> RiskEngine" where
  "settle_withdrawal w r =
     (let r1 = on_working_released (wd_account w) (wd_instrument w) (wd_side w) (wd_quantity w) r
      in if wd_fully_removed w then on_order_closed (wd_account w) r1 else r1)"

definition settle_risk :: "InstrumentId \<Rightarrow> Engine \<Rightarrow> Engine" where
  "settle_risk instrument e = with_risk (\<lambda>r.
     let r1 = fold settle_fill (eng_fills e) r;
         r2 = fold settle_withdrawal (eng_withdrawals e) r1
     in if eng_fills e \<noteq> [] then set_reference_price instrument (fill_price (last (eng_fills e))) r2 else r2) e"

definition journal_command :: "Env \<Rightarrow> Record \<Rightarrow> Nanos \<Rightarrow> Engine \<Rightarrow> (bool \<times> Engine) option" where
  "journal_command env record now e = (case eng_journal e of
       None \<Rightarrow> Some (True, e)
     | Some (w, d) \<Rightarrow> do {
         (ok, w', d') \<leftarrow> jw_append env record now w d;
         let e' = e\<lparr>eng_journal := Some (w', d')\<rparr>;
         if ok then Some (True, e') else Some (False, with_kill (halt_venue RiskBreach now) e')
       })"

definition add_instrument :: "Env \<Rightarrow> Instrument \<Rightarrow> Nanos \<Rightarrow> Engine \<Rightarrow> (bool \<times> Engine) option" where
  "add_instrument env instrument now e =
     (if \<not> id_valid (ins_id instrument) \<or> ins_symbol instrument = [] then Some (False, e)
      else if eng_books e (ins_id instrument) \<noteq> None \<or> eng_symbols e (ins_symbol instrument) \<noteq> None then Some (False, e)
      else do {
        let (sequence, e1) = next_sequence e;
        (ok, e2) \<leftarrow> (case eng_journal e1 of
            None \<Rightarrow> Some (True, e1)
          | Some (w, d) \<Rightarrow> do {
              let record = Record_default\<lparr>rec_type := InstrumentDefined, rec_sequence := sequence,
                rec_timestamp := now, rec_instrument := instrument\<rparr>;
              (ok, w', d') \<leftarrow> jw_append env record now w d;
              Some (ok, e1\<lparr>eng_journal := Some (w', d')\<rparr>)
            });
        if \<not> ok then Some (False, e2)
        else do {
          b \<leftarrow> OrderBook_new instrument (ins_expected_resting_orders instrument);
          Some (True, e2\<lparr>eng_symbols := (eng_symbols e2)(ins_symbol instrument \<mapsto> ins_id instrument),
            eng_books := (eng_books e2)(ins_id instrument \<mapsto> b),
            eng_instrument_order := sort (eng_instrument_order e2 @ [ins_id instrument])\<rparr>)
        }
      })"

section \<open>Submitting\<close>

definition reject_submit :: "NewOrder \<Rightarrow> RejectReason \<Rightarrow> SeqNum \<Rightarrow> Engine \<Rightarrow> SubmitOutcome \<times> Engine" where
  "reject_submit command reason sequence e =
     ((SubmitResult_default\<lparr>sr_reject := reason\<rparr>, sequence), notify [OrderRejected sequence command reason] e)"

definition order_of :: "NewOrder \<Rightarrow> SeqNum \<Rightarrow> Nanos \<Rightarrow> Order" where
  "order_of command sequence now = \<lparr>ord_id = no_id command, ord_account = no_account command,
     ord_instrument = no_instrument command, ord_price = no_price command, ord_quantity = no_quantity command,
     ord_remaining = no_quantity command, ord_side = no_side command, ord_type = no_type command,
     ord_tif = no_tif command, ord_accepted_at = now, ord_sequence = sequence, ord_post_only = no_post_only command\<rparr>"

text \<open>From the book onward: the command is numbered and journaled.\<close>

definition submit_to_book ::
    "NewOrder \<Rightarrow> SeqNum \<Rightarrow> Nanos \<Rightarrow> OrderBook \<Rightarrow> Engine \<Rightarrow> (SubmitOutcome \<times> Engine) option" where
  "submit_to_book command sequence now target e = do {
     let order = order_of command sequence now;
     (result, (fills, withdrawals), b) \<leftarrow> submit target order (eng_fills e, Some (eng_withdrawals e));
     let e1 = (set_book (no_instrument command) b e)\<lparr>eng_fills := fills,
       eng_withdrawals := (case withdrawals of None \<Rightarrow> eng_withdrawals e | Some ws \<Rightarrow> ws)\<rparr>;
     if \<not> sr_accepted result
     then Some ((result, sequence), notify [OrderRejected sequence command (sr_reject result)]
       (with_kill (record_reject (no_account command) now) e1))
     else do {
       let e2 = settle_risk (no_instrument command) (with_kill (record_accept (no_account command)) e1);
       e3 \<leftarrow> (if eng_risk e2 \<noteq> None \<and> sr_rested result then do {
           rested \<leftarrow> find_order b (no_id command);
           Some (case rested of None \<Rightarrow> e2 | Some ord \<Rightarrow> with_risk (on_order_rested ord) e2)
         } else Some e2);
       Some ((result, sequence), notify ([OrderAccepted sequence order] @
         (if eng_fills e3 \<noteq> [] then [FillsReported sequence (eng_fills e3)] else [])) e3)
     }
   }"

definition engine_submit :: "Env \<Rightarrow> NewOrder \<Rightarrow> Nanos \<Rightarrow> Engine \<Rightarrow> (SubmitOutcome \<times> Engine) option" where
  "engine_submit env command now e0 = do {
     let e = e0\<lparr>eng_fills := [], eng_withdrawals := []\<rparr>;
     (case book_for e (no_instrument command) of
        None \<Rightarrow> Some (reject_submit command UnknownInstrument 0 e)
      | Some target \<Rightarrow>
          if \<not> id_valid (no_account command) then Some (reject_submit command UnknownOrder 0 e)
          else if (case eng_kill e of None \<Rightarrow> False | Some k \<Rightarrow> blocks_new_orders k (no_account command))
          then Some (reject_submit command Halted 0 e)
          else do {
            let (reason, e1) = (case eng_risk e of
                None \<Rightarrow> (RejectNone, e)
              | Some r \<Rightarrow> (case check command (bk_instrument target) now r of
                    (reason, r') \<Rightarrow> (reason, e\<lparr>eng_risk := Some r'\<rparr>)));
            if reason \<noteq> RejectNone
            then Some (reject_submit command reason 0 (with_kill (record_reject (no_account command) now) e1))
            else do {
              let (sequence, e2) = next_sequence e1;
              let record = (eng_scratch_record e2)\<lparr>rec_type := NewOrderRecord, rec_sequence := sequence,
                rec_timestamp := now, rec_new_order := command\<rparr>;
              (ok, e3) \<leftarrow> journal_command env record now (e2\<lparr>eng_scratch_record := record\<rparr>);
              if \<not> ok then Some (reject_submit command Halted sequence e3)
              else submit_to_book command sequence now target e3
            }
          })
   }"

section \<open>Cancelling\<close>

definition engine_cancel :: "Env \<Rightarrow> CancelOrder \<Rightarrow> Nanos \<Rightarrow> Engine \<Rightarrow> (CancelOutcome \<times> Engine) option" where
  "engine_cancel env command now e0 = do {
     let e = e0\<lparr>eng_fills := [], eng_withdrawals := []\<rparr>;
     (case book_for e (co_instrument command) of
        None \<Rightarrow> Some ((CancelResult_default\<lparr>cr_reject := UnknownInstrument\<rparr>, 0), e)
      | Some target \<Rightarrow> do {
          resting \<leftarrow> find_order target (co_id command);
          if (case resting of None \<Rightarrow> True | Some ord \<Rightarrow> ord_account ord \<noteq> co_account command)
          then Some ((CancelResult_default\<lparr>cr_reject := UnknownOrder\<rparr>, 0), e)
          else do {
            let (sequence, e1) = next_sequence e;
            let record = (eng_scratch_record e1)\<lparr>rec_type := CancelOrderRecord, rec_sequence := sequence,
              rec_timestamp := now, rec_cancel_order := command\<rparr>;
            (ok, e2) \<leftarrow> journal_command env record now (e1\<lparr>eng_scratch_record := record\<rparr>);
            if \<not> ok then Some ((CancelResult_default\<lparr>cr_reject := Halted\<rparr>, sequence), e2)
            else do {
              (result, b) \<leftarrow> cancel target (co_id command);
              let e3 = set_book (co_instrument command) b e2;
              if cr_accepted result then
                let ord = cr_order result;
                    e4 = with_risk (\<lambda>r. on_order_closed (ord_account ord)
                      (on_working_released (ord_account ord) (co_instrument command) (ord_side ord) (ord_remaining ord) r)) e3
                in Some ((result, sequence), notify [OrderCancelled sequence ord] e4)
              else Some ((result, sequence), e3)
            }
          }
        })
   }"

section \<open>Replacing\<close>

text \<open>From the book onward.\<close>

definition replace_in_book ::
    "ReplaceOrder \<Rightarrow> SeqNum \<Rightarrow> Nanos \<Rightarrow> Order \<Rightarrow> OrderBook \<Rightarrow> Engine \<Rightarrow> (ReplaceOutcome \<times> Engine) option" where
  "replace_in_book command sequence now previous_state target e = do {
     let e1 = with_risk (\<lambda>r. on_order_closed (ord_account previous_state)
       (on_working_released (ord_account previous_state) (ro_instrument command) (ord_side previous_state)
         (ord_remaining previous_state) r)) e;
     (result, (fills, withdrawals), b) \<leftarrow> replace target (ro_id command) (ro_new_price command)
       (ro_new_quantity command) sequence now (eng_fills e1, Some (eng_withdrawals e1));
     let e2 = (set_book (ro_instrument command) b e1)\<lparr>eng_fills := fills,
       eng_withdrawals := (case withdrawals of None \<Rightarrow> eng_withdrawals e1 | Some ws \<Rightarrow> ws)\<rparr>;
     if \<not> rr_accepted result then Some ((result, sequence), with_risk (on_order_rested previous_state) e2)
     else do {
       let e3 = settle_risk (ro_instrument command) e2;
       amended \<leftarrow> find_order b (ro_id command);
       let e4 = (case amended of None \<Rightarrow> e3 | Some ord \<Rightarrow> with_risk (on_order_rested ord) e3);
       Some ((result, sequence), notify ([case amended of
           Some ord \<Rightarrow> OrderReplaced sequence (rr_previous result) ord
         | None \<Rightarrow> OrderCancelled sequence (rr_previous result)] @
         (if eng_fills e4 \<noteq> [] then [FillsReported sequence (eng_fills e4)] else [])) e4)
     }
   }"

definition engine_replace :: "Env \<Rightarrow> ReplaceOrder \<Rightarrow> Nanos \<Rightarrow> Engine \<Rightarrow> (ReplaceOutcome \<times> Engine) option" where
  "engine_replace env command now e0 = do {
     let e = e0\<lparr>eng_fills := [], eng_withdrawals := []\<rparr>;
     (case book_for e (ro_instrument command) of
        None \<Rightarrow> Some ((ReplaceResult_default\<lparr>rr_reject := UnknownInstrument\<rparr>, 0), e)
      | Some target \<Rightarrow> do {
          resting \<leftarrow> find_order target (ro_id command);
          (case resting of
             None \<Rightarrow> Some ((ReplaceResult_default\<lparr>rr_reject := UnknownOrder\<rparr>, 0), e)
           | Some previous_state \<Rightarrow>
               if ord_account previous_state \<noteq> ro_account command
               then Some ((ReplaceResult_default\<lparr>rr_reject := UnknownOrder\<rparr>, 0), e)
               else do {
                 let (sequence, e1) = next_sequence e;
                 let record = (eng_scratch_record e1)\<lparr>rec_type := ReplaceOrderRecord, rec_sequence := sequence,
                   rec_timestamp := now, rec_replace_order := command\<rparr>;
                 (ok, e2) \<leftarrow> journal_command env record now (e1\<lparr>eng_scratch_record := record\<rparr>);
                 if \<not> ok then Some ((ReplaceResult_default\<lparr>rr_reject := Halted\<rparr>, sequence), e2)
                 else replace_in_book command sequence now previous_state target e2
               })
        })
   }"

end
