(* ===== verification/State_Digest.thy ===== *)
theory State_Digest
  imports Matching_Engine
begin

text \<open>
  The state fingerprint: the byte-fed hash of \<open>include/xc/util/digest.hpp\<close> and the walk over books and
  engine of \<open>src/core/state_digest.cpp\<close>.
\<close>

unbundle bit_operations_syntax

section \<open>The hash\<close>

definition kOffsetBasis :: u64 where
  "kOffsetBasis = 1469598103934665603"

definition kPrime :: u64 where
  "kPrime = 1099511628211"

definition feed_byte :: "u8 \<Rightarrow> u64 \<Rightarrow> u64" where
  "feed_byte byte state = (state XOR ucast byte) * kPrime"

definition feed_u64 :: "u64 \<Rightarrow> u64 \<Rightarrow> u64" where
  "feed_u64 value state =
     fold (\<lambda>i. feed_byte (ucast (drop_bit (8 * i) value AND 0xFF))) [0..<8] state"

definition feed_i64 :: "int \<Rightarrow> u64 \<Rightarrow> u64" where
  "feed_i64 value = feed_u64 (word_of_int value)"

definition feed_u32 :: "u32 \<Rightarrow> u64 \<Rightarrow> u64" where
  "feed_u32 value = feed_u64 (ucast value)"

definition feed_bool :: "bool \<Rightarrow> u64 \<Rightarrow> u64" where
  "feed_bool value = feed_byte (if value then 1 else 0)"

definition feed_text :: "string \<Rightarrow> u64 \<Rightarrow> u64" where
  "feed_text text state = fold (\<lambda>c. feed_byte (of_char c)) text (feed_u64 (of_nat (length text)) state)"

section \<open>Books and the engine\<close>

definition feed_order :: "Order \<Rightarrow> u64 \<Rightarrow> u64" where
  "feed_order ord s0 = (
     let s1 = feed_u64 (ord_id ord) s0;
         s2 = feed_u64 (ord_account ord) s1;
         s3 = feed_byte (side_byte (ord_side ord)) s2;
         s4 = feed_byte (type_byte (ord_type ord)) s3;
         s5 = feed_byte (tif_byte (ord_tif ord)) s4;
         s6 = feed_i64 (ord_price ord) s5;
         s7 = feed_u64 (ord_quantity ord) s6;
         s8 = feed_u64 (ord_remaining ord) s7
     in feed_u64 (ord_sequence ord) s8)"

definition feed_book :: "OrderBook \<Rightarrow> u64 \<Rightarrow> u64 option" where
  "feed_book b s = do {
     orders \<leftarrow> resting_orders b;
     Some (fold feed_order orders
       (feed_u64 (of_nat (resting_order_count b)) (feed_u64 (ins_id (bk_instrument b)) s)))
   }"

definition digest_book :: "OrderBook \<Rightarrow> u64 option" where
  "digest_book b = feed_book b kOffsetBasis"

fun feed_books :: "(InstrumentId \<rightharpoonup> OrderBook) \<Rightarrow> InstrumentId list \<Rightarrow> u64 \<Rightarrow> u64 option" where
  "feed_books books [] s = Some s"
| "feed_books books (iid # ids) s = (case books iid of
       None \<Rightarrow> feed_books books ids s
     | Some b \<Rightarrow> do { s' \<leftarrow> feed_book b s; feed_books books ids s' })"

definition digest_engine :: "Engine \<Rightarrow> u64 option" where
  "digest_engine e = feed_books (eng_books e) (eng_instrument_order e) (feed_u64 (eng_sequence e) kOffsetBasis)"

end
