(* ===== verification/Replayer.thy ===== *)
theory Replayer
  imports State_Digest
begin

text \<open>
  Replay of a journal (\<open>include/xc/journal/replayer.hpp\<close>, \<open>src/journal/replayer.cpp\<close>) with the manual
  clock of \<open>include/xc/core/clock.hpp\<close>.
\<close>

section \<open>The manual clock\<close>

record ManualClock =
  clk_now :: Nanos

definition ManualClock_new :: "Nanos \<Rightarrow> ManualClock" where
  "ManualClock_new start = \<lparr>clk_now = start\<rparr>"

definition clk_set :: "Nanos \<Rightarrow> ManualClock \<Rightarrow> ManualClock" where
  "clk_set v c = c\<lparr>clk_now := v\<rparr>"

definition clk_advance :: "Nanos \<Rightarrow> ManualClock \<Rightarrow> ManualClock" where
  "clk_advance delta c = c\<lparr>clk_now := clk_now c + delta\<rparr>"

section \<open>The replayer\<close>

record ReplayReport =
  rpl_recovery :: RecoveryReport
  rpl_instruments_defined :: u64
  rpl_orders_submitted :: u64
  rpl_cancels_applied :: u64
  rpl_replaces_applied :: u64
  rpl_state_digest :: u64

definition ReplayReport_default :: ReplayReport where
  "ReplayReport_default = \<lparr>rpl_recovery = RecoveryReport_default, rpl_instruments_defined = 0,
     rpl_orders_submitted = 0, rpl_cancels_applied = 0, rpl_replaces_applied = 0, rpl_state_digest = 0\<rparr>"

record Replayer =
  rpl_engine :: Engine
  rpl_clock :: ManualClock
  rpl_report :: ReplayReport

definition Replayer_new :: "Engine \<Rightarrow> ManualClock \<Rightarrow> Replayer" where
  "Replayer_new engine clock = \<lparr>rpl_engine = engine, rpl_clock = clock, rpl_report = ReplayReport_default\<rparr>"

definition apply_record :: "Env \<Rightarrow> Record \<Rightarrow> Replayer \<Rightarrow> Replayer option" where
  "apply_record env record r0 = do {
     let r = r0\<lparr>rpl_clock := clk_set (rec_timestamp record) (rpl_clock r0)\<rparr>;
     let now = clk_now (rpl_clock r);
     let e = restore_sequence (rec_sequence record - 1) (rpl_engine r);
     let report = rpl_report r;
     (case rec_type record of
        InstrumentDefined \<Rightarrow> do {
          (_, e') \<leftarrow> add_instrument env (rec_instrument record) now e;
          Some (r\<lparr>rpl_engine := e',
            rpl_report := report\<lparr>rpl_instruments_defined := rpl_instruments_defined report + 1\<rparr>\<rparr>)
        }
      | NewOrderRecord \<Rightarrow> do {
          (_, e') \<leftarrow> engine_submit env (rec_new_order record) now e;
          Some (r\<lparr>rpl_engine := e',
            rpl_report := report\<lparr>rpl_orders_submitted := rpl_orders_submitted report + 1\<rparr>\<rparr>)
        }
      | CancelOrderRecord \<Rightarrow> do {
          (_, e') \<leftarrow> engine_cancel env (rec_cancel_order record) now e;
          Some (r\<lparr>rpl_engine := e',
            rpl_report := report\<lparr>rpl_cancels_applied := rpl_cancels_applied report + 1\<rparr>\<rparr>)
        }
      | ReplaceOrderRecord \<Rightarrow> do {
          (_, e') \<leftarrow> engine_replace env (rec_replace_order record) now e;
          Some (r\<lparr>rpl_engine := e',
            rpl_report := report\<lparr>rpl_replaces_applied := rpl_replaces_applied report + 1\<rparr>\<rparr>)
        })
   }"

text \<open>The whole journal, from the first record; the visitor's state is None once a step went wrong.\<close>

definition replay :: "Env \<Rightarrow> (string \<Rightarrow> bool) \<Rightarrow> bool \<Rightarrow> Disk \<Rightarrow> Replayer \<Rightarrow> (ReplayReport \<times> Replayer) option" where
  "replay env opens is_directory d r = do {
     (visited, recovery) \<leftarrow> journal_read (\<lambda>record s. s \<bind> apply_record env record) opens is_directory d 1 (Some r);
     r1 \<leftarrow> visited;
     digest \<leftarrow> digest_engine (rpl_engine r1);
     let report = (rpl_report r1)\<lparr>rpl_recovery := recovery, rpl_state_digest := digest\<rparr>;
     Some (report, r1\<lparr>rpl_report := report\<rparr>)
   }"

end
