(* ===== verification/Engine_Replay.thy ===== *)
theory Engine_Replay
  imports Journal_Recovery Replayer
begin

text \<open>
  The engine against its journal.  Every command of a live engine, with whatever risk checks, kill
  switch and listeners it has, either leaves the books alone or appends one record and then does to
  the books what replaying that record does.  So the journal determines the state.
\<close>

section \<open>The state that replay rebuilds\<close>

definition core :: "Engine \<Rightarrow> (InstrumentId \<rightharpoonup> OrderBook) \<times> (string \<rightharpoonup> InstrumentId) \<times> InstrumentId list" where
  "core e = (eng_books e, eng_symbols e, eng_instrument_order e)"

text \<open>An engine with nothing attached, as the replayer drives it.\<close>

definition plain :: "Engine \<Rightarrow> bool" where
  "plain e \<longleftrightarrow> eng_journal e = None \<and> eng_risk e = None \<and> eng_kill e = None"

named_theorems engine_fields

lemma core_fields [engine_fields]:
  "core (with_risk f e) = core e" "core (with_kill g e) = core e" "core (notify evs e) = core e"
  "core (e\<lparr>eng_fills := fs\<rparr>) = core e" "core (e\<lparr>eng_withdrawals := ws\<rparr>) = core e" "core (e\<lparr>eng_sequence := n\<rparr>) = core e"
  "core (e\<lparr>eng_scratch_record := r\<rparr>) = core e" "core (e\<lparr>eng_journal := j\<rparr>) = core e" "core (e\<lparr>eng_risk := k\<rparr>) = core e"
  "core (settle_risk i e) = core e"
  "core (set_book i b e) = ((eng_books e)(i \<mapsto> b), eng_symbols e, eng_instrument_order e)"
  by (simp_all add: core_def with_risk_def with_kill_def notify_def settle_risk_def set_book_def)

lemma journal_fields [engine_fields]:
  "eng_journal (with_risk f e) = eng_journal e" "eng_journal (with_kill g e) = eng_journal e"
  "eng_journal (notify evs e) = eng_journal e" "eng_journal (settle_risk i e) = eng_journal e"
  "eng_journal (set_book i b e) = eng_journal e"
  by (simp_all add: with_risk_def with_kill_def notify_def settle_risk_def set_book_def)

lemma sequence_fields [engine_fields]:
  "eng_sequence (with_risk f e) = eng_sequence e" "eng_sequence (with_kill g e) = eng_sequence e"
  "eng_sequence (notify evs e) = eng_sequence e" "eng_sequence (settle_risk i e) = eng_sequence e"
  "eng_sequence (set_book i b e) = eng_sequence e"
  by (simp_all add: with_risk_def with_kill_def notify_def settle_risk_def set_book_def)

lemma output_fields [engine_fields]:
  "eng_fills (with_risk f e) = eng_fills e" "eng_fills (with_kill g e) = eng_fills e"
  "eng_withdrawals (with_risk f e) = eng_withdrawals e" "eng_withdrawals (with_kill g e) = eng_withdrawals e"
  "eng_fills (settle_risk i e) = eng_fills e"
  "eng_books (with_risk f e) = eng_books e" "eng_symbols (with_risk f e) = eng_symbols e"
  "eng_instrument_order (with_risk f e) = eng_instrument_order e"
  by (simp_all add: with_risk_def with_kill_def settle_risk_def)

lemma plain_fields [engine_fields]:
  "plain (with_risk f e) = plain e" "plain (with_kill g e) = plain e" "plain (notify evs e) = plain e"
  "plain (settle_risk i e) = plain e" "plain (set_book i b e) = plain e" "plain (e\<lparr>eng_fills := fs\<rparr>) = plain e"
  "plain (e\<lparr>eng_withdrawals := ws\<rparr>) = plain e" "plain (e\<lparr>eng_sequence := n\<rparr>) = plain e"
  "plain (e\<lparr>eng_scratch_record := r\<rparr>) = plain e"
  by (simp_all add: plain_def with_risk_def with_kill_def notify_def settle_risk_def set_book_def)

lemma core_eq: "core e = core f \<longleftrightarrow> eng_books e = eng_books f \<and> eng_symbols e = eng_symbols f \<and>
    eng_instrument_order e = eng_instrument_order f"
  by (simp add: core_def)

lemma set_book_core: "core e = core f \<Longrightarrow> core (set_book i b e) = core (set_book i b f)"
  by (simp add: core_def set_book_def)

section \<open>At the book\<close>

text \<open>What a submission does to the engine is what it does to the book.\<close>

lemma submit_to_book_core:
  assumes "submit_to_book c n now b e = Some (y, e')" "eng_fills e = []" "eng_withdrawals e = []"
  shows "\<exists>res out b'. submit b (order_of c n now) ([], Some []) = Some (res, out, b') \<and>
    core e' = core (set_book (no_instrument c) b' e) \<and> eng_journal e' = eng_journal e \<and> eng_sequence e' = eng_sequence e"
proof -
  obtain res fs ws b' where s: "submit b (order_of c n now) ([], Some []) = Some (res, (fs, ws), b')"
    using assms by (auto simp: submit_to_book_def Let_def bind_eq_Some_conv)
  have "core e' = core (set_book (no_instrument c) b' e) \<and> eng_journal e' = eng_journal e \<and> eng_sequence e' = eng_sequence e"
    using assms s by (auto simp: submit_to_book_def Let_def engine_fields bind_eq_Some_conv split: if_splits option.splits)
  then show ?thesis using s by blast
qed

lemma submit_to_book_plain:
  assumes "submit b (order_of c n now) ([], Some []) = Some (res, out, b')" "plain e" "eng_fills e = []" "eng_withdrawals e = []"
  shows "\<exists>y e'. submit_to_book c n now b e = Some (y, e') \<and> plain e' \<and> core e' = core (set_book (no_instrument c) b' e) \<and>
    eng_sequence e' = eng_sequence e"
proof -
  have "eng_risk (settle_risk i (with_kill k e1)) = None" if "plain e1" for i k e1
    using that by (simp add: plain_def settle_risk_def with_risk_def with_kill_def)
  then show ?thesis using assms
    by (cases out) (simp add: submit_to_book_def Let_def engine_fields)
qed

section \<open>One command\<close>

datatype EngineCommand =
    DefineInstrument Instrument
  | SubmitOrder NewOrder
  | CancelResting CancelOrder
  | AmendResting ReplaceOrder

definition engine_step :: "Env \<Rightarrow> EngineCommand \<Rightarrow> Nanos \<Rightarrow> Engine \<Rightarrow> Engine option" where
  "engine_step env c now e = (case c of
       DefineInstrument ins \<Rightarrow> map_option snd (add_instrument env ins now e)
     | SubmitOrder no \<Rightarrow> map_option snd (engine_submit env no now e)
     | CancelResting co \<Rightarrow> map_option snd (engine_cancel env co now e)
     | AmendResting ro \<Rightarrow> map_option snd (engine_replace env ro now e))"

text \<open>The commands a record can represent exactly.\<close>

fun command_fits :: "EngineCommand \<Rightarrow> bool" where
  "command_fits (DefineInstrument ins) \<longleftrightarrow> instrument_fits ins \<and> ins_expected_resting_orders ins = 4096"
| "command_fits (SubmitOrder no) \<longleftrightarrow> no_price no \<in> i64_range"
| "command_fits (CancelResting co) \<longleftrightarrow> True"
| "command_fits (AmendResting ro) \<longleftrightarrow> ro_new_price ro \<in> i64_range"

text \<open>Replaying \<open>r\<close> on an engine with the books of \<open>e\<close> gives the books of \<open>e'\<close>.\<close>

definition replays :: "Record \<Rightarrow> Engine \<Rightarrow> Engine \<Rightarrow> bool" where
  "replays r e e' \<longleftrightarrow> record_fits r \<and> rec_sequence r = eng_sequence e + 1 \<and> eng_sequence e' = eng_sequence e + 1 \<and>
     (\<forall>env q. plain (rpl_engine q) \<and> core (rpl_engine q) = core e \<longrightarrow>
       (\<exists>q'. apply_record env (carried r) q = Some q' \<and> plain (rpl_engine q') \<and> core (rpl_engine q') = core e' \<and>
         eng_sequence (rpl_engine q') = rec_sequence r))"

definition echoed :: "Env \<Rightarrow> Nanos \<Rightarrow> JournalWriter \<times> Disk \<Rightarrow> Engine \<Rightarrow> Engine \<Rightarrow> bool" where
  "echoed env now j e e' \<longleftrightarrow>
     core e' = core e \<and> eng_journal e' = Some j \<and> eng_sequence e' = eng_sequence e \<or>
     (\<exists>r w' d'. jw_append env r now (fst j) (snd j) = Some (True, w', d') \<and> eng_journal e' = Some (w', d') \<and> replays r e e') \<or>
     (\<exists>r w' d'. jw_append env r now (fst j) (snd j) = Some (False, w', d') \<and> eng_journal e' = Some (w', d'))"

lemma journal_command_cases:
  assumes "eng_journal e = Some j" "journal_command env r now e = Some (ok, e')"
  obtains w' d' where "jw_append env r now (fst j) (snd j) = Some (ok, w', d')" "eng_journal e' = Some (w', d')"
    "core e' = core e" "eng_sequence e' = eng_sequence e" "eng_fills e' = eng_fills e" "eng_withdrawals e' = eng_withdrawals e"
  using assms by (cases j) (auto simp: journal_command_def Let_def bind_eq_Some_conv engine_fields split: if_splits)

lemma journal_command_plain: "plain e \<Longrightarrow> journal_command env r now e = Some (True, e)"
  by (simp add: journal_command_def plain_def)

text \<open>The replayer on one record: the clock is set and the sequence number is the record's.\<close>

lemma restored [simp]: "core (restore_sequence n e) = core e" "plain (restore_sequence n e) = plain e"
  "eng_sequence (restore_sequence n e) = n" "eng_books (restore_sequence n e) = eng_books e"
  by (simp_all add: restore_sequence_def engine_fields)

lemma idle_echoed:
  "core e' = core e \<Longrightarrow> eng_journal e' = eng_journal e \<Longrightarrow> eng_sequence e' = eng_sequence e \<Longrightarrow> eng_journal e = Some j \<Longrightarrow>
   echoed env now j e e'"
  by (simp add: echoed_def)

lemma append_echoed:
  assumes "jw_append env r now (fst j) (snd j) = Some (ok, w', d')" "eng_journal e' = Some (w', d')" "ok \<Longrightarrow> replays r e e'"
  shows "echoed env now j e e'"
  using assms by (cases ok) (auto simp: echoed_def)

text \<open>The command in a record, and a record that changes one book.\<close>

definition command_of :: "Record \<Rightarrow> EngineCommand" where
  "command_of r = (case rec_type r of
       InstrumentDefined \<Rightarrow> DefineInstrument (rec_instrument r)
     | NewOrderRecord \<Rightarrow> SubmitOrder (rec_new_order r)
     | CancelOrderRecord \<Rightarrow> CancelResting (rec_cancel_order r)
     | ReplaceOrderRecord \<Rightarrow> AmendResting (rec_replace_order r))"

lemma apply_record_step:
  assumes "engine_step env (command_of (carried r)) (rec_timestamp r) (restore_sequence (rec_sequence r - 1) (rpl_engine q)) = Some f"
  shows "\<exists>q'. apply_record env (carried r) q = Some q' \<and> rpl_engine q' = f"
  using assms by (cases "rec_type r")
    (auto simp: apply_record_def carried_def command_of_def engine_step_def Let_def clk_set_def)

lemma carried_command: "command_fits (command_of r) \<Longrightarrow> command_of (carried r) = command_of r"
  by (cases "rec_type r") (auto simp: carried_def command_of_def Let_def)

lemma fits_command: "command_fits (command_of r) \<Longrightarrow> rec_timestamp r \<in> i64_range \<Longrightarrow> record_fits r"
  by (cases "rec_type r") (auto simp: record_fits_def command_of_def)

lemma replays_step:
  assumes "command_fits (command_of r)" "rec_timestamp r \<in> i64_range" "rec_sequence r = eng_sequence e + 1"
    "eng_sequence e' = eng_sequence e + 1"
    "\<And>env f. plain f \<Longrightarrow> core f = core e \<Longrightarrow> eng_sequence f = eng_sequence e \<Longrightarrow>
       \<exists>f'. engine_step env (command_of r) (rec_timestamp r) f = Some f' \<and> plain f' \<and> core f' = core e' \<and> eng_sequence f' = eng_sequence e + 1"
  shows "replays r e e'"
proof -
  have "\<exists>q'. apply_record env (carried r) q = Some q' \<and> plain (rpl_engine q') \<and> core (rpl_engine q') = core e' \<and>
      eng_sequence (rpl_engine q') = rec_sequence r" if q: "plain (rpl_engine q)" "core (rpl_engine q) = core e" for env q
  proof -
    let ?f = "restore_sequence (rec_sequence r - 1) (rpl_engine q)"
    obtain f' where f: "engine_step env (command_of r) (rec_timestamp r) ?f = Some f'" "plain f'" "core f' = core e'"
      "eng_sequence f' = eng_sequence e + 1" using assms(5)[of ?f env] q assms(3) by auto
    from f(1) obtain q' where "apply_record env (carried r) q = Some q' \<and> rpl_engine q' = f'"
      using apply_record_step[of env r q f'] carried_command[OF assms(1)] by auto
    then show ?thesis using f(2-4) assms(3) by auto
  qed
  then show ?thesis using assms(3,4) fits_command[OF assms(1,2)] by (simp add: replays_def)
qed

text \<open>A command past its checks: it is numbered and its record goes to the journal.\<close>

definition numbering :: "Env \<Rightarrow> Nanos \<Rightarrow> Record \<Rightarrow> Engine \<Rightarrow> Engine \<Rightarrow> bool \<Rightarrow> Engine \<Rightarrow> bool" where
  "numbering env now r e e1 ok e3 \<longleftrightarrow> core e1 = core e \<and> eng_journal e1 = eng_journal e \<and> eng_sequence e1 = eng_sequence e \<and>
     eng_fills e1 = [] \<and> eng_withdrawals e1 = [] \<and> rec_sequence r = eng_sequence e + 1 \<and> rec_timestamp r = now \<and>
     journal_command env r now (e1\<lparr>eng_sequence := eng_sequence e + 1, eng_scratch_record := r\<rparr>) = Some (ok, e3)"

lemma numberingE:
  assumes "numbering env now r e e1 ok e3" "eng_journal e = Some j"
  obtains w' d' where "jw_append env r now (fst j) (snd j) = Some (ok, w', d')"
    "eng_journal e3 = Some (w', d')" "core e3 = core e" "eng_sequence e3 = eng_sequence e + 1" "eng_fills e3 = []" "eng_withdrawals e3 = []"
proof -
  from assms have "eng_journal (e1\<lparr>eng_sequence := eng_sequence e + 1, eng_scratch_record := r\<rparr>) = Some j"
    "journal_command env r now (e1\<lparr>eng_sequence := eng_sequence e + 1, eng_scratch_record := r\<rparr>) = Some (ok, e3)"
    by (simp_all add: numbering_def)
  then show ?thesis
    by (rule journal_command_cases) (use assms in \<open>auto simp: numbering_def engine_fields intro: that\<close>)
qed

lemma submit_plain:
  assumes "plain f" "eng_books f (no_instrument c) = Some b" "id_valid (no_account c)"
    "submit b (order_of c (eng_sequence f + 1) now) ([], Some []) = Some (res, out, b')"
  shows "\<exists>y f'. engine_submit env c now f = Some (y, f') \<and> plain f' \<and> core f' = core (set_book (no_instrument c) b' f) \<and>
    eng_sequence f' = eng_sequence f + 1"
proof -
  let ?n = "eng_sequence f + 1"
  let ?f = "\<lambda>r. f\<lparr>eng_fills := [], eng_withdrawals := [], eng_sequence := ?n, eng_scratch_record := r\<rparr>"
  have "\<exists>y f'. submit_to_book c ?n now b (?f r) = Some (y, f') \<and> plain f' \<and> core f' = core (set_book (no_instrument c) b' (?f r)) \<and>
      eng_sequence f' = eng_sequence (?f r)" for r
    by (rule submit_to_book_plain[OF assms(4)]) (use assms(1) in \<open>simp_all add: engine_fields\<close>)
  moreover have "core (set_book i x (?f r)) = core (set_book i x f)" for i x r by (simp add: core_def set_book_def)
  moreover have "engine_submit env c now f = do {
      (ok, e3) \<leftarrow> journal_command env r now (?f r);
      if \<not> ok then Some (reject_submit c Halted ?n e3) else submit_to_book c ?n now b e3 }"
    if "r = (eng_scratch_record f)\<lparr>rec_type := NewOrderRecord, rec_sequence := ?n, rec_timestamp := now, rec_new_order := c\<rparr>" for r
    using assms(1-3) that by (simp add: engine_submit_def Let_def plain_def book_for_def next_sequence_def cong: if_cong)
  moreover have "plain (?f r)" for r using assms(1) by (simp add: engine_fields)
  ultimately show ?thesis by (simp add: journal_command_plain)
qed

definition risk_gate :: "NewOrder \<Rightarrow> OrderBook \<Rightarrow> Nanos \<Rightarrow> Engine \<Rightarrow> RejectReason \<times> Engine" where
  "risk_gate c b now e = (case eng_risk e of None \<Rightarrow> (RejectNone, e)
     | Some r \<Rightarrow> (case check c (bk_instrument b) now r of (reason, r') \<Rightarrow> (reason, e\<lparr>eng_risk := Some r'\<rparr>)))"

definition kill_blocks :: "NewOrder \<Rightarrow> Engine \<Rightarrow> bool" where
  "kill_blocks c e = (case eng_kill e of None \<Rightarrow> False | Some k \<Rightarrow> blocks_new_orders k (no_account c))"

lemma risk_gate_fields:
  "risk_gate c b now e = (reason, e1) \<Longrightarrow> core e1 = core e \<and> eng_journal e1 = eng_journal e \<and> eng_sequence e1 = eng_sequence e \<and>
     eng_fills e1 = eng_fills e \<and> eng_withdrawals e1 = eng_withdrawals e \<and> eng_kill e1 = eng_kill e"
  by (auto simp: risk_gate_def engine_fields split: option.splits prod.splits)

lemma submit_run:
  assumes "eng_books e (no_instrument c) = Some b" "risk_gate c b now (e\<lparr>eng_fills := [], eng_withdrawals := []\<rparr>) = (reason, e1)"
    "r = (eng_scratch_record e1)\<lparr>rec_type := NewOrderRecord, rec_sequence := eng_sequence e + 1, rec_timestamp := now, rec_new_order := c\<rparr>"
  shows "engine_submit env c now e =
    (if \<not> id_valid (no_account c) then Some (reject_submit c UnknownOrder 0 (e\<lparr>eng_fills := [], eng_withdrawals := []\<rparr>))
     else if kill_blocks c e then Some (reject_submit c Halted 0 (e\<lparr>eng_fills := [], eng_withdrawals := []\<rparr>))
     else if reason \<noteq> RejectNone then Some (reject_submit c reason 0 (with_kill (record_reject (no_account c) now) e1))
     else do {
       (ok, e3) \<leftarrow> journal_command env r now (e1\<lparr>eng_sequence := eng_sequence e + 1, eng_scratch_record := r\<rparr>);
       if \<not> ok then Some (reject_submit c Halted (eng_sequence e + 1) e3)
       else submit_to_book c (eng_sequence e + 1) now b e3
     })"
proof -
  let ?e = "e\<lparr>eng_fills := [], eng_withdrawals := []\<rparr>"
  have book: "book_for ?e (no_instrument c) = Some b" using assms(1) by (simp add: book_for_def)
  have seq: "eng_sequence e1 = eng_sequence e" using risk_gate_fields[OF assms(2)] by simp
  show ?thesis
    unfolding engine_submit_def Let_def book option.case risk_gate_def[symmetric] assms(2) prod.case assms(3)
    by (simp add: next_sequence_def Let_def seq kill_blocks_def)
qed

lemma submit_cases:
  assumes "engine_submit env c now e = Some (y, e')"
  obtains (idle) "core e' = core e" "eng_journal e' = eng_journal e" "eng_sequence e' = eng_sequence e"
  | (numbered) r e1 ok e3 b where "numbering env now r e e1 ok e3" "rec_type r = NewOrderRecord" "rec_new_order r = c"
      "eng_books e (no_instrument c) = Some b" "id_valid (no_account c)"
      "if ok then submit_to_book c (eng_sequence e + 1) now b e3 = Some (y, e')
       else e' = snd (reject_submit c Halted (eng_sequence e + 1) e3)"
proof (cases "eng_books e (no_instrument c)")
  case None
  then show ?thesis using assms
    by (intro idle) (auto simp: engine_submit_def book_for_def reject_submit_def engine_fields)
next
  case (Some b)
  obtain reason e1 where re1: "risk_gate c b now (e\<lparr>eng_fills := [], eng_withdrawals := []\<rparr>) = (reason, e1)" by (metis surj_pair)
  have e1: "core e1 = core e" "eng_journal e1 = eng_journal e" "eng_sequence e1 = eng_sequence e" "eng_fills e1 = []" "eng_withdrawals e1 = []"
    using risk_gate_fields[OF re1] by (auto simp: engine_fields)
  define r where "r = (eng_scratch_record e1)\<lparr>rec_type := NewOrderRecord, rec_sequence := eng_sequence e + 1,
    rec_timestamp := now, rec_new_order := c\<rparr>"
  consider "core e' = core e" "eng_journal e' = eng_journal e" "eng_sequence e' = eng_sequence e"
    | ok e3 where "id_valid (no_account c)" "journal_command env r now (e1\<lparr>eng_sequence := eng_sequence e + 1, eng_scratch_record := r\<rparr>) = Some (ok, e3)"
        "if ok then submit_to_book c (eng_sequence e + 1) now b e3 = Some (y, e')
         else e' = snd (reject_submit c Halted (eng_sequence e + 1) e3)"
    using assms e1(1-3) unfolding submit_run[OF Some re1 r_def]
    by (auto simp: reject_submit_def engine_fields bind_eq_Some_conv split: if_splits)
  then show ?thesis
  proof cases
    case 1
    then show ?thesis by (rule idle)
  next
    case (2 ok e3)
    have "numbering env now r e e1 ok e3" using e1 2(2) by (simp add: numbering_def r_def)
    then show ?thesis by (rule numbered) (use 2 Some in \<open>simp_all add: r_def\<close>)
  qed
qed

lemma submit_echoed:
  assumes "engine_submit env c now e = Some (y, e')" "eng_journal e = Some j" "no_price c \<in> i64_range" "now \<in> i64_range"
  shows "echoed env now j e e'"
  using assms(1)
proof (cases rule: submit_cases)
  case idle
  then show ?thesis using assms(2) by (rule idle_echoed)
next
  case (numbered r e1 ok e3 b)
  from numbered(1) have r: "rec_sequence r = eng_sequence e + 1" "rec_timestamp r = now" by (simp_all add: numbering_def)
  from numbered(1) assms(2) obtain w' d' where j: "jw_append env r now (fst j) (snd j) = Some (ok, w', d')"
    "eng_journal e3 = Some (w', d')" "core e3 = core e" "eng_sequence e3 = eng_sequence e + 1" "eng_fills e3 = []" "eng_withdrawals e3 = []"
    by (rule numberingE)
  show ?thesis
  proof (rule append_echoed[OF j(1)])
    have "ok \<Longrightarrow> eng_journal e' = eng_journal e3"
      using submit_to_book_core[OF _ j(5,6), of c "eng_sequence e + 1" now b y e'] numbered(6) by auto
    then show "eng_journal e' = Some (w', d')" using numbered(6) j(2) by (cases ok) (simp_all add: reject_submit_def engine_fields)
  next
    assume ok
    then obtain res out b' where s: "submit b (order_of c (eng_sequence e + 1) now) ([], Some []) = Some (res, out, b')"
      "core e' = core (set_book (no_instrument c) b' e3)" "eng_sequence e' = eng_sequence e + 1"
      using submit_to_book_core[OF _ j(5,6), of c "eng_sequence e + 1" now b y e'] numbered(6) j(4) by auto
    show "replays r e e'"
    proof (rule replays_step)
      fix env' f assume f: "plain f" "core f = core e" "eng_sequence f = eng_sequence e"
      have "eng_books f (no_instrument c) = Some b" using f(2) numbered(4) by (simp add: core_eq)
      then obtain y f' where "engine_submit env' c now f = Some (y, f')" "plain f'"
        "core f' = core (set_book (no_instrument c) b' f)" "eng_sequence f' = eng_sequence e + 1"
        using submit_plain[of f c b now res out b' env'] f(1,3) s(1) numbered(5) by auto
      moreover have "core (set_book (no_instrument c) b' f) = core e'"
        using set_book_core[of f e3] s(2) j(3) f(2) by simp
      ultimately show "\<exists>f'. engine_step env' (command_of r) (rec_timestamp r) f = Some f' \<and> plain f' \<and> core f' = core e' \<and>
          eng_sequence f' = eng_sequence e + 1"
        using r numbered(2,3) by (simp add: engine_step_def command_of_def)
    qed (use assms(3,4) r numbered(2,3) s(3) in \<open>simp_all add: command_of_def\<close>)
  qed
qed

section \<open>Cancelling and amending\<close>

text \<open>
  Both commands number and journal themselves and then act at the book.  \<open>K\<close> is what they do there,
  which depends on the books only; \<open>mk\<close> fills in the record.
\<close>

definition journaled :: "Env \<Rightarrow> Nanos \<Rightarrow> (SeqNum \<Rightarrow> Record \<Rightarrow> Record) \<Rightarrow> (SeqNum \<Rightarrow> Engine \<Rightarrow> Engine option) \<Rightarrow> Engine \<Rightarrow> Engine option" where
  "journaled env now mk K e = do {
     let r = mk (eng_sequence e + 1) (eng_scratch_record e);
     (ok, e3) \<leftarrow> journal_command env r now (e\<lparr>eng_fills := [], eng_withdrawals := [], eng_sequence := eng_sequence e + 1, eng_scratch_record := r\<rparr>);
     if ok then K (eng_sequence e + 1) e3 else Some e3
   }"

lemma journaled_echoed:
  assumes run: "\<And>env f. core f = core e \<Longrightarrow> engine_step env c now f = journaled env now mk K f"
    and made: "\<And>n s. rec_sequence (mk n s) = n \<and> rec_timestamp (mk n s) = now \<and> command_of (mk n s) = c"
    and fits: "command_fits c" "now \<in> i64_range"
    and keeps: "\<And>n f f'. K n f = Some f' \<Longrightarrow> eng_fills f = [] \<Longrightarrow> eng_withdrawals f = [] \<Longrightarrow>
      eng_journal f' = eng_journal f \<and> eng_sequence f' = eng_sequence f"
    and again: "\<And>n f f' g. K n f = Some f' \<Longrightarrow> core f = core e \<Longrightarrow> core g = core e \<Longrightarrow> plain g \<Longrightarrow>
      eng_fills f = [] \<Longrightarrow> eng_withdrawals f = [] \<Longrightarrow> eng_fills g = [] \<Longrightarrow> eng_withdrawals g = [] \<Longrightarrow>
      \<exists>g'. K n g = Some g' \<and> plain g' \<and> core g' = core f' \<and> eng_sequence g' = eng_sequence g"
    and step: "engine_step env c now e = Some e'" "eng_journal e = Some j"
  shows "echoed env now j e e'"
proof -
  let ?n = "eng_sequence e + 1"
  define r where "r = mk ?n (eng_scratch_record e)"
  obtain ok e3 where e3: "numbering env now r e (e\<lparr>eng_fills := [], eng_withdrawals := []\<rparr>) ok e3"
    "if ok then K ?n e3 = Some e' else e' = e3"
    using step(1) made unfolding run[OF refl]
    by (auto simp: journaled_def Let_def numbering_def engine_fields r_def bind_eq_Some_conv split: if_splits)
  from e3(1) step(2) obtain w' d' where j: "jw_append env r now (fst j) (snd j) = Some (ok, w', d')"
    "eng_journal e3 = Some (w', d')" "core e3 = core e" "eng_sequence e3 = ?n" "eng_fills e3 = []" "eng_withdrawals e3 = []"
    by (rule numberingE)
  show ?thesis
  proof (rule append_echoed[OF j(1)])
    show "eng_journal e' = Some (w', d')" using e3(2) j(2,5,6) keeps[of ?n e3 e'] by (cases ok) auto
  next
    assume ok
    then have K: "K ?n e3 = Some e'" using e3(2) by simp
    show "replays r e e'"
    proof (rule replays_step)
      fix env' f assume f: "plain f" "core f = core e" "eng_sequence f = eng_sequence e"
      let ?f = "\<lambda>r'. f\<lparr>eng_fills := [], eng_withdrawals := [], eng_sequence := ?n, eng_scratch_record := r'\<rparr>"
      have pf: "plain (?f r')" "core (?f r') = core e" for r' using f by (simp_all add: engine_fields)
      have "engine_step env' c now f = K ?n (?f (mk ?n (eng_scratch_record f)))"
        using f(3) unfolding run[OF f(2)] by (simp add: journaled_def Let_def journal_command_plain[OF pf(1)])
      moreover obtain f' where "K ?n (?f (mk ?n (eng_scratch_record f))) = Some f'" "plain f'" "core f' = core e'" "eng_sequence f' = ?n"
        using again[OF K j(3) pf(2,1) j(5,6)] by auto
      ultimately show "\<exists>f'. engine_step env' (command_of r) (rec_timestamp r) f = Some f' \<and> plain f' \<and> core f' = core e' \<and> eng_sequence f' = ?n"
        using made by (simp add: r_def)
    qed (use fits made keeps[OF K j(5,6)] j(4) in \<open>simp_all add: r_def\<close>)
  qed
qed

definition cancel_in_book :: "CancelOrder \<Rightarrow> OrderBook \<Rightarrow> SeqNum \<Rightarrow> Engine \<Rightarrow> Engine option" where
  "cancel_in_book c b n e = do {
     (result, b') \<leftarrow> cancel b (co_id c);
     let e3 = set_book (co_instrument c) b' e;
     if cr_accepted result then
       let ord = cr_order result;
           e4 = with_risk (\<lambda>r. on_order_closed (ord_account ord)
             (on_working_released (ord_account ord) (co_instrument c) (ord_side ord) (ord_remaining ord) r)) e3
       in Some (notify [OrderCancelled n ord] e4)
     else Some e3
   }"

lemma cancel_in_book_core:
  assumes "cancel_in_book c b n e = Some e'"
  shows "\<exists>res b'. cancel b (co_id c) = Some (res, b') \<and> core e' = core (set_book (co_instrument c) b' e) \<and>
    eng_journal e' = eng_journal e \<and> eng_sequence e' = eng_sequence e"
  using assms by (auto simp: cancel_in_book_def Let_def bind_eq_Some_conv engine_fields split: if_splits)

lemma cancel_in_book_plain:
  assumes "cancel b (co_id c) = Some (res, b')" "plain e"
  shows "\<exists>e'. cancel_in_book c b n e = Some e' \<and> plain e' \<and> core e' = core (set_book (co_instrument c) b' e) \<and>
    eng_sequence e' = eng_sequence e"
  using assms by (simp add: cancel_in_book_def Let_def engine_fields)

lemma cancel_run:
  assumes "eng_books e (co_instrument c) = Some b" "find_order b (co_id c) = Some (Some x)" "ord_account x = co_account c"
  shows "engine_step env (CancelResting c) now e = journaled env now
    (\<lambda>n r. r\<lparr>rec_type := CancelOrderRecord, rec_sequence := n, rec_timestamp := now, rec_cancel_order := c\<rparr>) (cancel_in_book c b) e"
proof -
  let ?r = "(eng_scratch_record e)\<lparr>rec_type := CancelOrderRecord, rec_sequence := eng_sequence e + 1, rec_timestamp := now, rec_cancel_order := c\<rparr>"
  let ?e = "e\<lparr>eng_fills := [], eng_withdrawals := [], eng_sequence := eng_sequence e + 1, eng_scratch_record := ?r\<rparr>"
  show ?thesis using assms
    by (cases "journal_command env ?r now ?e"; cases "cancel b (co_id c)")
      (auto simp: engine_step_def engine_cancel_def cancel_in_book_def book_for_def next_sequence_def journaled_def Let_def)
qed

lemma cancel_echoed:
  assumes "engine_step env (CancelResting c) now e = Some e'" "eng_journal e = Some j" "now \<in> i64_range"
  shows "echoed env now j e e'"
proof (cases "\<exists>b x. eng_books e (co_instrument c) = Some b \<and> find_order b (co_id c) = Some (Some x) \<and> ord_account x = co_account c")
  case False
  have "core e' = core e \<and> eng_journal e' = eng_journal e \<and> eng_sequence e' = eng_sequence e"
    using assms(1) False
    by (auto simp: engine_step_def engine_cancel_def book_for_def bind_eq_Some_conv Let_def engine_fields split: option.splits if_splits)
  then show ?thesis using assms(2) by (auto intro: idle_echoed)
next
  case True
  then obtain b x where b: "eng_books e (co_instrument c) = Some b" "find_order b (co_id c) = Some (Some x)" "ord_account x = co_account c" by blast
  show ?thesis
  proof (rule journaled_echoed[OF _ _ _ assms(3) _ _ assms(1,2)])
    fix env f assume "core f = core e"
    then have "eng_books f (co_instrument c) = Some b" using b(1) by (simp add: core_eq)
    then show "engine_step env (CancelResting c) now f = journaled env now
        (\<lambda>n r. r\<lparr>rec_type := CancelOrderRecord, rec_sequence := n, rec_timestamp := now, rec_cancel_order := c\<rparr>) (cancel_in_book c b) f"
      by (rule cancel_run[OF _ b(2,3)])
  next
    fix n f f' g assume f: "cancel_in_book c b n f = Some f'" "core f = core e" "core g = core e" "plain g"
    obtain res b' where s: "cancel b (co_id c) = Some (res, b')" "core f' = core (set_book (co_instrument c) b' f)"
      using cancel_in_book_core[OF f(1)] by blast
    show "\<exists>g'. cancel_in_book c b n g = Some g' \<and> plain g' \<and> core g' = core f' \<and> eng_sequence g' = eng_sequence g"
      using cancel_in_book_plain[OF s(1) f(4), of n] s(2) set_book_core[of f g] f(2,3) by auto
  qed (use cancel_in_book_core in \<open>fastforce simp: command_of_def\<close>)+
qed

definition amend_in_book :: "ReplaceOrder \<Rightarrow> Nanos \<Rightarrow> Order \<Rightarrow> OrderBook \<Rightarrow> SeqNum \<Rightarrow> Engine \<Rightarrow> Engine option" where
  "amend_in_book c now x b n e = map_option snd (replace_in_book c n now x b e)"

lemma amend_run:
  assumes "eng_books e (ro_instrument c) = Some b" "find_order b (ro_id c) = Some (Some x)" "ord_account x = ro_account c"
  shows "engine_step env (AmendResting c) now e = journaled env now
    (\<lambda>n r. r\<lparr>rec_type := ReplaceOrderRecord, rec_sequence := n, rec_timestamp := now, rec_replace_order := c\<rparr>) (amend_in_book c now x b) e"
proof -
  let ?r = "(eng_scratch_record e)\<lparr>rec_type := ReplaceOrderRecord, rec_sequence := eng_sequence e + 1, rec_timestamp := now, rec_replace_order := c\<rparr>"
  let ?e = "e\<lparr>eng_fills := [], eng_withdrawals := [], eng_sequence := eng_sequence e + 1, eng_scratch_record := ?r\<rparr>"
  show ?thesis using assms
    by (cases "journal_command env ?r now ?e")
      (auto simp: engine_step_def engine_replace_def amend_in_book_def book_for_def next_sequence_def journaled_def Let_def)
qed

lemma amend_in_book_core:
  assumes "amend_in_book c now x b n e = Some e'" "eng_fills e = []" "eng_withdrawals e = []"
  shows "\<exists>res out b'. replace b (ro_id c) (ro_new_price c) (ro_new_quantity c) n now ([], Some []) = Some (res, out, b') \<and>
    (rr_accepted res \<longrightarrow> find_order b' (ro_id c) \<noteq> None) \<and>
    core e' = core (set_book (ro_instrument c) b' e) \<and> eng_journal e' = eng_journal e \<and> eng_sequence e' = eng_sequence e"
proof -
  obtain res fs ws b' where s: "replace b (ro_id c) (ro_new_price c) (ro_new_quantity c) n now ([], Some []) = Some (res, (fs, ws), b')"
    using assms by (auto simp: amend_in_book_def replace_in_book_def Let_def engine_fields bind_eq_Some_conv)
  have "(rr_accepted res \<longrightarrow> find_order b' (ro_id c) \<noteq> None) \<and>
      core e' = core (set_book (ro_instrument c) b' e) \<and> eng_journal e' = eng_journal e \<and> eng_sequence e' = eng_sequence e"
    using assms s by (auto simp: amend_in_book_def replace_in_book_def Let_def engine_fields bind_eq_Some_conv split: if_splits option.splits)
  then show ?thesis using s by blast
qed

lemma amend_in_book_plain:
  assumes "replace b (ro_id c) (ro_new_price c) (ro_new_quantity c) n now ([], Some []) = Some (res, out, b')"
    "rr_accepted res \<longrightarrow> find_order b' (ro_id c) \<noteq> None" "plain e" "eng_fills e = []" "eng_withdrawals e = []"
  shows "\<exists>e'. amend_in_book c now x b n e = Some e' \<and> plain e' \<and> core e' = core (set_book (ro_instrument c) b' e) \<and>
    eng_sequence e' = eng_sequence e"
  using assms by (cases out) (auto simp: amend_in_book_def replace_in_book_def Let_def engine_fields split: option.splits)

lemma amend_echoed:
  assumes "engine_step env (AmendResting c) now e = Some e'" "eng_journal e = Some j" "now \<in> i64_range" "ro_new_price c \<in> i64_range"
  shows "echoed env now j e e'"
proof (cases "\<exists>b x. eng_books e (ro_instrument c) = Some b \<and> find_order b (ro_id c) = Some (Some x) \<and> ord_account x = ro_account c")
  case False
  have "core e' = core e \<and> eng_journal e' = eng_journal e \<and> eng_sequence e' = eng_sequence e"
    using assms(1) False
    by (auto simp: engine_step_def engine_replace_def book_for_def bind_eq_Some_conv Let_def engine_fields split: option.splits if_splits)
  then show ?thesis using assms(2) by (auto intro: idle_echoed)
next
  case True
  then obtain b x where b: "eng_books e (ro_instrument c) = Some b" "find_order b (ro_id c) = Some (Some x)" "ord_account x = ro_account c" by blast
  show ?thesis
  proof (rule journaled_echoed[OF _ _ _ assms(3) _ _ assms(1,2)])
    fix env f assume "core f = core e"
    then have "eng_books f (ro_instrument c) = Some b" using b(1) by (simp add: core_eq)
    then show "engine_step env (AmendResting c) now f = journaled env now
        (\<lambda>n r. r\<lparr>rec_type := ReplaceOrderRecord, rec_sequence := n, rec_timestamp := now, rec_replace_order := c\<rparr>) (amend_in_book c now x b) f"
      by (rule amend_run[OF _ b(2,3)])
  next
    fix n f f' g assume f: "amend_in_book c now x b n f = Some f'" "core f = core e" "core g = core e" "plain g"
      "eng_fills f = []" "eng_withdrawals f = []" "eng_fills g = []" "eng_withdrawals g = []"
    obtain res out b' where s: "replace b (ro_id c) (ro_new_price c) (ro_new_quantity c) n now ([], Some []) = Some (res, out, b')"
      "rr_accepted res \<longrightarrow> find_order b' (ro_id c) \<noteq> None" "core f' = core (set_book (ro_instrument c) b' f)"
      using amend_in_book_core[OF f(1,5,6)] by blast
    show "\<exists>g'. amend_in_book c now x b n g = Some g' \<and> plain g' \<and> core g' = core f' \<and> eng_sequence g' = eng_sequence g"
      using amend_in_book_plain[OF s(1,2) f(4,7,8), of x] s(3) set_book_core[of f g] f(2,3) by auto
  qed (use amend_in_book_core assms(4) in \<open>fastforce simp: command_of_def\<close>)+
qed

section \<open>Instruments\<close>

lemma define_idle:
  assumes "\<not> id_valid (ins_id ins) \<or> ins_symbol ins = [] \<or> eng_books e (ins_id ins) \<noteq> None \<or> eng_symbols e (ins_symbol ins) \<noteq> None"
  shows "add_instrument env ins now e = Some (False, e)"
  using assms by (elim disjE) (simp_all only: add_instrument_def if_True if_False simp_thms if_cancel)

lemma define_echoed:
  assumes "engine_step env (DefineInstrument ins) now e = Some e'" "eng_journal e = Some j" "now \<in> i64_range"
    "command_fits (DefineInstrument ins)"
  shows "echoed env now j e e'"
proof (cases "\<not> id_valid (ins_id ins) \<or> ins_symbol ins = [] \<or> eng_books e (ins_id ins) \<noteq> None \<or> eng_symbols e (ins_symbol ins) \<noteq> None")
  case True
  then have "e' = e" using define_idle[OF True] assms(1) by (simp add: engine_step_def)
  then show ?thesis using assms(2) by (auto intro: idle_echoed)
next
  case new: False
  let ?n = "eng_sequence e + 1"
  define r where "r = Record_default\<lparr>rec_type := InstrumentDefined, rec_sequence := ?n, rec_timestamp := now, rec_instrument := ins\<rparr>"
  define set_new where "set_new b f = f\<lparr>eng_symbols := (eng_symbols f)(ins_symbol ins \<mapsto> ins_id ins),
    eng_books := (eng_books f)(ins_id ins \<mapsto> b), eng_instrument_order := sort (eng_instrument_order f @ [ins_id ins])\<rparr>" for b and f :: Engine
  obtain ok w' d' where a: "jw_append env r now (fst j) (snd j) = Some (ok, w', d')"
    "if ok then \<exists>b. OrderBook_new ins (ins_expected_resting_orders ins) = Some b \<and>
       e' = set_new b (e\<lparr>eng_sequence := ?n, eng_journal := Some (w', d')\<rparr>) else e' = e\<lparr>eng_sequence := ?n, eng_journal := Some (w', d')\<rparr>"
    using assms(1,2) new
    by (cases j) (auto simp: engine_step_def add_instrument_def next_sequence_def Let_def bind_eq_Some_conv r_def set_new_def split: if_splits)
  show ?thesis
  proof (rule append_echoed[OF a(1)])
    show "eng_journal e' = Some (w', d')" using a(2) by (cases ok) (auto simp: set_new_def)
  next
    assume ok
    then obtain b where b: "OrderBook_new ins (ins_expected_resting_orders ins) = Some b"
      "e' = set_new b (e\<lparr>eng_sequence := ?n, eng_journal := Some (w', d')\<rparr>)" using a(2) by auto
    show "replays r e e'"
    proof (rule replays_step)
      fix env' f assume f: "plain f" "core f = core e" "eng_sequence f = eng_sequence e"
      have "engine_step env' (DefineInstrument ins) now f = Some (set_new b (f\<lparr>eng_sequence := ?n\<rparr>))"
        using new f b(1) by (auto simp: engine_step_def add_instrument_def next_sequence_def Let_def plain_def core_eq set_new_def)
      moreover have "plain (set_new b (f\<lparr>eng_sequence := ?n\<rparr>))" "core (set_new b (f\<lparr>eng_sequence := ?n\<rparr>)) = core e'"
        using f(1,2) b(2) by (simp_all add: plain_def core_def set_new_def)
      ultimately show "\<exists>f'. engine_step env' (command_of r) (rec_timestamp r) f = Some f' \<and> plain f' \<and> core f' = core e' \<and> eng_sequence f' = ?n"
        by (simp add: command_of_def r_def set_new_def)
    qed (use assms(3,4) b(2) in \<open>simp_all add: command_of_def r_def set_new_def\<close>)
  qed
qed

lemma step_echoed:
  assumes "engine_step env c now e = Some e'" "eng_journal e = Some j" "now \<in> i64_range" "command_fits c"
  shows "echoed env now j e e'"
proof (cases c)
  case (SubmitOrder no)
  then show ?thesis using assms submit_echoed[of env no now e _ e' j] by (auto simp: engine_step_def)
qed (use assms define_echoed cancel_echoed amend_echoed in auto)

end
