(* ===== verification/Engine_Safety.thy ===== *)
theory Engine_Safety
  imports Engine_Replay Book_Properties
begin

text \<open>
  The engine never goes wrong: while commands fit the capacities of the books they meet and the system
  makes progress, every command returns and keeps the engine's invariant.
\<close>

section \<open>The invariant\<close>

definition book_ok :: "InstrumentId \<Rightarrow> OrderBook \<Rightarrow> bool" where
  "book_ok iid b \<longleftrightarrow> (\<exists>A. book_inv b A \<and> ins_id (ab_instrument A) = iid)"

text \<open>
  Every book is well formed and registered under its id, once, in ascending order; the symbol table
  names exactly the books' symbols.
\<close>

definition engine_inv :: "Engine \<Rightarrow> bool" where
  "engine_inv e \<longleftrightarrow> (\<forall>iid b. eng_books e iid = Some b \<longrightarrow> book_ok iid b \<and> eng_symbols e (ins_symbol (bk_instrument b)) = Some iid) \<and>
     (\<forall>s iid. eng_symbols e s = Some iid \<longrightarrow> (\<exists>b. eng_books e iid = Some b \<and> ins_symbol (bk_instrument b) = s)) \<and>
     set (eng_instrument_order e) = dom (eng_books e) \<and> distinct (eng_instrument_order e) \<and> sorted (eng_instrument_order e)"

definition engine_fits :: "Env \<Rightarrow> EngineCommand \<Rightarrow> Engine \<Rightarrow> bool" where
  "engine_fits env c e \<longleftrightarrow> progress env \<and> (case c of
       DefineInstrument ins \<Rightarrow> ins_tick_size ins > 0
     | SubmitOrder no \<Rightarrow> (case eng_books e (no_instrument no) of None \<Rightarrow> True
         | Some b \<Rightarrow> side_has_room b (no_side no) (no_quantity no) \<and> slab_has_room b)
     | CancelResting co \<Rightarrow> True
     | AmendResting ro \<Rightarrow> (case eng_books e (ro_instrument ro) of None \<Rightarrow> True
         | Some b \<Rightarrow> side_has_room b Buy (ro_new_quantity ro) \<and> side_has_room b Sell (ro_new_quantity ro)))"

lemma engine_inv_core: "core e = core f \<Longrightarrow> engine_inv e \<longleftrightarrow> engine_inv f"
  by (simp add: engine_inv_def core_eq)

lemma inv_fields [simp]:
  "engine_inv (with_risk f e) = engine_inv e" "engine_inv (with_kill g e) = engine_inv e" "engine_inv (notify evs e) = engine_inv e"
  "engine_inv (e\<lparr>eng_fills := fs\<rparr>) = engine_inv e" "engine_inv (e\<lparr>eng_withdrawals := ws\<rparr>) = engine_inv e"
  "engine_inv (e\<lparr>eng_sequence := n\<rparr>) = engine_inv e" "engine_inv (e\<lparr>eng_scratch_record := r\<rparr>) = engine_inv e"
  "engine_inv (e\<lparr>eng_journal := j\<rparr>) = engine_inv e"
  by (auto intro!: engine_inv_core simp: engine_fields)

lemma engine_inv_set_book:
  assumes "engine_inv e" "eng_books e i = Some b" "book_ok i b'" "bk_instrument b' = bk_instrument b"
  shows "engine_inv (set_book i b' e)"
proof -
  have "insert i (dom (eng_books e)) = dom (eng_books e)" using assms(2) by auto
  moreover have "eng_symbols e (ins_symbol (bk_instrument b)) = Some i" using assms(1,2) by (simp add: engine_inv_def)
  moreover have "ins_symbol (bk_instrument b) = s" if "eng_symbols e s = Some i" for s
    using assms(1,2) that unfolding engine_inv_def by (metis option.inject)
  ultimately show ?thesis using assms unfolding engine_inv_def set_book_def by (auto split: if_splits)
qed

lemma book_okE:
  assumes "book_ok i b"
  obtains A where "book_inv b A" "ins_id (ab_instrument A) = i" "bk_instrument b = ab_instrument A"
  using assms book_queries(9) by (auto simp: book_ok_def)

lemma engine_inv_book: "engine_inv e \<Longrightarrow> eng_books e i = Some b \<Longrightarrow> book_ok i b"
  by (simp add: engine_inv_def)

section \<open>Books under the engine\<close>

lemma submit_ok:
  assumes "book_ok i b" "side_has_room b (ord_side ord) (ord_quantity ord)" "slab_has_room b"
  shows "\<exists>res fs ws b'. submit b ord out = Some (res, (fs, ws), b') \<and> book_ok i b' \<and> bk_instrument b' = bk_instrument b"
proof -
  obtain A where A: "book_inv b A" "ins_id (ab_instrument A) = i" "bk_instrument b = ab_instrument A" using assms(1) by (rule book_okE)
  obtain res fs ws A' where r: "a_submit A ord out = (res, (fs, ws), A')" by (metis surj_pair)
  obtain b' where b': "submit b ord out = Some (res, (fs, ws), b')" "book_inv b' A'" using book_inv_submit[OF A(1) assms(2,3) r] by blast
  have "ab_instrument A' = ab_instrument A"
    using a_submit_wf(2)[OF book_inv_wf[OF A(1)] r] assms(2) book_inv_room(1)[OF A(1)] by auto
  then show ?thesis using b' A book_queries(9)[OF b'(2)] by (auto simp: book_ok_def)
qed

lemma cancel_ok:
  assumes "book_ok i b"
  shows "\<exists>res b'. cancel b oid = Some (res, b') \<and> book_ok i b' \<and> bk_instrument b' = bk_instrument b"
proof -
  obtain A where A: "book_inv b A" "ins_id (ab_instrument A) = i" "bk_instrument b = ab_instrument A" using assms by (rule book_okE)
  obtain res A' where r: "a_cancel A oid = (res, A')" by (metis surj_pair)
  obtain b' where b': "cancel b oid = Some (res, b')" "book_inv b' A'" using book_inv_cancel[OF A(1) r] by blast
  then show ?thesis using A book_queries(9)[OF b'(2)] a_cancel_wf(2)[OF book_inv_wf[OF A(1)] r] by (auto simp: book_ok_def)
qed

lemma replace_ok:
  assumes "book_ok i b" "side_has_room b Buy q" "side_has_room b Sell q"
  shows "\<exists>res fs ws b'. replace b oid p q n t out = Some (res, (fs, ws), b') \<and> book_ok i b' \<and> bk_instrument b' = bk_instrument b"
proof -
  obtain A where A: "book_inv b A" "ins_id (ab_instrument A) = i" "bk_instrument b = ab_instrument A" using assms(1) by (rule book_okE)
  obtain res fs ws A' where r: "a_replace A oid p q n t out = (res, (fs, ws), A')" by (metis surj_pair)
  obtain b' where b': "replace b oid p q n t out = Some (res, (fs, ws), b')" "book_inv b' A'" using book_inv_replace[OF A(1) assms(2,3) r] by blast
  have "room_for A s q" for s using assms(2,3) book_inv_room(1)[OF A(1)] by (cases s) auto
  then have "ab_instrument A' = ab_instrument A" using a_replace_wf(2)[OF book_inv_wf[OF A(1)] r] by blast
  then show ?thesis using b' A book_queries(9)[OF b'(2)] by (auto simp: book_ok_def)
qed

lemma find_ok: "book_ok i b \<Longrightarrow> \<exists>x. find_order b oid = Some x"
  using book_queries(2) by (auto elim!: book_okE)

section \<open>Commands\<close>

lemma pair_returns: "m \<noteq> None \<Longrightarrow> (\<And>a b. k a b \<noteq> None) \<Longrightarrow> do { (a, b) \<leftarrow> m; k a b } \<noteq> None"
  by (auto split: prod.splits)

lemma journal_command_returns: "progress env \<Longrightarrow> journal_command env r now e \<noteq> None"
  using append_returns[of env r now "fst (the (eng_journal e))" "snd (the (eng_journal e))"]
  by (cases "eng_journal e") (auto simp: journal_command_def Let_def)

lemma submit_to_book_returns:
  assumes "book_ok i b" "side_has_room b (no_side c) (no_quantity c)" "slab_has_room b"
  shows "submit_to_book c n now b e \<noteq> None"
proof -
  obtain res fs ws b' where s: "submit b (order_of c n now) (eng_fills e, Some (eng_withdrawals e)) = Some (res, (fs, ws), b')" "book_ok i b'"
    using submit_ok[of i b "order_of c n now" "(eng_fills e, Some (eng_withdrawals e))"] assms by (auto simp: order_of_def)
  obtain x where "find_order b' (no_id c) = Some x" using find_ok[OF s(2)] by blast
  then show ?thesis using s(1) by (simp add: submit_to_book_def Let_def)
qed

lemma submit_to_book_inv:
  assumes "submit_to_book c n now b e = Some (y, e')" "eng_fills e = []" "eng_withdrawals e = []" "engine_inv e"
    "eng_books e (no_instrument c) = Some b" "side_has_room b (no_side c) (no_quantity c)" "slab_has_room b"
  shows "engine_inv e'"
proof -
  obtain res out b' where s: "submit b (order_of c n now) ([], Some []) = Some (res, out, b')" "core e' = core (set_book (no_instrument c) b' e)"
    using submit_to_book_core[OF assms(1-3)] by blast
  have "book_ok (no_instrument c) b'" "bk_instrument b' = bk_instrument b"
    using submit_ok[of "no_instrument c" b "order_of c n now" "([], Some [])"] engine_inv_book[OF assms(4,5)] assms(6,7) s(1)
    by (auto simp: order_of_def)
  then show ?thesis using engine_inv_set_book[OF assms(4,5)] engine_inv_core[OF s(2)] by simp
qed

lemma submit_safe:
  assumes "engine_inv e" "engine_fits env (SubmitOrder c) e"
  shows "\<exists>e'. engine_step env (SubmitOrder c) now e = Some e' \<and> engine_inv e'"
proof (cases "eng_books e (no_instrument c)")
  case None
  then show ?thesis using assms(1)
    by (auto simp: engine_step_def engine_submit_def book_for_def reject_submit_def)
next
  case (Some b)
  have p: "progress env" and room: "side_has_room b (no_side c) (no_quantity c)" "slab_has_room b"
    using assms(2) Some by (auto simp: engine_fits_def)
  let ?e = "e\<lparr>eng_fills := [], eng_withdrawals := []\<rparr>"
  obtain reason e1 where re1: "risk_gate c b now ?e = (reason, e1)" by (metis surj_pair)
  define r where "r = (eng_scratch_record e1)\<lparr>rec_type := NewOrderRecord, rec_sequence := eng_sequence e + 1,
    rec_timestamp := now, rec_new_order := c\<rparr>"
  have "engine_submit env c now e \<noteq> None"
    unfolding submit_run[OF Some re1 r_def]
    by (intro if_returns pair_returns journal_command_returns[OF p] option.discI[OF refl]
      submit_to_book_returns[OF engine_inv_book[OF assms(1) Some] room])
  then obtain y e' where s: "engine_submit env c now e = Some (y, e')" by auto
  then have "engine_inv e'"
  proof (cases rule: submit_cases)
    case idle
    then show ?thesis using assms(1) engine_inv_core[OF idle(1)] by simp
  next
    case (numbered r e1 ok e3 b1)
    have j: "core e3 = core e" "eng_fills e3 = []" "eng_withdrawals e3 = []"
      using numbered(1) by (auto simp: numbering_def journal_command_def Let_def bind_eq_Some_conv engine_fields split: option.splits if_splits)
    have e3: "engine_inv e3" "eng_books e3 (no_instrument c) = Some b" using assms(1) j(1) engine_inv_core[OF j(1)] Some by (simp_all add: core_eq)
    show ?thesis
    proof (cases ok)
      case True
      then show ?thesis using submit_to_book_inv[OF _ j(2,3) e3 room] numbered(4,6) Some by auto
    next
      case False
      then show ?thesis using numbered(6) e3(1) by (simp add: reject_submit_def)
    qed
  qed
  then show ?thesis using s by (simp add: engine_step_def)
qed

lemma journaled_safe:
  assumes "progress env" "engine_inv e"
    "\<And>n f. core f = core e \<Longrightarrow> engine_inv f \<Longrightarrow> eng_fills f = [] \<Longrightarrow> eng_withdrawals f = [] \<Longrightarrow> \<exists>f'. K n f = Some f' \<and> engine_inv f'"
  shows "\<exists>e'. journaled env now mk K e = Some e' \<and> engine_inv e'"
proof -
  define r where "r = mk (eng_sequence e + 1) (eng_scratch_record e)"
  let ?e = "e\<lparr>eng_fills := [], eng_withdrawals := [], eng_sequence := eng_sequence e + 1, eng_scratch_record := r\<rparr>"
  obtain ok e3 where j: "journal_command env r now ?e = Some (ok, e3)" using journal_command_returns[OF assms(1), of r now ?e] by auto
  have e3: "core e3 = core e" "eng_fills e3 = []" "eng_withdrawals e3 = []"
    using j by (auto simp: journal_command_def Let_def bind_eq_Some_conv engine_fields split: option.splits if_splits)
  have inv: "engine_inv e3" using assms(2) engine_inv_core[OF e3(1)] by simp
  show ?thesis using assms(3)[OF e3(1) inv e3(2,3), of "eng_sequence e + 1"] inv j
    by (cases ok) (auto simp: journaled_def Let_def r_def)
qed

lemma cancel_safe:
  assumes "engine_inv e" "progress env"
  shows "\<exists>e'. engine_step env (CancelResting c) now e = Some e' \<and> engine_inv e'"
proof (cases "eng_books e (co_instrument c)")
  case None
  then show ?thesis using assms(1) by (simp add: engine_step_def engine_cancel_def book_for_def)
next
  case (Some b)
  have ok: "book_ok (co_instrument c) b" by (rule engine_inv_book[OF assms(1) Some])
  obtain x where x: "find_order b (co_id c) = Some x" using find_ok[OF ok] by blast
  show ?thesis
  proof (cases "\<exists>ord. x = Some ord \<and> ord_account ord = co_account c")
    case True
    then obtain ord where ord: "find_order b (co_id c) = Some (Some ord)" "ord_account ord = co_account c" using x by auto
    show ?thesis unfolding cancel_run[OF Some ord]
    proof (rule journaled_safe[OF assms(2,1)])
      fix n f assume f: "core f = core e" "engine_inv f"
      obtain res b' where s: "cancel b (co_id c) = Some (res, b')" "book_ok (co_instrument c) b'" "bk_instrument b' = bk_instrument b"
        using cancel_ok[OF ok] by blast
      have "eng_books f (co_instrument c) = Some b" using f(1) Some by (simp add: core_eq)
      then have "engine_inv (set_book (co_instrument c) b' f)" using engine_inv_set_book[OF f(2)] s(2,3) by blast
      then show "\<exists>f'. cancel_in_book c b n f = Some f' \<and> engine_inv f'" using s(1) by (simp add: cancel_in_book_def Let_def)
    qed
  next
    case False
    then show ?thesis using Some x assms(1) by (cases x) (simp_all add: engine_step_def engine_cancel_def book_for_def Let_def)
  qed
qed

lemma amend_safe:
  assumes "engine_inv e" "engine_fits env (AmendResting c) e"
  shows "\<exists>e'. engine_step env (AmendResting c) now e = Some e' \<and> engine_inv e'"
proof (cases "eng_books e (ro_instrument c)")
  case None
  then show ?thesis using assms(1) by (simp add: engine_step_def engine_replace_def book_for_def)
next
  case (Some b)
  have p: "progress env" and room: "side_has_room b Buy (ro_new_quantity c)" "side_has_room b Sell (ro_new_quantity c)"
    using assms(2) Some by (auto simp: engine_fits_def)
  have ok: "book_ok (ro_instrument c) b" by (rule engine_inv_book[OF assms(1) Some])
  obtain x where x: "find_order b (ro_id c) = Some x" using find_ok[OF ok] by blast
  show ?thesis
  proof (cases "\<exists>ord. x = Some ord \<and> ord_account ord = ro_account c")
    case True
    then obtain ord where ord: "find_order b (ro_id c) = Some (Some ord)" "ord_account ord = ro_account c" using x by auto
    show ?thesis unfolding amend_run[OF Some ord]
    proof (rule journaled_safe[OF p assms(1)])
      fix n f assume f: "core f = core e" "engine_inv f" "eng_fills f = []" "eng_withdrawals f = []"
      obtain res fs ws b' where s: "replace b (ro_id c) (ro_new_price c) (ro_new_quantity c) n now ([], Some []) = Some (res, (fs, ws), b')"
        "book_ok (ro_instrument c) b'" "bk_instrument b' = bk_instrument b"
        using replace_ok[OF ok room] by blast
      obtain y where "find_order b' (ro_id c) = Some y" using find_ok[OF s(2)] by blast
      then have "amend_in_book c now ord b n f \<noteq> None"
        using s(1) f(3,4) by (simp add: amend_in_book_def replace_in_book_def Let_def engine_fields)
      then obtain f' where a: "amend_in_book c now ord b n f = Some f'" by blast
      have "eng_books f (ro_instrument c) = Some b" using f(1) Some by (simp add: core_eq)
      then have "engine_inv (set_book (ro_instrument c) b' f)" using engine_inv_set_book[OF f(2)] s(2,3) by blast
      moreover have "core f' = core (set_book (ro_instrument c) b' f)" using amend_in_book_core[OF a f(3,4)] s(1) by auto
      ultimately show "\<exists>f'. amend_in_book c now ord b n f = Some f' \<and> engine_inv f'" using a engine_inv_core by blast
    qed
  next
    case False
    then show ?thesis using Some x assms(1) by (cases x) (simp_all add: engine_step_def engine_replace_def book_for_def Let_def)
  qed
qed

lemma engine_inv_add:
  assumes "engine_inv e" "eng_books e (ins_id ins) = None" "eng_symbols e (ins_symbol ins) = None" "book_ok (ins_id ins) b" "bk_instrument b = ins"
  shows "engine_inv (e\<lparr>eng_symbols := (eng_symbols e)(ins_symbol ins \<mapsto> ins_id ins), eng_books := (eng_books e)(ins_id ins \<mapsto> b),
    eng_instrument_order := sort (eng_instrument_order e @ [ins_id ins])\<rparr>)"
proof -
  have "ins_id ins \<notin> set (eng_instrument_order e)" using assms(1,2) by (auto simp: engine_inv_def)
  moreover have "ins_symbol (bk_instrument b') \<noteq> ins_symbol ins" if "eng_books e i = Some b'" for i b'
    using assms(1,3) that unfolding engine_inv_def by (metis option.distinct(1))
  moreover have "i \<noteq> ins_id ins" if "eng_symbols e s = Some i" for s i
    using assms(1,2) that unfolding engine_inv_def by (metis option.distinct(1))
  ultimately show ?thesis using assms unfolding engine_inv_def by (auto split: if_splits)
qed

lemma define_safe:
  assumes "engine_inv e" "engine_fits env (DefineInstrument ins) e"
  shows "\<exists>e'. engine_step env (DefineInstrument ins) now e = Some e' \<and> engine_inv e'"
proof (cases "\<not> id_valid (ins_id ins) \<or> ins_symbol ins = [] \<or> eng_books e (ins_id ins) \<noteq> None \<or> eng_symbols e (ins_symbol ins) \<noteq> None")
  case True
  then show ?thesis using define_idle[OF True] assms(1) by (simp add: engine_step_def)
next
  case False
  then have new: "id_valid (ins_id ins)" "ins_symbol ins \<noteq> []" "eng_books e (ins_id ins) = None" "eng_symbols e (ins_symbol ins) = None" by auto
  have p: "progress env" "ins_tick_size ins > 0" using assms(2) by (auto simp: engine_fits_def)
  obtain b where b: "OrderBook_new ins (ins_expected_resting_orders ins) = Some b" "book_inv b (ABook_new ins)" using book_inv_new[OF p(2)] by blast
  have "book_ok (ins_id ins) b" "bk_instrument b = ins"
    using b(2) book_queries(9)[OF b(2)] by (auto simp: book_ok_def ABook_new_def)
  then have inv: "engine_inv (f\<lparr>eng_symbols := (eng_symbols f)(ins_symbol ins \<mapsto> ins_id ins), eng_books := (eng_books f)(ins_id ins \<mapsto> b),
      eng_instrument_order := sort (eng_instrument_order f @ [ins_id ins])\<rparr>)" if "core f = core e" for f
    using that assms(1) new(3,4) engine_inv_core[OF that] engine_inv_add[of f ins b] by (simp add: core_eq)
  show ?thesis
  proof (cases "eng_journal e")
    case None
    then show ?thesis using new b(1) inv[of "e\<lparr>eng_sequence := eng_sequence e + 1\<rparr>"]
      by (simp add: engine_step_def add_instrument_def next_sequence_def Let_def engine_fields)
  next
    case (Some j)
    let ?r = "Record_default\<lparr>rec_type := InstrumentDefined, rec_sequence := eng_sequence e + 1, rec_timestamp := now, rec_instrument := ins\<rparr>"
    obtain ok w' d' where a: "jw_append env ?r now (fst j) (snd j) = Some (ok, w', d')"
      using append_returns[OF p(1), of ?r now "fst j" "snd j"] by auto
    let ?e = "e\<lparr>eng_sequence := eng_sequence e + 1, eng_journal := Some (w', d')\<rparr>"
    have "core ?e = core e" "engine_inv ?e" using assms(1) by (simp_all add: engine_fields)
    then show ?thesis using Some a new b(1) inv[of ?e]
      by (cases j; cases ok) (simp_all add: engine_step_def add_instrument_def next_sequence_def Let_def)
  qed
qed

interpretation engine: safe_machine "\<lambda>(c, now). engine_step env c now" "\<lambda>(c, now). engine_fits env c" engine_inv for env
proof
  fix e and x :: "EngineCommand \<times> Nanos" assume inv: "engine_inv e" and f: "(case x of (c, now) \<Rightarrow> engine_fits env c) e"
  obtain c now where x: "x = (c, now)" by (cases x)
  have "progress env" using f x by (auto simp: engine_fits_def)
  then show "\<exists>e'. (case x of (c, now) \<Rightarrow> engine_step env c now) e = Some e' \<and> engine_inv e'"
    using inv f submit_safe cancel_safe amend_safe define_safe unfolding x prod.case by (cases c) blast+
qed

section \<open>Runs\<close>

fun run_engine :: "Env \<Rightarrow> (EngineCommand \<times> Nanos) list \<Rightarrow> Engine \<Rightarrow> Engine option" where
  "run_engine env [] e = Some e"
| "run_engine env ((c, now) # xs) e = do { e' \<leftarrow> engine_step env c now e; run_engine env xs e' }"

text \<open>Commands each of which fits the engine it meets.\<close>

fun engine_run_fits :: "Env \<Rightarrow> (EngineCommand \<times> Nanos) list \<Rightarrow> Engine \<Rightarrow> bool" where
  "engine_run_fits env [] e = True"
| "engine_run_fits env ((c, now) # xs) e =
     (engine_fits env c e \<and> (case engine_step env c now e of None \<Rightarrow> True | Some e' \<Rightarrow> engine_run_fits env xs e'))"

lemma run_engine_foldM: "run_engine env xs e = foldM (\<lambda>(c, now). engine_step env c now) xs e"
  by (induction env xs e rule: run_engine.induct) (auto intro: Option.bind_cong)

lemma run_fits_engine: "engine_run_fits env xs e \<longleftrightarrow> engine.admissible_run env xs e"
  by (induction env xs e rule: engine_run_fits.induct) (auto split: option.split)

lemma engine_inv_new: "core e = core MatchingEngine_new \<Longrightarrow> engine_inv e"
  by (simp add: engine_inv_def core_def MatchingEngine_new_def)

text \<open>A well formed engine has a digest.\<close>

lemma digest_total:
  assumes "engine_inv e"
  shows "\<exists>digest. digest_engine e = Some digest"
proof -
  have "\<exists>s'. feed_book b s = Some s'" if "eng_books e i = Some b" for i b s
    using engine_inv_book[OF assms that] book_queries(1) by (auto simp: feed_book_def elim!: book_okE)
  then have "\<exists>s'. feed_books (eng_books e) ids s = Some s'" for ids s
    by (induction "eng_books e" ids s rule: feed_books.induct) (auto split: option.split, metis bind.bind_lunit)
  then show ?thesis by (simp add: digest_engine_def)
qed


section \<open>An example\<close>

definition demo_new :: NewOrder where
  "demo_new = NewOrder_default\<lparr>no_id := 9, no_account := 5, no_instrument := 1, no_side := Buy, no_price := 10, no_quantity := 4\<rparr>"

definition demo_script :: "(EngineCommand \<times> Nanos) list" where
  "demo_script = [(DefineInstrument demo_ins, 3), (SubmitOrder demo_new, 4), (CancelResting \<lparr>co_id = 9, co_account = 5, co_instrument = 1\<rparr>, 5)]"

lemma define_books:
  assumes "engine_step env (DefineInstrument ins) now e = Some e'" "eng_books e (ins_id ins) = None" "eng_books e' (ins_id ins) = Some b"
  shows "OrderBook_new ins (ins_expected_resting_orders ins) = Some b"
  using assms by (auto simp: engine_step_def add_instrument_def next_sequence_def Let_def bind_eq_Some_conv split: if_splits option.splits)

lemma demo_script_fits:
  assumes "progress env" "core e = core MatchingEngine_new"
  shows "engine_run_fits env demo_script e"
proof -
  have tick: "ins_tick_size demo_ins > 0" "ins_id demo_ins = 1" by (simp_all add: demo_ins_def Instrument_default_def)
  have none: "eng_books e 1 = None" using assms(2) by (simp add: core_def MatchingEngine_new_def)
  have fits: "side_has_room b Buy 4 \<and> slab_has_room b" if "book_inv b (ABook_new demo_ins)" for b
  proof -
    have "a_fits (BookSubmit (demo_order 9 5 Buy 10 4)) (ABook_new demo_ins)" by code_simp
    then show ?thesis using fits_book_spec[OF that, of "BookSubmit (demo_order 9 5 Buy 10 4)"] by (simp add: fits_book_def demo_order_def)
  qed
  have "engine_fits env (SubmitOrder demo_new) e1" if "engine_step env (DefineInstrument demo_ins) 3 e = Some e1" for e1
  proof (cases "eng_books e1 1")
    case (Some b)
    have "OrderBook_new demo_ins (ins_expected_resting_orders demo_ins) = Some b" using define_books[OF that] none Some tick(2) by simp
    then have "book_inv b (ABook_new demo_ins)" using book_inv_new[OF tick(1)] by (metis option.inject)
    then show ?thesis using fits assms(1) Some by (simp add: engine_fits_def demo_new_def)
  qed (use assms(1) in \<open>simp add: engine_fits_def demo_new_def\<close>)
  then show ?thesis using assms(1) tick(1) by (auto simp: demo_script_def engine_fits_def split: option.split)
qed


end
