(* ===== verification/Engine_Recovery.thy ===== *)
theory Engine_Recovery
  imports Engine_Safety
begin

text \<open>
  Recovery of the whole engine: a live engine that journals its commands, a crash, and the replay of
  what is left into a new engine.
\<close>

section \<open>A failed append is final\<close>

lemma fail_unhealthy [simp]: "\<not> jw_healthy (jw_fail m w)"
  by (simp add: jw_fail_def)

lemma flush_failed: "jw_flush env w d = Some (False, w', d') \<Longrightarrow> jw_fd w \<noteq> None \<Longrightarrow> \<not> jw_healthy w'"
  by (auto simp: jw_flush_def bind_eq_Some_conv wrote_def split: if_splits dest!: write_all_wrote)

lemma flush_done: "jw_flush env w d = Some (True, w', d') \<Longrightarrow> jw_fd w' = jw_fd w"
  by (auto simp: jw_flush_def bind_eq_Some_conv wrote_def split: if_splits option.splits dest!: write_all_wrote)

lemma sync_failed:
  assumes "jw_sync env w d = Some (False, w', d')" "jw_fd w \<noteq> None"
  shows "\<not> jw_healthy w'"
proof -
  obtain fd ok w1 d1 where f: "jw_fd w = Some fd" "jw_flush env w d = Some (ok, w1, d1)"
    using assms by (auto simp: jw_sync_def bind_eq_Some_conv)
  show ?thesis
  proof (cases ok)
    case True
    then show ?thesis using assms(1) f by (cases "persist env fd d1") (auto simp: jw_sync_def split: bool.splits)
  next
    case False
    then show ?thesis using assms f flush_failed[of env w d w1 d1] by (simp add: jw_sync_def)
  qed
qed

lemma roll_failed: "roll_segment env w d = Some (False, w', d') \<Longrightarrow> \<not> jw_healthy w'"
proof -
  assume r: "roll_segment env w d = Some (False, w', d')"
  obtain ok w1 d1 where c: "close_segment env w d = Some (ok, w1, d1)"
    using r by (auto simp: roll_segment_def bind_eq_Some_conv)
  have "\<not> ok \<Longrightarrow> \<not> jw_healthy w1"
    using c by (auto simp: close_segment_def bind_eq_Some_conv split: option.splits if_splits prod.splits)
  then show ?thesis using r c
    by (auto simp: roll_segment_def Let_def split: if_splits prod.splits bool.splits)
qed

lemma bind_fails:
  "do { (ok, x, y) \<leftarrow> m; if \<not> ok then Some (False, x, y) else k x y } = Some (False, u, v) \<longleftrightarrow>
   m = Some (False, u, v) \<or> (\<exists>x y. m = Some (True, x, y) \<and> k x y = Some (False, u, v))"
  by (cases m) (auto split: if_splits)

lemma append_failed:
  assumes "jw_append env r now w d = Some (False, w', d')" "jw_fd w \<noteq> None"
  shows "\<not> jw_healthy w'"
proof (cases "jw_healthy w")
  case True
  define w1 where "w1 = buffered r w"
  have fd: "jw_fd w1 \<noteq> None" using assms(2) by (simp add: w1_def buffered_def)
  let ?flush = "if length (jw_buffer w1) \<ge> wc_buffer_bytes (jw_config w1) \<or> sync_due w1 now
    then jw_flush env w1 d else Some (True, w1, d)"
  consider "?flush = Some (False, w', d')" | w2 d2 where "?flush = Some (True, w2, d2)"
      "(if sync_due w1 now then jw_sync env w2 d2 else Some (True, w2, d2)) = Some (False, w', d')"
    | w3 d3 where "(let w4 = (if sync_due w1 now then w3\<lparr>jw_last_sync := now\<rparr> else w3) in
      if jw_segment_size w4 \<ge> wc_segment_bytes (jw_config w4) then roll_segment env w4 d3 else Some (True, w4, d3)) = Some (False, w', d')"
    using assms(1) unfolding append_run[OF True assms(2) w1_def] bind_fails by blast
  then show ?thesis
  proof cases
    case 1
    then show ?thesis using flush_failed[OF _ fd] by (auto split: if_splits)
  next
    case (2 w2 d2)
    then have "jw_fd w2 \<noteq> None" using flush_done[of env w1 d w2 d2] fd by (auto split: if_splits)
    then show ?thesis using 2(2) sync_failed by (auto split: if_splits)
  next
    case (3 w3 d3)
    then show ?thesis using roll_failed unfolding Let_def
      by (metis option.inject prod.inject)
  qed
qed (use assms in \<open>auto simp: jw_append_def\<close>)

lemma append_unhealthy: "\<not> jw_healthy w \<Longrightarrow> jw_append env r now w d = Some (False, w, d)"
  by (simp add: jw_append_def)

section \<open>A run of the engine\<close>

text \<open>Replaying the records \<open>rs\<close> into a new engine gives the state of \<open>e\<close>.\<close>

definition rebuilds :: "Record list \<Rightarrow> Engine \<Rightarrow> bool" where
  "rebuilds rs e \<longleftrightarrow> (\<forall>env clock. \<exists>q. foldM (\<lambda>r. apply_record env (carried r)) rs (Replayer_new MatchingEngine_new clock) = Some q \<and>
     plain (rpl_engine q) \<and> core (rpl_engine q) = core e \<and> eng_sequence (rpl_engine q) = eng_sequence e)"

definition keeps_journal :: "WriterConfig \<Rightarrow> Engine \<Rightarrow> Record list \<Rightarrow> bool" where
  "keeps_journal cf e rs \<longleftrightarrow> (\<exists>w d. eng_journal e = Some (w, d) \<and> jw_config w = cf \<and> log_of w d rs) \<and> numbered 1 rs \<and>
     eng_sequence e = of_nat (length rs) \<and> rebuilds rs e"

lemma rebuilds_step:
  assumes "rebuilds rs e" "replays r e e'"
  shows "rebuilds (rs @ [r]) e'"
  unfolding rebuilds_def
proof (intro allI)
  fix env clock
  obtain q where q: "foldM (\<lambda>r. apply_record env (carried r)) rs (Replayer_new MatchingEngine_new clock) = Some q"
    "plain (rpl_engine q)" "core (rpl_engine q) = core e" using assms(1) by (auto simp: rebuilds_def)
  obtain q' where "apply_record env (carried r) q = Some q'" "plain (rpl_engine q')" "core (rpl_engine q') = core e'"
    "eng_sequence (rpl_engine q') = rec_sequence r" using assms(2) q unfolding replays_def by blast
  moreover have "rec_sequence r = eng_sequence e'" using assms(2) by (simp add: replays_def)
  ultimately show "\<exists>q. foldM (\<lambda>r. apply_record env (carried r)) (rs @ [r]) (Replayer_new MatchingEngine_new clock) = Some q \<and>
      plain (rpl_engine q) \<and> core (rpl_engine q) = core e' \<and> eng_sequence (rpl_engine q) = eng_sequence e'"
    using q(1) by (simp add: foldM_append)
qed

definition healthy :: "Engine \<Rightarrow> bool" where
  "healthy e \<longleftrightarrow> (\<exists>w d. eng_journal e = Some (w, d) \<and> jw_healthy w)"

text \<open>A step with its journal still healthy afterwards: nothing, or one more record.\<close>

lemma step_journal:
  assumes "keeps_journal cf e rs" "engine_step env c now e = Some e'" "command_fits c" "now \<in> i64_range" "healthy e'"
  shows "keeps_journal cf e' rs \<or> (\<exists>r. keeps_journal cf e' (rs @ [r]))"
proof -
  obtain w d where j: "eng_journal e = Some (w, d)" "log_of w d rs" "jw_config w = cf" and k: "numbered 1 rs" "eng_sequence e = of_nat (length rs)" "rebuilds rs e"
    using assms(1) by (auto simp: keeps_journal_def)
  have fd: "jw_fd w \<noteq> None" using j(2) by (auto simp: log_of_def logged_def)
  from step_echoed[OF assms(2) j(1) assms(4,3)] consider
      "core e' = core e" "eng_journal e' = Some (w, d)" "eng_sequence e' = eng_sequence e"
    | r w' d' where "jw_append env r now w d = Some (True, w', d')" "eng_journal e' = Some (w', d')" "replays r e e'"
    | r w' d' where "jw_append env r now w d = Some (False, w', d')" "eng_journal e' = Some (w', d')"
    by (auto simp: echoed_def)
  then show ?thesis
  proof cases
    case 1
    then show ?thesis using j k by (auto simp: keeps_journal_def rebuilds_def)
  next
    case (2 r w' d')
    have "log_of w' d' (rs @ [r])" "jw_config w' = cf" using append_log[OF j(2) 2(1)] j(3) by simp_all
    moreover have "numbered 1 (rs @ [r])" "eng_sequence e' = of_nat (length (rs @ [r]))"
      using k 2(3) by (simp_all add: numbered_append replays_def)
    ultimately show ?thesis using 2(2) rebuilds_step[OF k(3) 2(3)] by (auto simp: keeps_journal_def)
  next
    case (3 r w' d')
    then show ?thesis using append_failed[OF 3(1) fd] assms(5) by (simp add: healthy_def)
  qed
qed

lemma step_unhealthy:
  assumes "eng_journal e = Some (w, d)" "\<not> jw_healthy w" "engine_step env c now e = Some e'" "command_fits c" "now \<in> i64_range"
  shows "eng_journal e' = Some (w, d)"
  using step_echoed[OF assms(3,1,5,4)] append_unhealthy[OF assms(2)] by (auto simp: echoed_def)

lemma step_attached:
  "engine_step env c now e = Some e' \<Longrightarrow> eng_journal e = Some j \<Longrightarrow> command_fits c \<Longrightarrow> now \<in> i64_range \<Longrightarrow> \<exists>w d. eng_journal e' = Some (w, d)"
  using step_echoed[of env c now e e' j] by (auto simp: echoed_def)

lemma run_unhealthy:
  assumes "run_engine env xs e = Some e'" "eng_journal e = Some (w, d)" "\<not> jw_healthy w"
    "\<forall>(c, now) \<in> set xs. command_fits c \<and> now \<in> i64_range"
  shows "eng_journal e' = Some (w, d)"
  using assms
proof (induction env xs e rule: run_engine.induct)
  case (2 env c now xs e)
  obtain e1 where e1: "engine_step env c now e = Some e1" "run_engine env xs e1 = Some e'"
    using "2.prems"(1) by (auto simp: bind_eq_Some_conv)
  then show ?case using "2.IH"[OF e1(1,2) step_unhealthy[OF "2.prems"(2,3) e1(1)]] "2.prems"(3,4) by auto
qed simp

lemma run_journal:
  assumes "run_engine env xs e = Some e'" "keeps_journal cf e rs" "\<forall>(c, now) \<in> set xs. command_fits c \<and> now \<in> i64_range" "healthy e'"
  shows "\<exists>rs'. keeps_journal cf e' (rs @ rs') \<and>
    (\<forall>m \<le> length rs'. \<exists>k \<le> length xs. \<exists>ek. run_engine env (take k xs) e = Some ek \<and> rebuilds (rs @ take m rs') ek)"
  using assms
proof (induction env xs e arbitrary: rs rule: run_engine.induct)
  case (1 env e)
  then have "keeps_journal cf e' (rs @ []) \<and> rebuilds rs e" by (simp add: keeps_journal_def)
  then show ?case by (intro exI[of _ "[]"]) simp
next
  case (2 env c now xs e)
  obtain e1 where e1: "engine_step env c now e = Some e1" "run_engine env xs e1 = Some e'"
    using "2.prems"(1) by (auto simp: bind_eq_Some_conv)
  have fits: "command_fits c" "now \<in> i64_range" "\<forall>(c, now) \<in> set xs. command_fits c \<and> now \<in> i64_range" using "2.prems"(3) by auto
  have h1: "healthy e1"
  proof -
    obtain j where "eng_journal e = Some j" using "2.prems"(2) by (auto simp: keeps_journal_def)
    then obtain w d where wd: "eng_journal e1 = Some (w, d)" using step_attached[OF e1(1) _ fits(1,2)] by blast
    show ?thesis using run_unhealthy[OF e1(2) wd _ fits(3)] "2.prems"(4) wd by (cases "jw_healthy w") (auto simp: healthy_def)
  qed
  have more: "\<exists>k \<le> length ((c, now) # xs). \<exists>ek. run_engine env (take k ((c, now) # xs)) e = Some ek \<and> P ek"
    if p: "\<exists>k \<le> length xs. \<exists>ek. run_engine env (take k xs) e1 = Some ek \<and> P ek" for P
  proof -
    obtain k ek where "k \<le> length xs" "run_engine env (take k xs) e1 = Some ek" "P ek" using p by blast
    then show ?thesis using e1(1) by (intro exI[of _ "Suc k"]) simp
  qed
  from step_journal[OF "2.prems"(2) e1(1) fits(1,2) h1] show ?case
  proof
    assume "keeps_journal cf e1 rs"
    then obtain rs' where "keeps_journal cf e' (rs @ rs')"
      "\<forall>m \<le> length rs'. \<exists>k \<le> length xs. \<exists>ek. run_engine env (take k xs) e1 = Some ek \<and> rebuilds (rs @ take m rs') ek"
      using "2.IH"[OF e1(1,2) _ fits(3) "2.prems"(4)] by blast
    then show ?thesis using more by (intro exI[of _ rs']) blast
  next
    assume "\<exists>r. keeps_journal cf e1 (rs @ [r])"
    then obtain r rs' where r: "keeps_journal cf e' ((rs @ [r]) @ rs')"
      "\<forall>m \<le> length rs'. \<exists>k \<le> length xs. \<exists>ek. run_engine env (take k xs) e1 = Some ek \<and> rebuilds ((rs @ [r]) @ take m rs') ek"
      using "2.IH"[OF e1(1,2) _ fits(3) "2.prems"(4)] by blast
    have "\<exists>k \<le> length ((c, now) # xs). \<exists>ek. run_engine env (take k ((c, now) # xs)) e = Some ek \<and> rebuilds (rs @ take m (r # rs')) ek"
      if m: "m \<le> length (r # rs')" for m
    proof (cases m)
      case 0
      then show ?thesis using "2.prems"(2) by (intro exI[of _ 0]) (simp add: keeps_journal_def)
    next
      case (Suc n)
      then show ?thesis using m more[of "rebuilds ((rs @ [r]) @ take n rs')"] r(2) by simp
    qed
    then show ?thesis using r(1) by (intro exI[of _ "r # rs'"]) simp
  qed
qed

section \<open>Crash and replay\<close>

text \<open>An engine as a venue wires it: any risk engine, kill switch and listeners, and a journal.\<close>

definition live_engine :: "RiskEngine option \<Rightarrow> KillSwitch option \<Rightarrow> nat list \<Rightarrow> JournalWriter \<Rightarrow> Disk \<Rightarrow> Engine" where
  "live_engine risk kill ls w d = fold (\<lambda>l. add_listener (Some l)) ls
     (set_journal (Some (w, d)) (set_kill_switch kill (set_risk_engine risk MatchingEngine_new)))"

lemma live_engine_core: "core (live_engine risk kill ls w d) = core MatchingEngine_new"
proof -
  have "core (fold (\<lambda>l. add_listener (Some l)) ls e) = core e" for e
    by (induction ls arbitrary: e) (simp_all add: add_listener_def core_def)
  then show ?thesis by (simp add: live_engine_def set_journal_def set_kill_switch_def set_risk_engine_def core_def)
qed

lemma prefix_inv:
  "engine_inv e \<Longrightarrow> engine_run_fits env xs e \<Longrightarrow> run_engine env (take k xs) e = Some e' \<Longrightarrow> engine_inv e'"
proof (induction env xs e arbitrary: k rule: run_engine.induct)
  case (2 env c now xs e)
  obtain e1 where "engine_step env c now e = Some e1" "engine_inv e1"
    using engine.step_safe[OF "2.prems"(1), of env "(c, now)"] "2.prems"(2) by auto
  then show ?case using "2.IH"[of e1 "k - 1"] "2.prems" by (cases k) auto
qed simp

lemma live_engine_start:
  assumes "log_of w d []"
  shows "keeps_journal (jw_config w) (live_engine risk kill ls w d) []"
proof -
  have "core (fold (\<lambda>l. add_listener (Some l)) ls e) = core e \<and> eng_journal (fold (\<lambda>l. add_listener (Some l)) ls e) = eng_journal e \<and>
      eng_sequence (fold (\<lambda>l. add_listener (Some l)) ls e) = eng_sequence e" for e
    by (induction ls arbitrary: e) (simp_all add: add_listener_def core_def)
  then show ?thesis using assms
    by (simp add: keeps_journal_def rebuilds_def live_engine_def set_journal_def set_kill_switch_def set_risk_engine_def
      Replayer_new_def plain_def core_def MatchingEngine_new_def)
qed

lemma visit_foldM: "fold (\<lambda>r s. s \<bind> apply_record env (carried r)) rs (Some q) = foldM (\<lambda>r. apply_record env (carried r)) rs q"
proof -
  have "fold (\<lambda>r s. s \<bind> f r) rs (Some q) = foldM f rs q" for f :: "Record \<Rightarrow> Replayer \<Rightarrow> Replayer option"
  proof (induction rs arbitrary: q)
    case (Cons r rs)
    have "fold (\<lambda>r s. s \<bind> f r) rs None = None" by (induction rs) simp_all
    then show ?case using Cons by (cases "f r q") simp_all
  qed simp
  then show ?thesis .
qed

lemma digest_core: "core e = core f \<Longrightarrow> eng_sequence e = eng_sequence f \<Longrightarrow> digest_engine e = digest_engine f"
  by (simp add: digest_engine_def core_def)


section \<open>A system that always answers\<close>

lemma run_working:
  assumes "run_engine env xs e = Some e'" "keeps_journal cf e rs" "\<forall>(c, now) \<in> set xs. command_fits c \<and> now \<in> i64_range"
    "env = (\<lambda>_. Done k)" "0 < k" "eng_journal e = Some (w, d)" "jw_segment_index w + length xs \<le> kMaxSegmentIndex"
  shows "healthy e'"
  using assms
proof (induction env xs e arbitrary: rs w d rule: run_engine.induct)
  case (1 env e)
  then show ?case by (auto simp: keeps_journal_def healthy_def log_of_def logged_def)
next
  case (2 env c now xs e)
  obtain e1 where e1: "engine_step env c now e = Some e1" "run_engine env xs e1 = Some e'"
    using "2.prems"(1) by (auto simp: bind_eq_Some_conv)
  have fits: "command_fits c" "now \<in> i64_range" "\<forall>(c, now) \<in> set xs. command_fits c \<and> now \<in> i64_range" using "2.prems"(3) by auto
  have l: "log_of w d rs" using "2.prems"(2,6) by (auto simp: keeps_journal_def)
  have idx: "jw_segment_index w < kMaxSegmentIndex" using "2.prems"(7) by simp
  obtain w1 d1 where w1: "eng_journal e1 = Some (w1, d1)" "jw_segment_index w1 \<le> Suc (jw_segment_index w)" "jw_healthy w1"
  proof -
    have good: "jw_append env r now w d = Some (ok, w', d') \<Longrightarrow> ok \<and> jw_segment_index w' \<le> Suc (jw_segment_index w) \<and> jw_healthy w'"
      for r ok w' d'
      using append_succeeds[OF "2.prems"(4,5) l idx, of r now] append_log[OF l, of env r now w' d']
      by (auto simp: log_of_def logged_def)
    have h: "jw_healthy w" using l by (auto simp: log_of_def logged_def)
    show ?thesis using step_echoed[OF e1(1) "2.prems"(6) fits(2,1)] good h that unfolding echoed_def by (auto dest: good)
  qed
  then have "healthy e1" by (auto simp: healthy_def)
  then obtain rs' where "keeps_journal cf e1 rs'" using step_journal[OF "2.prems"(2) e1(1) fits(1,2)] by blast
  then show ?case using "2.IH"[OF e1 _ fits(3) "2.prems"(4,5) w1(1)] w1(2) "2.prems"(7) by simp
qed


end
