(* ===== verification/Engine_Properties.thy ===== *)
theory Engine_Properties
  imports Engine_Safety
begin

text \<open>
  What the engine promises its clients: a halt stops new orders and nothing else, only the owner of an
  order can cancel or amend it, and no book changes before its record is in the journal.
\<close>

section \<open>Halts\<close>

text \<open>The same answer, and the same books and journal afterwards.\<close>

definition same_effect :: "('r \<times> Engine) option \<Rightarrow> ('r \<times> Engine) option \<Rightarrow> bool" where
  "same_effect = rel_option (\<lambda>(y, e) (y', e'). y = y' \<and> core e = core e' \<and> eng_journal e = eng_journal e')"

lemma same_effect_simps [simp]:
  "same_effect None None" "same_effect (Some (y, e)) (Some (y', e')) \<longleftrightarrow> y = y' \<and> core e = core e' \<and> eng_journal e = eng_journal e'"
  by (simp_all add: same_effect_def)

lemma kill_field [simp]: "core (e\<lparr>eng_kill := k\<rparr>) = core e"
  by (simp add: core_def)

lemma cancel_ignores_kill: "same_effect (engine_cancel env c now (e\<lparr>eng_kill := k\<rparr>)) (engine_cancel env c now e)"
proof -
  let ?r = "(eng_scratch_record e)\<lparr>rec_type := CancelOrderRecord, rec_sequence := eng_sequence e + 1, rec_timestamp := now, rec_cancel_order := c\<rparr>"
  show ?thesis
    by (cases "eng_books e (co_instrument c)"; cases "find_order (the (eng_books e (co_instrument c))) (co_id c)";
        cases "eng_journal e"; cases "jw_append env ?r now (fst (the (eng_journal e))) (snd (the (eng_journal e)))";
        cases "cancel (the (eng_books e (co_instrument c))) (co_id c)")
      (auto simp: engine_cancel_def book_for_def next_sequence_def journal_command_def Let_def engine_fields core_def set_book_def with_kill_def with_risk_def notify_def
        split: option.split prod.split)
qed

lemma amend_ignores_kill: "same_effect (engine_replace env c now (e\<lparr>eng_kill := k\<rparr>)) (engine_replace env c now e)"
proof -
  let ?b = "the (eng_books e (ro_instrument c))"
  let ?r = "(eng_scratch_record e)\<lparr>rec_type := ReplaceOrderRecord, rec_sequence := eng_sequence e + 1, rec_timestamp := now, rec_replace_order := c\<rparr>"
  have book: "same_effect (replace_in_book c n now x b f) (replace_in_book c n now x b g)"
    if "core f = core g" "eng_journal f = eng_journal g" "eng_fills f = []" "eng_fills g = []" "eng_withdrawals f = []" "eng_withdrawals g = []" for n x b f g
    using that by (cases "replace b (ro_id c) (ro_new_price c) (ro_new_quantity c) n now ([], Some [])"; cases "find_order (snd (snd (the (replace b (ro_id c) (ro_new_price c) (ro_new_quantity c) n now ([], Some []))))) (ro_id c)")
      (auto simp: replace_in_book_def Let_def engine_fields core_def set_book_def with_risk_def notify_def settle_risk_def split: option.split)
  show ?thesis
    by (cases "eng_books e (ro_instrument c)"; cases "find_order ?b (ro_id c)";
        cases "eng_journal e"; cases "jw_append env ?r now (fst (the (eng_journal e))) (snd (the (eng_journal e)))")
      (auto simp: engine_replace_def book_for_def next_sequence_def journal_command_def Let_def core_def with_kill_def
        intro!: book split: option.split prod.split)
qed

text \<open>C27: A halt of the venue or of the account refuses every new order with the reason Halted before it is
  numbered: the books, the risk state, the kill switch, the journal and the sequence number stay as they are and
  the listeners see exactly one rejection.  It does not touch the way out: cancelling and amending give the same
  answer, the same books and the same journal as they would with no kill switch attached.\<close>
theorem halt_stops_submissions:
  assumes "eng_kill e = Some k" "venue_halted k \<or> account_halted k (no_account c)"
    "eng_books e (no_instrument c) = Some b" "id_valid (no_account c)"
  shows "(\<exists>e'. engine_submit env c now e = Some ((SubmitResult_default\<lparr>sr_reject := Halted\<rparr>, 0), e') \<and>
      core e' = core e \<and> eng_risk e' = eng_risk e \<and> eng_kill e' = eng_kill e \<and> eng_journal e' = eng_journal e \<and>
      eng_sequence e' = eng_sequence e \<and>
      eng_events e' = eng_events e @ map (\<lambda>l. (l, OrderRejected 0 c Halted)) (eng_listeners e)) \<and>
    (\<forall>co. same_effect (engine_cancel env co now e) (engine_cancel env co now (e\<lparr>eng_kill := None\<rparr>))) \<and>
    (\<forall>ro. same_effect (engine_replace env ro now e) (engine_replace env ro now (e\<lparr>eng_kill := None\<rparr>)))"
proof (intro conjI allI)
  have blocked: "blocks_new_orders k (no_account c)" using assms(2) by (auto simp: blocks_new_orders_def venue_halted_def)
  show "\<exists>e'. engine_submit env c now e = Some ((SubmitResult_default\<lparr>sr_reject := Halted\<rparr>, 0), e') \<and>
      core e' = core e \<and> eng_risk e' = eng_risk e \<and> eng_kill e' = eng_kill e \<and> eng_journal e' = eng_journal e \<and>
      eng_sequence e' = eng_sequence e \<and>
      eng_events e' = eng_events e @ map (\<lambda>l. (l, OrderRejected 0 c Halted)) (eng_listeners e)"
    using assms blocked
    by (simp add: engine_submit_def book_for_def reject_submit_def notify_def engine_fields core_def concat_map_singleton)
next
  fix co show "same_effect (engine_cancel env co now e) (engine_cancel env co now (e\<lparr>eng_kill := None\<rparr>))"
    using cancel_ignores_kill[of env co now "eng_kill e" "e\<lparr>eng_kill := None\<rparr>"] by simp
next
  fix ro show "same_effect (engine_replace env ro now e) (engine_replace env ro now (e\<lparr>eng_kill := None\<rparr>))"
    using amend_ignores_kill[of env ro now "eng_kill e" "e\<lparr>eng_kill := None\<rparr>"] by simp
qed

text \<open>The engine of the examples: the demonstration book as instrument 1.\<close>

definition demo_engine :: Engine where
  "demo_engine = MatchingEngine_new\<lparr>eng_books := [1 \<mapsto> demo_book], eng_symbols := [''XC'' \<mapsto> 1], eng_instrument_order := [1],
     eng_kill := Some (halt_venue HaltManual 5 KillSwitch_new)\<rparr>"

lemma demo_engine_inv: "engine_inv demo_engine" "eng_books demo_engine 1 = Some demo_book"
proof -
  have "book_ok 1 demo_book" using demo_inv by (auto simp: book_ok_def demo_spec_def demo_ins_def)
  moreover have "bk_instrument demo_book = demo_ins" using book_queries(9)[OF demo_inv] by (simp add: demo_spec_def)
  ultimately show "engine_inv demo_engine" by (simp add: engine_inv_def demo_engine_def demo_ins_def)
  show "eng_books demo_engine 1 = Some demo_book" by (simp add: demo_engine_def)
qed

theorem halt_stops_submissions_witness:
  "(\<exists>e'. engine_submit (\<lambda>_. Done 0) demo_new 9 demo_engine = Some ((SubmitResult_default\<lparr>sr_reject := Halted\<rparr>, 0), e')) \<and>
   id_valid (no_account demo_new) \<and>
   (\<forall>co. same_effect (engine_cancel (\<lambda>_. Done 0) co 9 demo_engine) (engine_cancel (\<lambda>_. Done 0) co 9 (demo_engine\<lparr>eng_kill := None\<rparr>)))"
  using halt_stops_submissions[of demo_engine "halt_venue HaltManual 5 KillSwitch_new" demo_new demo_book "\<lambda>_. Done 0" 9]
  by (auto simp: demo_engine_def demo_new_def halt_venue_def venue_halted_def id_valid_def NewOrder_default_def)

section \<open>Ownership\<close>

text \<open>C28: An account can cancel or amend only its own orders.  When no resting order has both the given id and
  the given account, cancelling and amending are refused with UnknownOrder, whether the id is free or belongs to
  someone else, and change nothing: no book, no risk or halt state, no journal record, no sequence number, no event.\<close>
theorem owner_only:
  assumes "engine_inv e" "eng_books e i = Some b" "\<forall>x. find_order b oid = Some (Some x) \<longrightarrow> ord_account x \<noteq> a"
    "co_instrument co = i" "co_id co = oid" "co_account co = a" "ro_instrument ro = i" "ro_id ro = oid" "ro_account ro = a"
  shows "engine_cancel env co now e =
      Some ((CancelResult_default\<lparr>cr_reject := UnknownOrder\<rparr>, 0), e\<lparr>eng_fills := [], eng_withdrawals := []\<rparr>) \<and>
    engine_replace env ro now e =
      Some ((ReplaceResult_default\<lparr>rr_reject := UnknownOrder\<rparr>, 0), e\<lparr>eng_fills := [], eng_withdrawals := []\<rparr>)"
proof -
  obtain f where "find_order b oid = Some f" using find_ok[OF engine_inv_book[OF assms(1,2)], of oid] by blast
  then show ?thesis using assms(2-) by (cases f) (simp_all add: engine_cancel_def engine_replace_def book_for_def)
qed

theorem owner_only_witness:
  "find_order demo_book 2 = Some (Some (demo_resting 2 Sell 10 7 7)) \<and> ord_account (demo_resting 2 Sell 10 7 7) \<noteq> 99 \<and>
   engine_cancel (\<lambda>_. Done 0) \<lparr>co_id = 2, co_account = 99, co_instrument = 1\<rparr> 9 demo_engine =
     Some ((CancelResult_default\<lparr>cr_reject := UnknownOrder\<rparr>, 0), demo_engine\<lparr>eng_fills := [], eng_withdrawals := []\<rparr>)"
proof -
  let ?x = "demo_resting 2 Sell 10 7 7"
  have "a_find demo_spec 2 = Some ?x" "ord_account ?x \<noteq> 99" by code_simp+
  moreover from this have "find_order demo_book 2 = Some (Some ?x)" using book_queries(2)[OF demo_inv] by simp
  ultimately show ?thesis
    using owner_only[OF demo_engine_inv, of 2 99 "\<lparr>co_id = 2, co_account = 99, co_instrument = 1\<rparr>"
      "\<lparr>ro_id = 2, ro_account = 99, ro_instrument = 1, ro_new_price = 10, ro_new_quantity = 1\<rparr>" "\<lambda>_. Done 0" 9] by simp
qed

section \<open>Write-ahead logging\<close>

definition logged_first :: "Env \<Rightarrow> EngineCommand \<Rightarrow> Nanos \<Rightarrow> Engine \<Rightarrow> Engine \<Rightarrow> bool" where
  "logged_first env c now e e' \<longleftrightarrow> (\<exists>r w d ok w' d'. command_of r = c \<and> rec_sequence r = eng_sequence e + 1 \<and> rec_timestamp r = now \<and>
     eng_journal e = Some (w, d) \<and> jw_append env r now w d = Some (ok, w', d') \<and> eng_journal e' = Some (w', d') \<and>
     (ok \<or> core e' = core e \<and> (rec_type r = InstrumentDefined \<or> (\<forall>k \<in> set_option (eng_kill e'). venue_halted k))))"

lemma numbering_logged:
  assumes "numbering env now r e e1 ok e3" "eng_journal e = Some j" "command_of r = c" "eng_journal e' = eng_journal e3"
    "\<not> ok \<Longrightarrow> core e' = core e3 \<and> eng_kill e' = eng_kill e3"
  shows "logged_first env c now e e'"
proof -
  from assms(1,2) obtain w' d' where j: "jw_append env r now (fst j) (snd j) = Some (ok, w', d')" "eng_journal e3 = Some (w', d')" "core e3 = core e"
    by (rule numberingE)
  have "\<not> ok \<Longrightarrow> \<forall>k \<in> set_option (eng_kill e3). venue_halted k"
    using assms(1,2) by (cases j) (auto simp: numbering_def journal_command_def Let_def bind_eq_Some_conv with_kill_def
      venue_halted_def halt_venue_def option.set_map split: if_splits)
  then have "ok \<or> core e' = core e \<and> (\<forall>k \<in> set_option (eng_kill e'). venue_halted k)" using assms(5) j(3) by auto
  then show ?thesis using assms(1-4) j(1,2) unfolding logged_first_def numbering_def by (metis prod.collapse)
qed

lemma journaled_logged:
  assumes "journaled env now mk K e = Some e'" "eng_journal e = Some j"
    "\<And>n s. rec_sequence (mk n s) = n \<and> rec_timestamp (mk n s) = now \<and> command_of (mk n s) = c"
    "\<And>n f f'. K n f = Some f' \<Longrightarrow> eng_fills f = [] \<Longrightarrow> eng_withdrawals f = [] \<Longrightarrow> eng_journal f' = eng_journal f"
  shows "logged_first env c now e e'"
proof -
  let ?n = "eng_sequence e + 1"
  define r where "r = mk ?n (eng_scratch_record e)"
  obtain ok e3 where e3: "numbering env now r e (e\<lparr>eng_fills := [], eng_withdrawals := []\<rparr>) ok e3"
    "if ok then K ?n e3 = Some e' else e' = e3"
    using assms(1,3) by (auto simp: journaled_def Let_def numbering_def engine_fields r_def bind_eq_Some_conv split: if_splits)
  moreover have "ok \<Longrightarrow> eng_journal e' = eng_journal e3"
    using numberingE[OF e3(1) assms(2)] e3(2) assms(4)[of ?n e3 e'] by (metis (full_types))
  ultimately show ?thesis using assms(3) by (intro numbering_logged[OF e3(1) assms(2)]) (auto simp: r_def split: if_splits)
qed

lemma submit_logged:
  assumes "engine_submit env c now e = Some (y, e')" "eng_journal e = Some j"
  shows "core e' = core e \<and> eng_journal e' = Some j \<and> eng_sequence e' = eng_sequence e \<or> logged_first env (SubmitOrder c) now e e'"
  using assms(1)
proof (cases rule: submit_cases)
  case (numbered r e1 ok e3 b)
  have e3: "eng_fills e3 = []" "eng_withdrawals e3 = []" using numberingE[OF numbered(1) assms(2)] by metis+
  have "eng_journal e' = eng_journal e3"
    using numbered(6) submit_to_book_core[OF _ e3, of c "eng_sequence e + 1" now b y e'] by (cases ok) (auto simp: reject_submit_def engine_fields)
  moreover have "\<not> ok \<Longrightarrow> core e' = core e3 \<and> eng_kill e' = eng_kill e3"
    using numbered(6) by (simp add: reject_submit_def engine_fields notify_def core_def)
  ultimately have "logged_first env (SubmitOrder c) now e e'"
    using numbered(2,3) by (intro numbering_logged[OF numbered(1) assms(2)]) (auto simp: command_of_def)
  then show ?thesis by blast
qed (use assms(2) in simp)

lemma define_logged:
  assumes "add_instrument env ins now e = Some (y, e')" "eng_journal e = Some j"
  shows "e' = e \<or> logged_first env (DefineInstrument ins) now e e'"
proof (cases "\<not> id_valid (ins_id ins) \<or> ins_symbol ins = [] \<or> eng_books e (ins_id ins) \<noteq> None \<or> eng_symbols e (ins_symbol ins) \<noteq> None")
  case True
  then show ?thesis using define_idle[OF True] assms(1) by simp
next
  case False
  define r where "r = Record_default\<lparr>rec_type := InstrumentDefined, rec_sequence := eng_sequence e + 1, rec_timestamp := now, rec_instrument := ins\<rparr>"
  obtain ok w' d' where a: "jw_append env r now (fst j) (snd j) = Some (ok, w', d')" "eng_journal e' = Some (w', d')" "ok \<or> core e' = core e"
    using assms False
    by (cases j) (auto simp: add_instrument_def next_sequence_def Let_def bind_eq_Some_conv r_def core_def split: if_splits)
  moreover have "command_of r = DefineInstrument ins" "rec_sequence r = eng_sequence e + 1" "rec_timestamp r = now" "rec_type r = InstrumentDefined"
    by (simp_all add: r_def command_of_def)
  ultimately show ?thesis using assms(2) unfolding logged_first_def by (metis prod.collapse)
qed

lemma cancel_logged:
  assumes "engine_step env (CancelResting c) now e = Some e'" "eng_journal e = Some j"
  shows "core e' = core e \<and> eng_journal e' = Some j \<and> eng_sequence e' = eng_sequence e \<or> logged_first env (CancelResting c) now e e'"
proof (cases "\<exists>b x. eng_books e (co_instrument c) = Some b \<and> find_order b (co_id c) = Some (Some x) \<and> ord_account x = co_account c")
  case False
  then show ?thesis using assms
    by (auto simp: engine_step_def engine_cancel_def book_for_def bind_eq_Some_conv Let_def engine_fields split: option.splits if_splits)
next
  case True
  then obtain b x where "eng_books e (co_instrument c) = Some b" "find_order b (co_id c) = Some (Some x)" "ord_account x = co_account c" by blast
  note assms(1)[unfolded cancel_run[OF this]]
  then show ?thesis using assms(2)
    by (intro disjI2, elim journaled_logged) (auto simp: command_of_def dest: cancel_in_book_core)
qed

lemma amend_logged:
  assumes "engine_step env (AmendResting c) now e = Some e'" "eng_journal e = Some j"
  shows "core e' = core e \<and> eng_journal e' = Some j \<and> eng_sequence e' = eng_sequence e \<or> logged_first env (AmendResting c) now e e'"
proof (cases "\<exists>b x. eng_books e (ro_instrument c) = Some b \<and> find_order b (ro_id c) = Some (Some x) \<and> ord_account x = ro_account c")
  case False
  then show ?thesis using assms
    by (auto simp: engine_step_def engine_replace_def book_for_def bind_eq_Some_conv Let_def engine_fields split: option.splits if_splits)
next
  case True
  then obtain b x where "eng_books e (ro_instrument c) = Some b" "find_order b (ro_id c) = Some (Some x)" "ord_account x = ro_account c" by blast
  note assms(1)[unfolded amend_run[OF this]]
  then show ?thesis using assms(2)
    by (intro disjI2, elim journaled_logged) (auto simp: command_of_def dest: amend_in_book_core)
qed

text \<open>C9: Write-ahead logging.  A command on an engine with a journal either leaves the books, the journal and the
  sequence number as they are, or appends exactly one record that holds this command, the next sequence number and
  the time of the call.  When that append fails no book changes, and if the command concerned an order the venue is
  halted.\<close>
theorem write_ahead:
  assumes "engine_step env c now e = Some e'" "eng_journal e = Some (w, d)"
  shows "core e' = core e \<and> eng_journal e' = Some (w, d) \<and> eng_sequence e' = eng_sequence e \<or>
    (\<exists>r ok w' d'. command_of r = c \<and> rec_sequence r = eng_sequence e + 1 \<and> rec_timestamp r = now \<and>
       jw_append env r now w d = Some (ok, w', d') \<and> eng_journal e' = Some (w', d') \<and>
       (ok \<or> core e' = core e \<and> (rec_type r = InstrumentDefined \<or> eng_kill e' = None \<or> venue_halted (the (eng_kill e')))))"
proof -
  have "core e' = core e \<and> eng_journal e' = Some (w, d) \<and> eng_sequence e' = eng_sequence e \<or> logged_first env c now e e'"
  proof (cases c)
    case (SubmitOrder no)
    then obtain y where "engine_submit env no now e = Some (y, e')" using assms(1) by (auto simp: engine_step_def)
    then show ?thesis using submit_logged[OF _ assms(2)] SubmitOrder by simp
  next
    case (DefineInstrument ins)
    then obtain y where "add_instrument env ins now e = Some (y, e')" using assms(1) by (auto simp: engine_step_def)
    from define_logged[OF this assms(2)] show ?thesis using DefineInstrument assms(2) by auto
  qed (use assms cancel_logged amend_logged in simp_all)
  moreover have "\<forall>k \<in> set_option (eng_kill e'). venue_halted k \<Longrightarrow> eng_kill e' = None \<or> venue_halted (the (eng_kill e'))"
    by (cases "eng_kill e'") auto
  ultimately show ?thesis using assms(2) by (auto simp: logged_first_def)
qed

theorem write_ahead_witness:
  "\<exists>w d e'. engine_step demo_env (DefineInstrument demo_ins) 7 (MatchingEngine_new\<lparr>eng_journal := Some (w, d)\<rparr>) = Some e' \<and>
     (\<exists>r ok w' d'. command_of r = DefineInstrument demo_ins \<and> rec_sequence r = 1 \<and> rec_timestamp r = 7 \<and>
       jw_append demo_env r 7 w d = Some (ok, w', d') \<and> eng_journal e' = Some (w', d'))"
proof -
  obtain w d where o: "log_of w d []" "jw_segment_index w = 1" by (rule demo_opened)
  define e where "e = MatchingEngine_new\<lparr>eng_journal := Some (w, d)\<rparr>"
  define r where "r = Record_default\<lparr>rec_type := InstrumentDefined, rec_sequence := 1, rec_timestamp := 7, rec_instrument := demo_ins\<rparr>"
  obtain w' d' where a: "jw_append demo_env r 7 w d = Some (True, w', d')"
    using append_succeeds[OF refl _ o(1), of 7 r 7] o(2) by (auto simp: kMaxSegmentIndex_def)
  have "engine_inv e" by (rule engine_inv_new) (simp add: e_def core_def)
  then obtain e' where e': "engine_step demo_env (DefineInstrument demo_ins) 7 e = Some e'"
    using engine.step_safe[of e demo_env "(DefineInstrument demo_ins, 7)"]
    by (auto simp: engine_fits_def progress_def demo_ins_def Instrument_default_def)
  have ins: "id_valid (ins_id demo_ins)" "ins_symbol demo_ins \<noteq> []" by (simp_all add: demo_ins_def id_valid_def)
  have "eng_sequence e' = 1"
    using a e' ins by (auto simp: engine_step_def add_instrument_def e_def next_sequence_def bind_eq_Some_conv Let_def r_def
      MatchingEngine_new_def split: if_splits)
  then have "eng_sequence e' \<noteq> eng_sequence e" by (simp add: e_def MatchingEngine_new_def)
  moreover have "eng_journal e = Some (w, d)" "eng_sequence e + 1 = 1" by (simp_all add: e_def MatchingEngine_new_def)
  ultimately have "\<exists>r ok w' d'. command_of r = DefineInstrument demo_ins \<and> rec_sequence r = 1 \<and> rec_timestamp r = 7 \<and>
      jw_append demo_env r 7 w d = Some (ok, w', d') \<and> eng_journal e' = Some (w', d')"
    using write_ahead[OF e', of w d] by metis
  then show ?thesis using e' unfolding e_def by blast
qed

end
