(* ===== verification/Protocol_Messages.thy ===== *)
theory Protocol_Messages
  imports Journal_Record
begin

text \<open>
  The wire protocol (\<open>include/xc/protocol/messages.hpp\<close>, \<open>src/protocol/messages.cpp\<close>): the framed
  encoders with their back-patched length, and the decoder that frames a byte stream.
\<close>

section \<open>Message types\<close>

datatype MessageType =
    MsgNewOrder | MsgCancelOrder | MsgReplaceOrder
  | MsgOrderAccepted | MsgOrderRejected | MsgOrderCancelled | MsgOrderReplaced | MsgExecution
  | MsgTrade | MsgTopOfBook | MsgDepthSnapshot | MsgHeartbeat

fun message_type_byte :: "MessageType \<Rightarrow> u8" where
  "message_type_byte MsgNewOrder = 1" | "message_type_byte MsgCancelOrder = 2" | "message_type_byte MsgReplaceOrder = 3"
| "message_type_byte MsgOrderAccepted = 16" | "message_type_byte MsgOrderRejected = 17"
| "message_type_byte MsgOrderCancelled = 18" | "message_type_byte MsgOrderReplaced = 19"
| "message_type_byte MsgExecution = 20" | "message_type_byte MsgTrade = 32" | "message_type_byte MsgTopOfBook = 33"
| "message_type_byte MsgDepthSnapshot = 34" | "message_type_byte MsgHeartbeat = 48"

definition message_types :: "MessageType list" where
  "message_types = [MsgNewOrder, MsgCancelOrder, MsgReplaceOrder, MsgOrderAccepted, MsgOrderRejected, MsgOrderCancelled,
     MsgOrderReplaced, MsgExecution, MsgTrade, MsgTopOfBook, MsgDepthSnapshot, MsgHeartbeat]"

definition is_known_message :: "u8 \<Rightarrow> bool" where
  "is_known_message t \<longleftrightarrow> t \<in> set (map message_type_byte message_types)"

text \<open>\<open>static_cast\<close> of a known byte.\<close>

definition message_type_of_byte :: "u8 \<Rightarrow> MessageType" where
  "message_type_of_byte b = (case find (\<lambda>t. message_type_byte t = b) message_types of None \<Rightarrow> MsgHeartbeat | Some t \<Rightarrow> t)"

fun reason_byte :: "RejectReason \<Rightarrow> u8" where
  "reason_byte RejectNone = 0" | "reason_byte UnknownInstrument = 1" | "reason_byte UnknownOrder = 2"
| "reason_byte DuplicateOrderId = 3" | "reason_byte InvalidPrice = 4" | "reason_byte InvalidQuantity = 5"
| "reason_byte InvalidSide = 6" | "reason_byte FillOrKillUnfillable = 7" | "reason_byte PostOnlyWouldCross = 8"
| "reason_byte SelfTrade = 9" | "reason_byte RiskLimit = 10" | "reason_byte PriceCollar = 11"
| "reason_byte Halted = 12" | "reason_byte RateLimit = 13"

definition reject_reasons :: "RejectReason list" where
  "reject_reasons = [RejectNone, UnknownInstrument, UnknownOrder, DuplicateOrderId, InvalidPrice, InvalidQuantity,
     InvalidSide, FillOrKillUnfillable, PostOnlyWouldCross, SelfTrade, RiskLimit, PriceCollar, Halted, RateLimit]"

definition reason_of_byte :: "u8 \<Rightarrow> RejectReason" where
  "reason_of_byte b = (case find (\<lambda>t. reason_byte t = b) reject_reasons of None \<Rightarrow> RejectNone | Some t \<Rightarrow> t)"

definition kProtocolVersion :: u8 where
  "kProtocolVersion = 1"

definition frame_size :: nat where
  "frame_size = 12"

definition frame_max_payload :: u16 where
  "frame_max_payload = 8192"

definition kMaxDepthLevels :: u16 where
  "kMaxDepthLevels = 256"

section \<open>Payload members\<close>

record OrderAck =
  ack_order :: OrderId
  ack_account :: AccountId
  ack_instrument :: InstrumentId
  ack_filled :: Quantity
  ack_remaining :: Quantity
  ack_timestamp :: Nanos

record OrderReject =
  rej_order :: OrderId
  rej_account :: AccountId
  rej_reason :: RejectReason
  rej_timestamp :: Nanos

definition OrderAck_default :: OrderAck where
  "OrderAck_default = \<lparr>ack_order = 0, ack_account = 0, ack_instrument = 0, ack_filled = 0, ack_remaining = 0, ack_timestamp = 0\<rparr>"

definition OrderReject_default :: OrderReject where
  "OrderReject_default = \<lparr>rej_order = 0, rej_account = 0, rej_reason = RejectNone, rej_timestamp = 0\<rparr>"

definition Fill_default :: Fill where
  "Fill_default = \<lparr>fill_id = 0, fill_instrument = 0, fill_price = kNoPrice, fill_quantity = 0, fill_aggressor_order = 0,
     fill_resting_order = 0, fill_aggressor_account = 0, fill_resting_account = 0, fill_aggressor_side = Buy,
     fill_resting_filled = False, fill_timestamp = 0\<rparr>"

definition TopOfBook_default :: TopOfBook where
  "TopOfBook_default = \<lparr>top_instrument = 0, top_sequence = 0, top_bid_price = kNoPrice, top_ask_price = kNoPrice,
     top_bid_quantity = 0, top_ask_quantity = 0\<rparr>"

definition DepthSnapshot_default :: DepthSnapshot where
  "DepthSnapshot_default = \<lparr>ds_instrument = 0, ds_sequence = 0, ds_bids = [], ds_asks = []\<rparr>"

definition depth_clear :: "DepthSnapshot \<Rightarrow> DepthSnapshot" where
  "depth_clear d = d\<lparr>ds_bids := [], ds_asks := []\<rparr>"

record Message =
  msg_type :: MessageType
  msg_sequence :: SeqNum
  msg_new_order :: NewOrder
  msg_cancel_order :: CancelOrder
  msg_replace_order :: ReplaceOrder
  msg_ack :: OrderAck
  msg_reject :: OrderReject
  msg_fill :: Fill
  msg_top_of_book :: TopOfBook
  msg_depth :: DepthSnapshot

definition Message_default :: Message where
  "Message_default = \<lparr>msg_type = MsgHeartbeat, msg_sequence = 0, msg_new_order = NewOrder_default,
     msg_cancel_order = CancelOrder_default, msg_replace_order = ReplaceOrder_default, msg_ack = OrderAck_default,
     msg_reject = OrderReject_default, msg_fill = Fill_default, msg_top_of_book = TopOfBook_default,
     msg_depth = DepthSnapshot_default\<rparr>"

section \<open>Encoding\<close>

definition begin_frame :: "MessageType \<Rightarrow> SeqNum \<Rightarrow> u8 list \<Rightarrow> nat \<times> u8 list" where
  "begin_frame t sequence out =
     (length out, (bw_u64 sequence \<circ> bw_u8 kProtocolVersion \<circ> bw_u8 (message_type_byte t) \<circ> bw_u16 0) out)"

definition end_frame :: "nat \<Rightarrow> u8 list \<Rightarrow> u8 list option" where
  "end_frame start out = do {
     let payload = (of_nat (length out - start - frame_size) :: u64);
     out \<leftarrow> vset out start (ucast (payload AND 0xFF));
     vset out (start + 1) (ucast (drop_bit 8 payload AND 0xFF))
   }"

text \<open>Every encoder opens a frame, writes its payload and closes the frame.\<close>

definition framed :: "MessageType \<Rightarrow> SeqNum \<Rightarrow> (u8 list \<Rightarrow> u8 list) \<Rightarrow> u8 list \<Rightarrow> u8 list option" where
  "framed t sequence write out = (case begin_frame t sequence out of (start, out) \<Rightarrow> end_frame start (write out))"

definition write_fill :: "Fill \<Rightarrow> u8 list \<Rightarrow> u8 list" where
  "write_fill f = bw_i64 (fill_timestamp f) \<circ> bw_boolean (fill_resting_filled f) \<circ>
     bw_u8 (side_byte (fill_aggressor_side f)) \<circ> bw_u64 (fill_resting_account f) \<circ> bw_u64 (fill_aggressor_account f) \<circ>
     bw_u64 (fill_resting_order f) \<circ> bw_u64 (fill_aggressor_order f) \<circ> bw_u64 (fill_quantity f) \<circ>
     bw_i64 (fill_price f) \<circ> bw_u64 (fill_instrument f) \<circ> bw_u64 (fill_id f)"

definition write_ack :: "OrderAck \<Rightarrow> u8 list \<Rightarrow> u8 list" where
  "write_ack a = bw_i64 (ack_timestamp a) \<circ> bw_u64 (ack_remaining a) \<circ> bw_u64 (ack_filled a) \<circ>
     bw_u64 (ack_instrument a) \<circ> bw_u64 (ack_account a) \<circ> bw_u64 (ack_order a)"

definition encode_new_order :: "SeqNum \<Rightarrow> NewOrder \<Rightarrow> u8 list \<Rightarrow> u8 list option" where
  "encode_new_order sequence c = framed MsgNewOrder sequence
     (bw_u64 (no_quantity c) \<circ> bw_i64 (no_price c) \<circ> bw_boolean (no_post_only c) \<circ> bw_u8 (tif_byte (no_tif c)) \<circ>
      bw_u8 (type_byte (no_type c)) \<circ> bw_u8 (side_byte (no_side c)) \<circ> bw_u64 (no_instrument c) \<circ>
      bw_u64 (no_account c) \<circ> bw_u64 (no_id c))"

definition encode_cancel :: "SeqNum \<Rightarrow> CancelOrder \<Rightarrow> u8 list \<Rightarrow> u8 list option" where
  "encode_cancel sequence c = framed MsgCancelOrder sequence
     (bw_u64 (co_instrument c) \<circ> bw_u64 (co_account c) \<circ> bw_u64 (co_id c))"

definition encode_replace :: "SeqNum \<Rightarrow> ReplaceOrder \<Rightarrow> u8 list \<Rightarrow> u8 list option" where
  "encode_replace sequence c = framed MsgReplaceOrder sequence
     (bw_u64 (ro_new_quantity c) \<circ> bw_i64 (ro_new_price c) \<circ> bw_u64 (ro_instrument c) \<circ> bw_u64 (ro_account c) \<circ>
      bw_u64 (ro_id c))"

definition encode_ack_as :: "SeqNum \<Rightarrow> MessageType \<Rightarrow> OrderAck \<Rightarrow> u8 list \<Rightarrow> u8 list option" where
  "encode_ack_as sequence t a = framed t sequence (write_ack a)"

definition encode_accepted :: "SeqNum \<Rightarrow> OrderAck \<Rightarrow> u8 list \<Rightarrow> u8 list option" where
  "encode_accepted sequence = encode_ack_as sequence MsgOrderAccepted"

definition encode_cancelled :: "SeqNum \<Rightarrow> OrderAck \<Rightarrow> u8 list \<Rightarrow> u8 list option" where
  "encode_cancelled sequence = encode_ack_as sequence MsgOrderCancelled"

definition encode_replaced :: "SeqNum \<Rightarrow> OrderAck \<Rightarrow> u8 list \<Rightarrow> u8 list option" where
  "encode_replaced sequence = encode_ack_as sequence MsgOrderReplaced"

definition encode_rejected :: "SeqNum \<Rightarrow> OrderReject \<Rightarrow> u8 list \<Rightarrow> u8 list option" where
  "encode_rejected sequence rj = framed MsgOrderRejected sequence
     (bw_i64 (rej_timestamp rj) \<circ> bw_u8 (reason_byte (rej_reason rj)) \<circ> bw_u64 (rej_account rj) \<circ> bw_u64 (rej_order rj))"

definition encode_execution :: "SeqNum \<Rightarrow> Fill \<Rightarrow> u8 list \<Rightarrow> u8 list option" where
  "encode_execution sequence f = framed MsgExecution sequence (write_fill f)"

definition encode_trade :: "SeqNum \<Rightarrow> Fill \<Rightarrow> u8 list \<Rightarrow> u8 list option" where
  "encode_trade sequence f = framed MsgTrade sequence (write_fill f)"

definition encode_top_of_book :: "SeqNum \<Rightarrow> TopOfBook \<Rightarrow> u8 list \<Rightarrow> u8 list option" where
  "encode_top_of_book sequence t = framed MsgTopOfBook sequence
     (bw_u64 (top_ask_quantity t) \<circ> bw_i64 (top_ask_price t) \<circ> bw_u64 (top_bid_quantity t) \<circ>
      bw_i64 (top_bid_price t) \<circ> bw_u64 (top_instrument t))"

definition write_level :: "DepthLevel \<Rightarrow> u8 list \<Rightarrow> u8 list" where
  "write_level l = bw_u32 (dl_order_count l) \<circ> bw_u64 (dl_quantity l) \<circ> bw_i64 (dl_price l)"

definition write_side :: "DepthLevel list \<Rightarrow> u8 list \<Rightarrow> u8 list" where
  "write_side levels out =
     (let count = min (length levels) (unat kMaxDepthLevels)
      in fold write_level (take count levels) (bw_u16 (of_nat count) out))"

definition encode_depth :: "SeqNum \<Rightarrow> DepthSnapshot \<Rightarrow> u8 list \<Rightarrow> u8 list option" where
  "encode_depth sequence d = framed MsgDepthSnapshot sequence
     (write_side (ds_asks d) \<circ> write_side (ds_bids d) \<circ> bw_u64 (ds_instrument d))"

definition encode_heartbeat :: "SeqNum \<Rightarrow> u8 list \<Rightarrow> u8 list option" where
  "encode_heartbeat sequence = framed MsgHeartbeat sequence (\<lambda>out. out)"

section \<open>Decoding\<close>

definition read_fill :: "Fill \<Rightarrow> ByteReader \<Rightarrow> (Fill \<times> ByteReader) option" where
  "read_fill f r = do {
     (tid, r) \<leftarrow> rd_u64 r;
     (instrument, r) \<leftarrow> rd_u64 r;
     (price, r) \<leftarrow> rd_i64 r;
     (quantity, r) \<leftarrow> rd_u64 r;
     (aggressor_order, r) \<leftarrow> rd_u64 r;
     (resting_order, r) \<leftarrow> rd_u64 r;
     (aggressor_account, r) \<leftarrow> rd_u64 r;
     (resting_account, r) \<leftarrow> rd_u64 r;
     (aggressor_side, r) \<leftarrow> rd_enumeration side_of_byte (side_byte Sell) r;
     (resting_filled, r) \<leftarrow> rd_boolean r;
     (timestamp, r) \<leftarrow> rd_i64 r;
     Some (f\<lparr>fill_id := tid, fill_instrument := instrument, fill_price := price, fill_quantity := quantity,
       fill_aggressor_order := aggressor_order, fill_resting_order := resting_order,
       fill_aggressor_account := aggressor_account, fill_resting_account := resting_account,
       fill_aggressor_side := aggressor_side, fill_resting_filled := resting_filled, fill_timestamp := timestamp\<rparr>, r)
   }"

definition read_ack :: "OrderAck \<Rightarrow> ByteReader \<Rightarrow> (OrderAck \<times> ByteReader) option" where
  "read_ack a r = do {
     (order, r) \<leftarrow> rd_u64 r;
     (account, r) \<leftarrow> rd_u64 r;
     (instrument, r) \<leftarrow> rd_u64 r;
     (filled, r) \<leftarrow> rd_u64 r;
     (remaining, r) \<leftarrow> rd_u64 r;
     (timestamp, r) \<leftarrow> rd_i64 r;
     Some (a\<lparr>ack_order := order, ack_account := account, ack_instrument := instrument, ack_filled := filled,
       ack_remaining := remaining, ack_timestamp := timestamp\<rparr>, r)
   }"

definition read_new_order :: "NewOrder \<Rightarrow> ByteReader \<Rightarrow> (NewOrder \<times> ByteReader) option" where
  "read_new_order c r = do {
     (oid, r) \<leftarrow> rd_u64 r;
     (account, r) \<leftarrow> rd_u64 r;
     (instrument, r) \<leftarrow> rd_u64 r;
     (side, r) \<leftarrow> rd_enumeration side_of_byte (side_byte Sell) r;
     (type, r) \<leftarrow> rd_enumeration type_of_byte (type_byte Market) r;
     (tif, r) \<leftarrow> rd_enumeration tif_of_byte (tif_byte GoodTilCancelled) r;
     (post_only, r) \<leftarrow> rd_boolean r;
     (price, r) \<leftarrow> rd_i64 r;
     (quantity, r) \<leftarrow> rd_u64 r;
     Some (c\<lparr>no_id := oid, no_account := account, no_instrument := instrument, no_side := side, no_type := type,
       no_tif := tif, no_post_only := post_only, no_price := price, no_quantity := quantity\<rparr>, r)
   }"

definition read_cancel :: "CancelOrder \<Rightarrow> ByteReader \<Rightarrow> (CancelOrder \<times> ByteReader) option" where
  "read_cancel c r = do {
     (oid, r) \<leftarrow> rd_u64 r;
     (account, r) \<leftarrow> rd_u64 r;
     (instrument, r) \<leftarrow> rd_u64 r;
     Some (c\<lparr>co_id := oid, co_account := account, co_instrument := instrument\<rparr>, r)
   }"

definition read_replace :: "ReplaceOrder \<Rightarrow> ByteReader \<Rightarrow> (ReplaceOrder \<times> ByteReader) option" where
  "read_replace c r = do {
     (oid, r) \<leftarrow> rd_u64 r;
     (account, r) \<leftarrow> rd_u64 r;
     (instrument, r) \<leftarrow> rd_u64 r;
     (price, r) \<leftarrow> rd_i64 r;
     (quantity, r) \<leftarrow> rd_u64 r;
     Some (c\<lparr>ro_id := oid, ro_account := account, ro_instrument := instrument, ro_new_price := price,
       ro_new_quantity := quantity\<rparr>, r)
   }"

definition read_reject :: "OrderReject \<Rightarrow> ByteReader \<Rightarrow> (OrderReject \<times> ByteReader) option" where
  "read_reject c r = do {
     (order, r) \<leftarrow> rd_u64 r;
     (account, r) \<leftarrow> rd_u64 r;
     (reason, r) \<leftarrow> rd_enumeration reason_of_byte (reason_byte RateLimit) r;
     (timestamp, r) \<leftarrow> rd_i64 r;
     Some (c\<lparr>rej_order := order, rej_account := account, rej_reason := reason, rej_timestamp := timestamp\<rparr>, r)
   }"

definition read_top :: "SeqNum \<Rightarrow> TopOfBook \<Rightarrow> ByteReader \<Rightarrow> (TopOfBook \<times> ByteReader) option" where
  "read_top sequence t r = do {
     (instrument, r) \<leftarrow> rd_u64 r;
     (bid_price, r) \<leftarrow> rd_i64 r;
     (bid_quantity, r) \<leftarrow> rd_u64 r;
     (ask_price, r) \<leftarrow> rd_i64 r;
     (ask_quantity, r) \<leftarrow> rd_u64 r;
     Some (t\<lparr>top_sequence := sequence, top_instrument := instrument, top_bid_price := bid_price,
       top_bid_quantity := bid_quantity, top_ask_price := ask_price, top_ask_quantity := ask_quantity\<rparr>, r)
   }"

definition read_level :: "ByteReader \<Rightarrow> (DepthLevel \<times> ByteReader) option" where
  "read_level r = do {
     (price, r) \<leftarrow> rd_i64 r;
     (quantity, r) \<leftarrow> rd_u64 r;
     (order_count, r) \<leftarrow> rd_u32 r;
     Some (\<lparr>dl_price = price, dl_quantity = quantity, dl_order_count = order_count\<rparr>, r)
   }"

fun read_levels :: "nat \<Rightarrow> ByteReader \<Rightarrow> (DepthLevel list \<times> ByteReader) option" where
  "read_levels 0 r = Some ([], r)"
| "read_levels (Suc n) r = do {
     (level, r) \<leftarrow> read_level r;
     (levels, r) \<leftarrow> read_levels n r;
     Some (level # levels, r)
   }"

text \<open>\<open>read_side\<close>: the Boolean is what the lambda returns, the levels what it appended.\<close>

definition read_side :: "ByteReader \<Rightarrow> ((bool \<times> DepthLevel list) \<times> ByteReader) option" where
  "read_side r = do {
     (count, r) \<leftarrow> rd_u16 r;
     if \<not> rd_ok r \<or> count > kMaxDepthLevels then Some ((False, []), r)
     else if rd_remaining r < unat count * 20 then Some ((False, []), r)
     else do {
       (levels, r) \<leftarrow> read_levels (unat count) r;
       Some ((True, levels), r)
     }
   }"

definition read_depth :: "SeqNum \<Rightarrow> DepthSnapshot \<Rightarrow> ByteReader \<Rightarrow> ((bool \<times> DepthSnapshot) \<times> ByteReader) option" where
  "read_depth sequence d r = do {
     (instrument, r) \<leftarrow> rd_u64 r;
     let d = (depth_clear d)\<lparr>ds_sequence := sequence, ds_instrument := instrument\<rparr>;
     ((ok, bids), r) \<leftarrow> read_side r;
     if \<not> ok then Some ((False, d), r)
     else do {
       ((ok, asks), r) \<leftarrow> read_side r;
       Some ((ok, d\<lparr>ds_bids := bids, ds_asks := asks\<rparr>), r)
     }
   }"

text \<open>The switch of \<open>decode\<close>; False in the result is its early return.\<close>

definition read_message :: "MessageType \<Rightarrow> SeqNum \<Rightarrow> Message \<Rightarrow> ByteReader \<Rightarrow> ((bool \<times> Message) \<times> ByteReader) option" where
  "read_message t sequence m r = (case t of
       MsgNewOrder \<Rightarrow> do { (c, r) \<leftarrow> read_new_order (msg_new_order m) r; Some ((True, m\<lparr>msg_new_order := c\<rparr>), r) }
     | MsgCancelOrder \<Rightarrow> do { (c, r) \<leftarrow> read_cancel (msg_cancel_order m) r; Some ((True, m\<lparr>msg_cancel_order := c\<rparr>), r) }
     | MsgReplaceOrder \<Rightarrow> do { (c, r) \<leftarrow> read_replace (msg_replace_order m) r; Some ((True, m\<lparr>msg_replace_order := c\<rparr>), r) }
     | MsgOrderAccepted \<Rightarrow> do { (a, r) \<leftarrow> read_ack (msg_ack m) r; Some ((True, m\<lparr>msg_ack := a\<rparr>), r) }
     | MsgOrderCancelled \<Rightarrow> do { (a, r) \<leftarrow> read_ack (msg_ack m) r; Some ((True, m\<lparr>msg_ack := a\<rparr>), r) }
     | MsgOrderReplaced \<Rightarrow> do { (a, r) \<leftarrow> read_ack (msg_ack m) r; Some ((True, m\<lparr>msg_ack := a\<rparr>), r) }
     | MsgOrderRejected \<Rightarrow> do { (c, r) \<leftarrow> read_reject (msg_reject m) r; Some ((True, m\<lparr>msg_reject := c\<rparr>), r) }
     | MsgExecution \<Rightarrow> do { (f, r) \<leftarrow> read_fill (msg_fill m) r; Some ((True, m\<lparr>msg_fill := f\<rparr>), r) }
     | MsgTrade \<Rightarrow> do { (f, r) \<leftarrow> read_fill (msg_fill m) r; Some ((True, m\<lparr>msg_fill := f\<rparr>), r) }
     | MsgTopOfBook \<Rightarrow> do { (t, r) \<leftarrow> read_top sequence (msg_top_of_book m) r; Some ((True, m\<lparr>msg_top_of_book := t\<rparr>), r) }
     | MsgDepthSnapshot \<Rightarrow> do { ((ok, d), r) \<leftarrow> read_depth sequence (msg_depth m) r; Some ((ok, m\<lparr>msg_depth := d\<rparr>), r) }
     | MsgHeartbeat \<Rightarrow> Some ((True, m), r))"

datatype MsgDecodeStatus = MsgOk | MsgIncomplete | MsgUnreadable

record MsgDecodeResult =
  mr_status :: MsgDecodeStatus
  mr_consumed :: nat
  mr_message :: Message

definition MsgDecodeResult_default :: MsgDecodeResult where
  "MsgDecodeResult_default = \<lparr>mr_status = MsgIncomplete, mr_consumed = 0, mr_message = Message_default\<rparr>"

record FrameHeader =
  fh_payload_length :: u16
  fh_type :: u8
  fh_version :: u8
  fh_sequence :: SeqNum

definition decode_frame_header :: "ByteReader \<Rightarrow> (FrameHeader \<times> ByteReader) option" where
  "decode_frame_header r = do {
     (payload_length, r) \<leftarrow> rd_u16 r;
     (type, r) \<leftarrow> rd_u8 r;
     (version, r) \<leftarrow> rd_u8 r;
     (sequence, r) \<leftarrow> rd_u64 r;
     Some (\<lparr>fh_payload_length = payload_length, fh_type = type, fh_version = version, fh_sequence = sequence\<rparr>, r)
   }"

definition decode_message :: "u8 list \<Rightarrow> MsgDecodeResult option" where
  "decode_message data =
     (if length data < frame_size then Some (MsgDecodeResult_default\<lparr>mr_status := MsgIncomplete\<rparr>)
      else do {
        (h, _) \<leftarrow> decode_frame_header (ByteReader_new (take frame_size data));
        if fh_version h \<noteq> kProtocolVersion \<or> \<not> is_known_message (fh_type h) \<or> fh_payload_length h > frame_max_payload
        then Some (MsgDecodeResult_default\<lparr>mr_status := MsgUnreadable\<rparr>)
        else do {
          let total = frame_size + unat (fh_payload_length h);
          if length data < total then Some (MsgDecodeResult_default\<lparr>mr_status := MsgIncomplete\<rparr>)
          else do {
            let t = message_type_of_byte (fh_type h);
            let m = Message_default\<lparr>msg_type := t, msg_sequence := fh_sequence h\<rparr>;
            ((ok, m), r) \<leftarrow> read_message t (fh_sequence h) m
              (ByteReader_new (take (unat (fh_payload_length h)) (drop frame_size data)));
            if \<not> ok \<or> \<not> fully_consumed r
            then Some (MsgDecodeResult_default\<lparr>mr_message := m, mr_status := MsgUnreadable\<rparr>)
            else Some \<lparr>mr_status = MsgOk, mr_consumed = total, mr_message = m\<rparr>
          }
        }
      })"

end
