(* ===== verification/Event_Loop.thy ===== *)
theory Event_Loop
  imports XC_Prelude
begin

text \<open>
  The readiness loop (\<open>include/xc/net/event_loop.hpp\<close>, \<open>src/net/event_loop.cpp\<close>), in both its
  implementations.  The kernel is a parameter: the reply of each control call, and the events of
  each wait as the kernel's own flags.  The texts of errors are left out.
\<close>

unbundle bit_operations_syntax

section \<open>Interests and events\<close>

datatype Interest = InterestRead | InterestWrite | InterestReadWrite

fun interest_bits :: "Interest \<Rightarrow> u8" where
  "interest_bits InterestRead = 1" | "interest_bits InterestWrite = 2" | "interest_bits InterestReadWrite = 3"

record Event =
  ev_fd :: int
  ev_readable :: bool
  ev_writable :: bool
  ev_closed :: bool

text \<open>A control call: done, refused because the descriptor is not there, or refused for another reason.\<close>

datatype CtlReply = CtlDone | CtlNoEntry | CtlFailed

section \<open>epoll\<close>

definition EPOLLIN :: u32 where "EPOLLIN = 1"
definition EPOLLOUT :: u32 where "EPOLLOUT = 4"
definition EPOLLERR :: u32 where "EPOLLERR = 8"
definition EPOLLHUP :: u32 where "EPOLLHUP = 16"
definition EPOLLRDHUP :: u32 where "EPOLLRDHUP = 8192"

definition to_epoll :: "Interest \<Rightarrow> u32" where
  "to_epoll i = (if interest_bits i AND interest_bits InterestRead \<noteq> 0 then EPOLLIN else 0) OR
     (if interest_bits i AND interest_bits InterestWrite \<noteq> 0 then EPOLLOUT else 0)"

text \<open>The kernel's table maps a watched descriptor to its event mask.\<close>

datatype CtlOp = CtlAdd | CtlMod

definition control :: "CtlReply \<Rightarrow> CtlOp \<Rightarrow> int \<Rightarrow> Interest \<Rightarrow> (int \<rightharpoonup> u32) \<Rightarrow> bool \<times> (int \<rightharpoonup> u32)" where
  "control reply op fd i watched = (if reply = CtlDone then (True, watched(fd \<mapsto> to_epoll i)) else (False, watched))"

definition loop_add :: "CtlReply \<Rightarrow> int \<Rightarrow> Interest \<Rightarrow> (int \<rightharpoonup> u32) \<Rightarrow> bool \<times> (int \<rightharpoonup> u32)" where
  "loop_add reply fd i = control reply CtlAdd fd i"

definition loop_modify :: "CtlReply \<Rightarrow> int \<Rightarrow> Interest \<Rightarrow> (int \<rightharpoonup> u32) \<Rightarrow> bool \<times> (int \<rightharpoonup> u32)" where
  "loop_modify reply fd i = control reply CtlMod fd i"

definition loop_remove :: "CtlReply \<Rightarrow> int \<Rightarrow> (int \<rightharpoonup> u32) \<Rightarrow> bool \<times> (int \<rightharpoonup> u32)" where
  "loop_remove reply fd watched = (case reply of
       CtlDone \<Rightarrow> (True, watched(fd := None))
     | CtlNoEntry \<Rightarrow> (True, watched)
     | CtlFailed \<Rightarrow> (False, watched))"

definition event_of_epoll :: "int \<times> u32 \<Rightarrow> Event" where
  "event_of_epoll p = \<lparr>ev_fd = fst p, ev_readable = (snd p AND EPOLLIN \<noteq> 0), ev_writable = (snd p AND EPOLLOUT \<noteq> 0),
     ev_closed = (snd p AND (EPOLLHUP OR EPOLLERR OR EPOLLRDHUP) \<noteq> 0)\<rparr>"

text \<open>The wait: the kernel fills the scratch array, is interrupted, or fails.\<close>

datatype 'e WaitReply = WaitEvents "'e list" | WaitInterrupted | WaitFailed

definition epoll_wait_loop :: "(int \<times> u32) WaitReply \<Rightarrow> Event list \<Rightarrow> bool \<times> Event list" where
  "epoll_wait_loop reply out = (case reply of
       WaitFailed \<Rightarrow> (False, out)
     | WaitInterrupted \<Rightarrow> (True, out)
     | WaitEvents es \<Rightarrow> (True, out @ map event_of_epoll es))"

section \<open>kqueue\<close>

datatype Filter = FilterRead | FilterWrite

record KEvent =
  ke_ident :: int
  ke_filter :: Filter
  ke_gone :: bool

text \<open>
  \<open>ke_gone\<close> is the end-of-file or error flag.  A control call makes up to two changes; deleting a
  filter that was never registered is not a failure.  The table maps a descriptor and a filter to
  whether it is enabled.
\<close>

fun kq_changes :: "bool \<Rightarrow> Interest \<Rightarrow> int \<Rightarrow> ((int \<times> Filter) \<times> bool) list" where
  "kq_changes enable i fd =
     [((fd, FilterRead), enable \<and> interest_bits i AND interest_bits InterestRead \<noteq> 0),
      ((fd, FilterWrite), enable \<and> interest_bits i AND interest_bits InterestWrite \<noteq> 0)]"

fun kq_apply :: "CtlReply list \<Rightarrow> ((int \<times> Filter) \<times> bool) list \<Rightarrow> (int \<times> Filter) set \<Rightarrow> bool \<times> (int \<times> Filter) set" where
  "kq_apply replies [] watched = (True, watched)"
| "kq_apply replies ((k, want) # cs) watched = (case replies of
       [] \<Rightarrow> (False, watched)
     | r # rs \<Rightarrow> (case r of
           CtlDone \<Rightarrow> kq_apply rs cs (if want then insert k watched else watched - {k})
         | CtlNoEntry \<Rightarrow> if want then (False, watched) else kq_apply rs cs watched
         | CtlFailed \<Rightarrow> (False, watched)))"

definition kq_add :: "CtlReply list \<Rightarrow> int \<Rightarrow> Interest \<Rightarrow> (int \<times> Filter) set \<Rightarrow> bool \<times> (int \<times> Filter) set" where
  "kq_add replies fd i = kq_apply replies (kq_changes True i fd)"

definition kq_modify :: "CtlReply list \<Rightarrow> int \<Rightarrow> Interest \<Rightarrow> (int \<times> Filter) set \<Rightarrow> bool \<times> (int \<times> Filter) set" where
  "kq_modify replies fd i = kq_apply replies (kq_changes True i fd)"

definition kq_remove :: "CtlReply list \<Rightarrow> int \<Rightarrow> (int \<times> Filter) set \<Rightarrow> bool \<times> (int \<times> Filter) set" where
  "kq_remove replies fd = kq_apply replies (kq_changes False InterestReadWrite fd)"

text \<open>Events of one descriptor are merged into the first entry that carries it.\<close>

definition note_event :: "KEvent \<Rightarrow> Event \<Rightarrow> Event" where
  "note_event k e = (let e1 = (case ke_filter k of FilterRead \<Rightarrow> e\<lparr>ev_readable := True\<rparr> | FilterWrite \<Rightarrow> e\<lparr>ev_writable := True\<rparr>)
     in if ke_gone k then e1\<lparr>ev_closed := True\<rparr> else e1)"

fun merge_event :: "KEvent \<Rightarrow> Event list \<Rightarrow> Event list" where
  "merge_event k [] = [note_event k \<lparr>ev_fd = ke_ident k, ev_readable = False, ev_writable = False, ev_closed = False\<rparr>]"
| "merge_event k (e # es) = (if ev_fd e = ke_ident k then note_event k e # es else e # merge_event k es)"

definition kqueue_wait_loop :: "KEvent WaitReply \<Rightarrow> Event list \<Rightarrow> bool \<times> Event list" where
  "kqueue_wait_loop reply out = (case reply of
       WaitFailed \<Rightarrow> (False, out)
     | WaitInterrupted \<Rightarrow> (True, out)
     | WaitEvents es \<Rightarrow> (True, fold merge_event es out))"

section \<open>What is reported\<close>

lemma to_epoll_bits:
  "to_epoll i AND EPOLLIN \<noteq> 0 \<longleftrightarrow> i \<noteq> InterestWrite" "to_epoll i AND EPOLLOUT \<noteq> 0 \<longleftrightarrow> i \<noteq> InterestRead"
  by (cases i; simp add: to_epoll_def EPOLLIN_def EPOLLOUT_def)+

lemma note_event_fd [simp]: "ev_fd (note_event k e) = ev_fd e"
  by (simp add: note_event_def Let_def split: Filter.split)

lemma merge_event_fds: "map ev_fd (merge_event k es) = (if ke_ident k \<in> set (map ev_fd es) then map ev_fd es else map ev_fd es @ [ke_ident k])"
  by (induction es) auto

text \<open>The merge keeps descriptors distinct, and reports of a descriptor exactly what its events say.\<close>

definition reports :: "Event \<Rightarrow> KEvent list \<Rightarrow> bool" where
  "reports e ks \<longleftrightarrow> (\<exists>k \<in> set ks. ke_ident k = ev_fd e) \<and>
     (ev_readable e \<longleftrightarrow> (\<exists>k \<in> set ks. ke_ident k = ev_fd e \<and> ke_filter k = FilterRead)) \<and>
     (ev_writable e \<longleftrightarrow> (\<exists>k \<in> set ks. ke_ident k = ev_fd e \<and> ke_filter k = FilterWrite)) \<and>
     (ev_closed e \<longleftrightarrow> (\<exists>k \<in> set ks. ke_ident k = ev_fd e \<and> ke_gone k))"

lemma merge_event_members:
  assumes "distinct (map ev_fd es)" "e' \<in> set (merge_event k es)"
  shows "(e' \<in> set es \<and> ev_fd e' \<noteq> ke_ident k) \<or> (\<exists>e \<in> set es. ev_fd e = ke_ident k \<and> e' = note_event k e) \<or>
    (ke_ident k \<notin> set (map ev_fd es) \<and>
     e' = note_event k \<lparr>ev_fd = ke_ident k, ev_readable = False, ev_writable = False, ev_closed = False\<rparr>)"
  using assms
proof (induction es)
  case (Cons e es)
  show ?case
  proof (cases "ev_fd e = ke_ident k")
    case True
    then show ?thesis using Cons.prems by force
  next
    case False
    then show ?thesis using Cons by (auto simp: image_iff)
  qed
qed simp

lemma merge_reports:
  assumes "distinct (map ev_fd es)" "\<forall>e \<in> set es. reports e ks" "\<forall>k \<in> set ks. ke_ident k \<in> set (map ev_fd es)"
    "e' \<in> set (merge_event k es)"
  shows "reports e' (ks @ [k])"
proof -
  consider "e' \<in> set es" "ev_fd e' \<noteq> ke_ident k" | e where "e \<in> set es" "ev_fd e = ke_ident k" "e' = note_event k e"
    | "ke_ident k \<notin> set (map ev_fd es)"
      "e' = note_event k \<lparr>ev_fd = ke_ident k, ev_readable = False, ev_writable = False, ev_closed = False\<rparr>"
    using merge_event_members[OF assms(1,4)] by blast
  then show ?thesis
  proof cases
    case 1
    then show ?thesis using assms(2) by (force simp: reports_def)
  next
    case 2
    then have "reports e ks" using assms(2) by blast
    then show ?thesis using 2 by (auto simp: reports_def note_event_def Let_def split: Filter.splits)
  next
    case 3
    then have "ke_ident k' \<noteq> ke_ident k" if "k' \<in> set ks" for k' using assms(3) that by metis
    then show ?thesis unfolding 3(2) by (auto simp: reports_def note_event_def Let_def split: Filter.splits)
  qed
qed

lemma kqueue_reports:
  "distinct (map ev_fd (fold merge_event ks [])) \<and> (\<forall>e \<in> set (fold merge_event ks []). reports e ks) \<and>
   ke_ident ` set ks = set (map ev_fd (fold merge_event ks []))"
proof (induction ks rule: rev_induct)
  case (snoc k ks)
  let ?es = "fold merge_event ks []"
  have f: "fold merge_event (ks @ [k]) [] = merge_event k ?es" by simp
  have r: "reports e (ks @ [k])" if "e \<in> set (merge_event k ?es)" for e
    using snoc.IH that by (intro merge_reports[of ?es]) auto
  have "distinct (map ev_fd (merge_event k ?es))" using snoc.IH by (simp add: merge_event_fds)
  moreover have "ke_ident ` set (ks @ [k]) = set (map ev_fd (merge_event k ?es))"
    using snoc.IH by (auto simp: merge_event_fds)
  ultimately show ?case using r unfolding f by blast
qed simp

end
