(* ===== verification/Tcp_Gateway.thy ===== *)
theory Tcp_Gateway
  imports Protocol_Messages Event_Loop "HOL-Library.AList"
begin

text \<open>
  The order entry gateway (\<open>include/xc/net/tcp_gateway.hpp\<close>, \<open>src/net/tcp_gateway.cpp\<close>): connections,
  the framing of their byte streams into messages, the binding of a connection to one account and
  the outbound queues.

  The operating system is the stream \<open>env\<close> of replies to successive calls; \<open>gw_time\<close> counts the calls
  made and \<open>gw_wire\<close> collects the bytes the kernel has taken, in order.  The connection table is an
  association list, since its size matters.  The message handler is a function on its own state
  and the gateway, which it may call back; the connect and disconnect handlers only observe and
  are the list \<open>gw_notes\<close>.  None stands for a loop that does not end or a use of a connection that
  is no longer in the table.
\<close>

section \<open>State\<close>

type_synonym ConnectionId = u64

record GatewayConfig =
  gc_port :: u16
  gc_max_connections :: nat
  gc_read_chunk :: nat
  gc_max_outbound_bytes :: nat

record Connection =
  cn_id :: ConnectionId
  cn_fd :: int
  cn_account :: AccountId
  cn_inbound :: "u8 list"
  cn_outbound :: "u8 list"
  cn_outbound_sent :: nat
  cn_watching_write :: bool

datatype CloseReason =
    PeerClosed | RecvError | MalformedMessage | ChangedAccount | SendError | OutboundLimit | PeerHungUp | Requested

datatype GatewayNote = Connected ConnectionId | Disconnected ConnectionId CloseReason

record Gateway =
  gw_config :: GatewayConfig
  gw_watched :: "int \<rightharpoonup> u32"
  gw_listen_fd :: int
  gw_bound_port :: u16
  gw_by_id :: "(ConnectionId \<times> Connection) list"
  gw_by_fd :: "int \<rightharpoonup> ConnectionId"
  gw_next_id :: ConnectionId
  gw_messages_received :: u64
  gw_messages_sent :: u64
  gw_connections_accepted :: u64
  gw_dropped_slow :: u64
  gw_notes :: "GatewayNote list"
  gw_time :: nat
  gw_wire :: "(int \<times> u8 list) list"

datatype NetReply = NetOk | NetAccepted int | NetBytes "u8 list" | NetSent nat | NetWouldBlock | NetInterrupted | NetFailed

type_synonym NetEnv = "nat \<Rightarrow> NetReply"

definition kCompactThreshold :: nat where
  "kCompactThreshold = 64 * 1024"

definition TcpGateway_new :: "GatewayConfig \<Rightarrow> Gateway" where
  "TcpGateway_new config = \<lparr>gw_config = config, gw_watched = Map.empty, gw_listen_fd = -1, gw_bound_port = 0, gw_by_id = [],
     gw_by_fd = Map.empty, gw_next_id = 1, gw_messages_received = 0, gw_messages_sent = 0, gw_connections_accepted = 0,
     gw_dropped_slow = 0, gw_notes = [], gw_time = 0, gw_wire = []\<rparr>"

text \<open>One system call: the next reply.\<close>

definition net_call :: "NetEnv \<Rightarrow> Gateway \<Rightarrow> NetReply \<times> Gateway" where
  "net_call env g = (env (gw_time g), g\<lparr>gw_time := gw_time g + 1\<rparr>)"

definition net_ok :: "NetEnv \<Rightarrow> Gateway \<Rightarrow> bool \<times> Gateway" where
  "net_ok env g = (case net_call env g of (r, g') \<Rightarrow> (r = NetOk, g'))"

definition find_connection :: "Gateway \<Rightarrow> ConnectionId \<Rightarrow> Connection option" where
  "find_connection g cid = map_of (gw_by_id g) cid"

definition put_connection :: "Connection \<Rightarrow> Gateway \<Rightarrow> Gateway" where
  "put_connection c g = g\<lparr>gw_by_id := AList.update (cn_id c) c (gw_by_id g)\<rparr>"

definition watch :: "NetEnv \<Rightarrow> (CtlReply \<Rightarrow> (int \<rightharpoonup> u32) \<Rightarrow> bool \<times> (int \<rightharpoonup> u32)) \<Rightarrow> Gateway \<Rightarrow> bool \<times> Gateway" where
  "watch env ctl g = (case net_ok env g of (ok, g1) \<Rightarrow>
     (case ctl (if ok then CtlDone else CtlFailed) (gw_watched g1) of (r, w) \<Rightarrow> (r, g1\<lparr>gw_watched := w\<rparr>)))"

section \<open>Closing\<close>

definition close_connection :: "NetEnv \<Rightarrow> ConnectionId \<Rightarrow> CloseReason \<Rightarrow> Gateway \<Rightarrow> Gateway" where
  "close_connection env cid reason g = (case find_connection g cid of
       None \<Rightarrow> g
     | Some c \<Rightarrow>
         let g1 = snd (watch env (\<lambda>r. loop_remove r (cn_fd c)) g)
         in g1\<lparr>gw_by_fd := (gw_by_fd g1)(cn_fd c := None), gw_by_id := AList.delete cid (gw_by_id g1),
           gw_notes := gw_notes g1 @ [Disconnected cid reason]\<rparr>)"

definition disconnect :: "NetEnv \<Rightarrow> ConnectionId \<Rightarrow> Gateway \<Rightarrow> Gateway" where
  "disconnect env cid = close_connection env cid Requested"

definition account_for :: "Gateway \<Rightarrow> ConnectionId \<Rightarrow> AccountId" where
  "account_for g cid = (case find_connection g cid of None \<Rightarrow> 0 | Some c \<Rightarrow> cn_account c)"

definition connection_count :: "Gateway \<Rightarrow> nat" where
  "connection_count g = length (gw_by_id g)"

definition gateway_stop :: "NetEnv \<Rightarrow> Gateway \<Rightarrow> Gateway" where
  "gateway_stop env g = (
     let g1 = fold (\<lambda>(_, c) g. snd (watch env (\<lambda>r. loop_remove r (cn_fd c)) g)) (gw_by_id g) g;
         g2 = g1\<lparr>gw_by_id := [], gw_by_fd := Map.empty\<rparr>
     in if gw_listen_fd g2 \<ge> 0
        then (snd (watch env (\<lambda>r. loop_remove r (gw_listen_fd g2)) g2))\<lparr>gw_listen_fd := -1\<rparr> else g2)"

text \<open>
  Starting: \<open>valid\<close> says whether the event loop was created, \<open>socket\<close> is the new descriptor, the other
  Booleans are the replies of the set-up calls, and \<open>bound\<close> is the port the kernel chose.
\<close>

definition gateway_start ::
    "NetEnv \<Rightarrow> bool \<Rightarrow> int \<Rightarrow> bool \<Rightarrow> bool \<Rightarrow> bool \<Rightarrow> bool \<Rightarrow> u16 option \<Rightarrow> Gateway \<Rightarrow> bool \<times> Gateway" where
  "gateway_start env valid socket options_ok address_ok bind_ok listen_ok bound g =
     (if \<not> valid then (False, g)
      else let g1 = g\<lparr>gw_listen_fd := socket\<rparr> in
        if socket < 0 then (False, g1)
        else if \<not> options_ok \<or> \<not> address_ok \<or> \<not> bind_ok \<or> \<not> listen_ok then (False, gateway_stop env g1)
        else let g2 = (case bound of None \<Rightarrow> g1 | Some port \<Rightarrow> g1\<lparr>gw_bound_port := port\<rparr>) in
          (case watch env (\<lambda>r. loop_add r socket InterestRead) g2 of (ok, g3) \<Rightarrow>
             if ok then (True, g3) else (False, gateway_stop env g3)))"

section \<open>Accepting\<close>

text \<open>\<open>emplace\<close> inserts only when the key is new.\<close>

definition emplace_fd :: "int \<Rightarrow> ConnectionId \<Rightarrow> (int \<rightharpoonup> ConnectionId) \<Rightarrow> (int \<rightharpoonup> ConnectionId)" where
  "emplace_fd fd cid m = (if m fd = None then m(fd \<mapsto> cid) else m)"

definition emplace_id :: "ConnectionId \<Rightarrow> Connection \<Rightarrow> (ConnectionId \<times> Connection) list \<Rightarrow> (ConnectionId \<times> Connection) list" where
  "emplace_id cid c m = (if map_of m cid = None then m @ [(cid, c)] else m)"

partial_function (option) accept_ready :: "NetEnv \<Rightarrow> Gateway \<Rightarrow> Gateway option" where
  "accept_ready env g0 = (case net_call env g0 of (reply, g) \<Rightarrow>
     (case reply of
        NetAccepted fd \<Rightarrow>
          if connection_count g \<ge> gc_max_connections (gw_config g) then accept_ready env g
          else (case net_ok env g of (nb, g1) \<Rightarrow>
            if \<not> nb then accept_ready env g1
            else (case net_ok env g1 of (nd, g2) \<Rightarrow>
              if \<not> nd then accept_ready env g2
              else
                let cid = gw_next_id g2;
                    g3 = g2\<lparr>gw_next_id := cid + 1\<rparr>;
                    c = \<lparr>cn_id = cid, cn_fd = fd, cn_account = 0, cn_inbound = [], cn_outbound = [], cn_outbound_sent = 0,
                      cn_watching_write = False\<rparr>
                in (case watch env (\<lambda>r. loop_add r fd InterestRead) g3 of (ok, g4) \<Rightarrow>
                  if \<not> ok then accept_ready env g4
                  else accept_ready env (g4\<lparr>gw_by_fd := emplace_fd fd cid (gw_by_fd g4), gw_by_id := emplace_id cid c (gw_by_id g4),
                    gw_connections_accepted := gw_connections_accepted g4 + 1, gw_notes := gw_notes g4 @ [Connected cid]\<rparr>))))
      | NetInterrupted \<Rightarrow> accept_ready env g
      | _ \<Rightarrow> Some g))"

section \<open>Sending\<close>

partial_function (option) drain_loop :: "NetEnv \<Rightarrow> Connection \<Rightarrow> Gateway \<Rightarrow> (bool option \<times> Connection \<times> Gateway) option" where
  "drain_loop env c g =
     (if cn_outbound_sent c < length (cn_outbound c)
      then let pending = drop (cn_outbound_sent c) (cn_outbound c) in
        (case net_call env g of (reply, g1) \<Rightarrow>
          (case reply of
             NetSent n \<Rightarrow>
               let n = min n (length pending)
               in drain_loop env (c\<lparr>cn_outbound_sent := cn_outbound_sent c + n\<rparr>)
                 (g1\<lparr>gw_wire := gw_wire g1 @ [(cn_fd c, take n pending)]\<rparr>)
           | NetWouldBlock \<Rightarrow> Some (Some True, c, g1)
           | NetInterrupted \<Rightarrow> drain_loop env c g1
           | _ \<Rightarrow> Some (Some False, c, g1)))
      else Some (None, c, g))"

definition drain :: "NetEnv \<Rightarrow> Connection \<Rightarrow> Gateway \<Rightarrow> (bool \<times> Connection \<times> Gateway) option" where
  "drain env c g = do {
     (early, c, g) \<leftarrow> drain_loop env c g;
     (case early of
        Some r \<Rightarrow> Some (r, c, g)
      | None \<Rightarrow>
          if cn_outbound_sent c = length (cn_outbound c)
          then Some (True, c\<lparr>cn_outbound := [], cn_outbound_sent := 0\<rparr>, g)
          else if cn_outbound_sent c \<ge> kCompactThreshold
          then Some (True, c\<lparr>cn_outbound := drop (cn_outbound_sent c) (cn_outbound c), cn_outbound_sent := 0\<rparr>, g)
          else Some (True, c, g))
   }"

definition update_write_interest :: "NetEnv \<Rightarrow> Connection \<Rightarrow> Gateway \<Rightarrow> Gateway" where
  "update_write_interest env c g = (
     let wants = cn_outbound_sent c < length (cn_outbound c)
     in if wants = cn_watching_write c then g
        else snd (watch env (\<lambda>r. loop_modify r (cn_fd c) (if wants then InterestReadWrite else InterestRead))
          (put_connection (c\<lparr>cn_watching_write := wants\<rparr>) g)))"

definition write_ready :: "NetEnv \<Rightarrow> ConnectionId \<Rightarrow> Gateway \<Rightarrow> Gateway option" where
  "write_ready env cid g = do {
     c \<leftarrow> find_connection g cid;
     (ok, c', g1) \<leftarrow> drain env c g;
     let g2 = put_connection c' g1;
     if \<not> ok then Some (close_connection env cid SendError g2)
     else (case find_connection g2 cid of None \<Rightarrow> Some g2 | Some c'' \<Rightarrow> Some (update_write_interest env c'' g2))
   }"

definition gateway_send :: "NetEnv \<Rightarrow> ConnectionId \<Rightarrow> u8 list \<Rightarrow> Gateway \<Rightarrow> (bool \<times> Gateway) option" where
  "gateway_send env cid bytes g = (case find_connection g cid of
       None \<Rightarrow> Some (False, g)
     | Some c \<Rightarrow>
         let queued = length (cn_outbound c) - cn_outbound_sent c in
         if queued + length bytes > gc_max_outbound_bytes (gw_config g)
         then Some (False, close_connection env cid OutboundLimit (g\<lparr>gw_dropped_slow := gw_dropped_slow g + 1\<rparr>))
         else do {
           let c1 = c\<lparr>cn_outbound := cn_outbound c @ bytes\<rparr>;
           (ok, c2, g1) \<leftarrow> drain env c1 (g\<lparr>gw_messages_sent := gw_messages_sent g + 1\<rparr>);
           let g2 = put_connection c2 g1;
           if \<not> ok then Some (False, close_connection env cid SendError g2)
           else Some (True, update_write_interest env c2 g2)
         })"

section \<open>Receiving\<close>

definition claimed_account :: "Message \<Rightarrow> AccountId" where
  "claimed_account m =
     (if id_valid (no_account (msg_new_order m)) then no_account (msg_new_order m)
      else if id_valid (co_account (msg_cancel_order m)) then co_account (msg_cancel_order m)
      else ro_account (msg_replace_order m))"

text \<open>
  The framing loop over what a connection has received.  The result holds the offset reached, or
  None when the connection was closed on the way.
\<close>

partial_function (option) decode_loop ::
    "NetEnv \<Rightarrow> (ConnectionId \<Rightarrow> Message \<Rightarrow> 'v \<times> Gateway \<Rightarrow> ('v \<times> Gateway) option) \<Rightarrow> ConnectionId \<Rightarrow> nat \<Rightarrow> 'v \<times> Gateway \<Rightarrow>
     (nat option \<times> 'v \<times> Gateway) option" where
  "decode_loop env handler cid offset st = (case st of (v, g) \<Rightarrow> do {
     live \<leftarrow> find_connection g cid;
     decoded \<leftarrow> decode_message (drop offset (cn_inbound live));
     (case mr_status decoded of
        MsgIncomplete \<Rightarrow> Some (Some offset, v, g)
      | MsgUnreadable \<Rightarrow> Some (None, v, close_connection env cid MalformedMessage g)
      | MsgOk \<Rightarrow> do {
          let g1 = g\<lparr>gw_messages_received := gw_messages_received g + 1\<rparr>;
          let claimed = claimed_account (mr_message decoded);
          if id_valid claimed \<and> id_valid (cn_account live) \<and> cn_account live \<noteq> claimed
          then Some (None, v, close_connection env cid ChangedAccount g1)
          else do {
            let g2 = (if id_valid claimed \<and> \<not> id_valid (cn_account live)
              then put_connection (live\<lparr>cn_account := claimed\<rparr>) g1 else g1);
            (v', g3) \<leftarrow> handler cid (mr_message decoded) (v, g2);
            (case find_connection g3 cid of
               None \<Rightarrow> Some (None, v', g3)
             | Some _ \<Rightarrow> decode_loop env handler cid (offset + mr_consumed decoded) (v', g3))
          }
        })
   })"

partial_function (option) read_ready ::
    "NetEnv \<Rightarrow> (ConnectionId \<Rightarrow> Message \<Rightarrow> 'v \<times> Gateway \<Rightarrow> ('v \<times> Gateway) option) \<Rightarrow> ConnectionId \<Rightarrow> 'v \<times> Gateway \<Rightarrow>
     ('v \<times> Gateway) option" where
  "read_ready env handler cid st = (case st of (v, g) \<Rightarrow> do {
     c \<leftarrow> find_connection g cid;
     (case net_call env g of (reply, g1) \<Rightarrow>
        (case reply of
           NetBytes received \<Rightarrow>
             if received = [] then Some (v, close_connection env cid PeerClosed g1)
             else do {
               let live = c\<lparr>cn_inbound := cn_inbound c @ take (gc_read_chunk (gw_config g1)) received\<rparr>;
               (reached, v', g2) \<leftarrow> decode_loop env handler cid 0 (v, put_connection live g1);
               (case reached of
                  None \<Rightarrow> Some (v', g2)
                | Some offset \<Rightarrow> do {
                    live' \<leftarrow> find_connection g2 cid;
                    read_ready env handler cid (v',
                      if offset > 0 then put_connection (live'\<lparr>cn_inbound := drop offset (cn_inbound live')\<rparr>) g2 else g2)
                  })
             }
         | NetWouldBlock \<Rightarrow> Some (v, g1)
         | NetInterrupted \<Rightarrow> read_ready env handler cid (v, g1)
         | _ \<Rightarrow> Some (v, close_connection env cid RecvError g1)))
   })"

section \<open>Polling\<close>

definition serve_event ::
    "NetEnv \<Rightarrow> (ConnectionId \<Rightarrow> Message \<Rightarrow> 'v \<times> Gateway \<Rightarrow> ('v \<times> Gateway) option) \<Rightarrow> Event \<Rightarrow> 'v \<times> Gateway \<Rightarrow>
     ('v \<times> Gateway) option" where
  "serve_event env handler e st = (case st of (v, g) \<Rightarrow>
     if ev_fd e = gw_listen_fd g then do { g' \<leftarrow> accept_ready env g; Some (v, g') }
     else (case gw_by_fd g (ev_fd e) of
         None \<Rightarrow> Some (v, g)
       | Some cid \<Rightarrow> do {
           g1 \<leftarrow> (if ev_writable e \<and> find_connection g cid \<noteq> None then write_ready env cid g else Some g);
           (v', g2) \<leftarrow> (if ev_readable e \<and> find_connection g1 cid \<noteq> None then read_ready env handler cid (v, g1)
             else Some (v, g1));
           Some (v', if ev_closed e \<and> find_connection g2 cid \<noteq> None then close_connection env cid PeerHungUp g2 else g2)
         }))"

definition gateway_poll ::
    "NetEnv \<Rightarrow> (ConnectionId \<Rightarrow> Message \<Rightarrow> 'v \<times> Gateway \<Rightarrow> ('v \<times> Gateway) option) \<Rightarrow> (int \<times> u32) WaitReply \<Rightarrow> 'v \<times> Gateway \<Rightarrow>
     (bool \<times> 'v \<times> Gateway) option" where
  "gateway_poll env handler reply st = (case epoll_wait_loop reply [] of (ok, events) \<Rightarrow>
     if \<not> ok then Some (False, st)
     else do { st' \<leftarrow> foldM (serve_event env handler) events st; Some (True, st') })"

end
