(* ===== verification/Protocol_Properties.thy ===== *)
theory Protocol_Properties
  imports Protocol_Messages
begin

text \<open>
  What the wire protocol guarantees: a message survives encoding and decoding, a frame is recognised
  by its own bytes, however the stream is cut, and the decoder copes with any bytes.
\<close>

section \<open>Messages and their bytes\<close>

text \<open>The encoder of each type of message.\<close>

definition encode_message :: "Message \<Rightarrow> u8 list \<Rightarrow> u8 list option" where
  "encode_message m = (case msg_type m of
       MsgNewOrder \<Rightarrow> encode_new_order (msg_sequence m) (msg_new_order m)
     | MsgCancelOrder \<Rightarrow> encode_cancel (msg_sequence m) (msg_cancel_order m)
     | MsgReplaceOrder \<Rightarrow> encode_replace (msg_sequence m) (msg_replace_order m)
     | MsgOrderAccepted \<Rightarrow> encode_accepted (msg_sequence m) (msg_ack m)
     | MsgOrderRejected \<Rightarrow> encode_rejected (msg_sequence m) (msg_reject m)
     | MsgOrderCancelled \<Rightarrow> encode_cancelled (msg_sequence m) (msg_ack m)
     | MsgOrderReplaced \<Rightarrow> encode_replaced (msg_sequence m) (msg_ack m)
     | MsgExecution \<Rightarrow> encode_execution (msg_sequence m) (msg_fill m)
     | MsgTrade \<Rightarrow> encode_trade (msg_sequence m) (msg_fill m)
     | MsgTopOfBook \<Rightarrow> encode_top_of_book (msg_sequence m) (msg_top_of_book m)
     | MsgDepthSnapshot \<Rightarrow> encode_depth (msg_sequence m) (msg_depth m)
     | MsgHeartbeat \<Rightarrow> encode_heartbeat (msg_sequence m))"

definition ack_bytes :: "OrderAck \<Rightarrow> u8 list" where
  "ack_bytes a = put_bytes (ack_order a) 8 @ put_bytes (ack_account a) 8 @ put_bytes (ack_instrument a) 8 @
     put_bytes (ack_filled a) 8 @ put_bytes (ack_remaining a) 8 @ i64_bytes (ack_timestamp a)"

definition reject_bytes :: "OrderReject \<Rightarrow> u8 list" where
  "reject_bytes j = put_bytes (rej_order j) 8 @ put_bytes (rej_account j) 8 @ [reason_byte (rej_reason j)] @ i64_bytes (rej_timestamp j)"

definition fill_bytes :: "Fill \<Rightarrow> u8 list" where
  "fill_bytes f = put_bytes (fill_id f) 8 @ put_bytes (fill_instrument f) 8 @ i64_bytes (fill_price f) @ put_bytes (fill_quantity f) 8 @
     put_bytes (fill_aggressor_order f) 8 @ put_bytes (fill_resting_order f) 8 @ put_bytes (fill_aggressor_account f) 8 @
     put_bytes (fill_resting_account f) 8 @ [side_byte (fill_aggressor_side f)] @ [if fill_resting_filled f then 1 else 0] @
     i64_bytes (fill_timestamp f)"

definition top_bytes :: "TopOfBook \<Rightarrow> u8 list" where
  "top_bytes t = put_bytes (top_instrument t) 8 @ i64_bytes (top_bid_price t) @ put_bytes (top_bid_quantity t) 8 @
     i64_bytes (top_ask_price t) @ put_bytes (top_ask_quantity t) 8"

definition level_bytes :: "DepthLevel \<Rightarrow> u8 list" where
  "level_bytes l = i64_bytes (dl_price l) @ put_bytes (dl_quantity l) 8 @ put_bytes (ucast (dl_order_count l)) 4"

definition side_bytes :: "DepthLevel list \<Rightarrow> u8 list" where
  "side_bytes ls = put_bytes (ucast (of_nat (length (take 256 ls)) :: u16)) 2 @ concat (map level_bytes (take 256 ls))"

definition message_bytes :: "Message \<Rightarrow> u8 list" where
  "message_bytes m = (case msg_type m of
       MsgNewOrder \<Rightarrow> new_order_bytes (msg_new_order m)
     | MsgCancelOrder \<Rightarrow> cancel_bytes (msg_cancel_order m)
     | MsgReplaceOrder \<Rightarrow> replace_bytes (msg_replace_order m)
     | MsgOrderAccepted \<Rightarrow> ack_bytes (msg_ack m)
     | MsgOrderRejected \<Rightarrow> reject_bytes (msg_reject m)
     | MsgOrderCancelled \<Rightarrow> ack_bytes (msg_ack m)
     | MsgOrderReplaced \<Rightarrow> ack_bytes (msg_ack m)
     | MsgExecution \<Rightarrow> fill_bytes (msg_fill m)
     | MsgTrade \<Rightarrow> fill_bytes (msg_fill m)
     | MsgTopOfBook \<Rightarrow> top_bytes (msg_top_of_book m)
     | MsgDepthSnapshot \<Rightarrow> put_bytes (ds_instrument (msg_depth m)) 8 @ side_bytes (ds_bids (msg_depth m)) @ side_bytes (ds_asks (msg_depth m))
     | MsgHeartbeat \<Rightarrow> [])"

definition frame_bytes :: "FrameHeader \<Rightarrow> u8 list" where
  "frame_bytes h = put_bytes (ucast (fh_payload_length h)) 2 @ [fh_type h] @ [fh_version h] @ put_bytes (fh_sequence h) 8"

definition frame_of :: "MessageType \<Rightarrow> SeqNum \<Rightarrow> u8 list \<Rightarrow> FrameHeader" where
  "frame_of t n p = \<lparr>fh_payload_length = of_nat (length p), fh_type = message_type_byte t, fh_version = kProtocolVersion, fh_sequence = n\<rparr>"

lemma two_bytes: "put_bytes (ucast (of_nat n :: u16)) 2 = [ucast ((of_nat n :: u64) AND 0xFF), ucast (drop_bit 8 (of_nat n :: u64) AND 0xFF)]"
proof -
  have u: "(ucast (of_nat n :: u16) :: u64) = take_bit 16 (of_nat n)"
    by (rule bit_eqI) (auto simp: bit_ucast_iff bit_take_bit_iff bit_of_nat_iff)
  have "put_bytes (take_bit 16 v) 2 = put_bytes v 2" for v :: u64
    by (auto simp: put_bytes_def numeral_eq_Suc intro!: bit_eqI) (auto simp: bit_ucast_iff bit_take_bit_iff bit_and_iff bit_drop_bit_eq dest: bit_imp_le_length)
  then show ?thesis unfolding u by (simp add: put_bytes_def numeral_eq_Suc)
qed

lemma framed_bytes:
  assumes "\<And>out. write out = out @ p"
  shows "framed t n write out = Some (out @ frame_bytes (frame_of t n p) @ p)"
proof -
  have z: "put_bytes 0 2 = [0, 0]" by (simp add: put_bytes_def numeral_eq_Suc)
  let ?q = "[message_type_byte t, kProtocolVersion] @ put_bytes n 8 @ p"
  have "length (out @ [0, 0] @ ?q) - length out - frame_size = length p" by (simp add: frame_size_def)
  then show ?thesis
    using set_over[of out "length out" 0 "0 # ?q"] set_over[of "out @ [x]" "Suc (length out)" 0 ?q for x]
    by (simp add: framed_def begin_frame_def end_frame_def assms bw_defs z frame_bytes_def frame_of_def two_bytes Let_def)
qed

lemma write_level_bytes: "write_level l out = out @ level_bytes l"
  by (simp add: write_level_def level_bytes_def i64_bytes_def bw_defs)

lemma write_levels_bytes: "fold write_level ls out = out @ concat (map level_bytes ls)"
  by (induction ls arbitrary: out) (simp_all add: write_level_bytes)

lemma write_side_bytes: "write_side ls out = out @ side_bytes ls"
proof -
  have "take (min (length ls) 256) ls = take 256 ls" by (simp add: min_def)
  then show ?thesis by (simp add: write_side_def side_bytes_def kMaxDepthLevels_def write_levels_bytes bw_defs Let_def)
qed

lemma encode_message_bytes:
  "encode_message m out = Some (out @ frame_bytes (frame_of (msg_type m) (msg_sequence m) (message_bytes m)) @ message_bytes m)"
proof (cases "msg_type m")
  case MsgDepthSnapshot
  then show ?thesis unfolding encode_message_def message_bytes_def MsgDepthSnapshot MessageType.case encode_depth_def
    by (intro framed_bytes) (simp add: write_side_bytes bw_defs)
qed (simp_all only: encode_message_def message_bytes_def MessageType.case encode_new_order_def encode_cancel_def encode_replace_def
      encode_accepted_def encode_cancelled_def encode_replaced_def encode_ack_as_def encode_rejected_def encode_execution_def
      encode_trade_def encode_top_of_book_def encode_heartbeat_def,
    (intro framed_bytes, simp add: write_fill_def write_ack_def new_order_bytes_def cancel_bytes_def replace_bytes_def
      ack_bytes_def reject_bytes_def fill_bytes_def top_bytes_def i64_bytes_def bw_defs)+)

section \<open>The round trip\<close>

definition level_fits :: "DepthLevel \<Rightarrow> bool" where
  "level_fits l \<longleftrightarrow> dl_price l \<in> i64_range"

text \<open>The values a frame can represent: prices and times of 64 bits, and a payload of at most 8192 bytes.\<close>

definition message_fits :: "Message \<Rightarrow> bool" where
  "message_fits m \<longleftrightarrow> (case msg_type m of
       MsgNewOrder \<Rightarrow> no_price (msg_new_order m) \<in> i64_range
     | MsgCancelOrder \<Rightarrow> True
     | MsgReplaceOrder \<Rightarrow> ro_new_price (msg_replace_order m) \<in> i64_range
     | MsgOrderAccepted \<Rightarrow> ack_timestamp (msg_ack m) \<in> i64_range
     | MsgOrderRejected \<Rightarrow> rej_timestamp (msg_reject m) \<in> i64_range
     | MsgOrderCancelled \<Rightarrow> ack_timestamp (msg_ack m) \<in> i64_range
     | MsgOrderReplaced \<Rightarrow> ack_timestamp (msg_ack m) \<in> i64_range
     | MsgExecution \<Rightarrow> fill_price (msg_fill m) \<in> i64_range \<and> fill_timestamp (msg_fill m) \<in> i64_range
     | MsgTrade \<Rightarrow> fill_price (msg_fill m) \<in> i64_range \<and> fill_timestamp (msg_fill m) \<in> i64_range
     | MsgTopOfBook \<Rightarrow> top_bid_price (msg_top_of_book m) \<in> i64_range \<and> top_ask_price (msg_top_of_book m) \<in> i64_range
     | MsgDepthSnapshot \<Rightarrow> list_all level_fits (ds_bids (msg_depth m)) \<and> list_all level_fits (ds_asks (msg_depth m)) \<and>
         min 256 (length (ds_bids (msg_depth m))) + min 256 (length (ds_asks (msg_depth m))) \<le> 409
     | MsgHeartbeat \<Rightarrow> True)"

text \<open>What a frame carries of a message: the member of its type.\<close>

definition message_carried :: "Message \<Rightarrow> Message" where
  "message_carried m = (let base = Message_default\<lparr>msg_type := msg_type m, msg_sequence := msg_sequence m\<rparr> in case msg_type m of
       MsgNewOrder \<Rightarrow> base\<lparr>msg_new_order := msg_new_order m\<rparr>
     | MsgCancelOrder \<Rightarrow> base\<lparr>msg_cancel_order := msg_cancel_order m\<rparr>
     | MsgReplaceOrder \<Rightarrow> base\<lparr>msg_replace_order := msg_replace_order m\<rparr>
     | MsgOrderAccepted \<Rightarrow> base\<lparr>msg_ack := msg_ack m\<rparr>
     | MsgOrderRejected \<Rightarrow> base\<lparr>msg_reject := msg_reject m\<rparr>
     | MsgOrderCancelled \<Rightarrow> base\<lparr>msg_ack := msg_ack m\<rparr>
     | MsgOrderReplaced \<Rightarrow> base\<lparr>msg_ack := msg_ack m\<rparr>
     | MsgExecution \<Rightarrow> base\<lparr>msg_fill := msg_fill m\<rparr>
     | MsgTrade \<Rightarrow> base\<lparr>msg_fill := msg_fill m\<rparr>
     | MsgTopOfBook \<Rightarrow> base\<lparr>msg_top_of_book := (msg_top_of_book m)\<lparr>top_sequence := msg_sequence m\<rparr>\<rparr>
     | MsgDepthSnapshot \<Rightarrow> base\<lparr>msg_depth := \<lparr>ds_instrument = ds_instrument (msg_depth m), ds_sequence = msg_sequence m,
         ds_bids = take 256 (ds_bids (msg_depth m)), ds_asks = take 256 (ds_asks (msg_depth m))\<rparr>\<rparr>
     | MsgHeartbeat \<Rightarrow> base)"

lemma reason_roundtrip: "reason_of_byte (reason_byte r) = r" "reason_byte r \<le> reason_byte RateLimit"
  by (cases r; simp add: reason_of_byte_def reject_reasons_def)+

lemma type_roundtrip [simp]: "message_type_of_byte (message_type_byte t) = t" "is_known_message (message_type_byte t)"
  by (cases t; simp add: message_type_of_byte_def message_types_def is_known_message_def)+

lemma reads_reason: "reads (rd_enumeration reason_of_byte (reason_byte RateLimit)) [reason_byte r] r"
  by (intro reads_enumeration reason_roundtrip)

lemmas message_steps = reads_steps reads_bind[OF reads_reason]

lemma reads_frame: "reads decode_frame_header (frame_bytes h @ []) h"
  unfolding decode_frame_header_def[abs_def] frame_bytes_def append_assoc
  by (intro message_steps reads_done) simp

lemma reads_payloads:
  "no_price c \<in> i64_range \<Longrightarrow> reads (read_new_order c0) (new_order_bytes c @ []) c"
  "reads (read_cancel x0) (cancel_bytes x @ []) x"
  "ro_new_price y \<in> i64_range \<Longrightarrow> reads (read_replace y0) (replace_bytes y @ []) y"
  "ack_timestamp a \<in> i64_range \<Longrightarrow> reads (read_ack a0) (ack_bytes a @ []) a"
  "rej_timestamp j \<in> i64_range \<Longrightarrow> reads (read_reject j0) (reject_bytes j @ []) j"
  "fill_price f \<in> i64_range \<Longrightarrow> fill_timestamp f \<in> i64_range \<Longrightarrow> reads (read_fill f0) (fill_bytes f @ []) f"
  "top_bid_price t \<in> i64_range \<Longrightarrow> top_ask_price t \<in> i64_range \<Longrightarrow> reads (read_top n t0) (top_bytes t @ []) (t\<lparr>top_sequence := n\<rparr>)"
  "dl_price l \<in> i64_range \<Longrightarrow> reads read_level (level_bytes l @ []) l"
  unfolding read_new_order_def[abs_def] new_order_bytes_def read_cancel_def[abs_def] cancel_bytes_def read_replace_def[abs_def]
    replace_bytes_def read_ack_def[abs_def] ack_bytes_def read_reject_def[abs_def] reject_bytes_def read_fill_def[abs_def]
    fill_bytes_def read_top_def[abs_def] top_bytes_def read_level_def[abs_def] level_bytes_def i64_bytes_def append_assoc
  by (intro message_steps reads_done; simp)+

lemmas reads_payload = reads_payloads[unfolded append_Nil2]

lemma reads_levels: "list_all level_fits ls \<Longrightarrow> reads (read_levels (length ls)) (concat (map level_bytes ls)) ls"
proof (induction ls)
  case (Cons l ls)
  have "reads (\<lambda>r. do { (level, r) \<leftarrow> read_level r; (levels, r) \<leftarrow> read_levels (length ls) r; Some (level # levels, r) })
      (level_bytes l @ concat (map level_bytes ls) @ []) (l # ls)"
    using Cons by (intro reads_bind[OF reads_payload(8)] reads_bind[OF Cons.IH] reads_done) (simp_all add: level_fits_def)
  then show ?case by (simp add: fun_eq_iff)
qed (simp add: reads_def)

lemma level_bytes_length: "length (concat (map level_bytes ls)) = 20 * length ls"
  by (induction ls) (simp_all add: level_bytes_def i64_bytes_def)

lemma reads_side:
  assumes "list_all level_fits ls"
  shows "reads read_side (side_bytes ls) (True, take 256 ls)"
proof -
  let ?ls = "take 256 ls"
  let ?f = "\<lambda>count r. if \<not> rd_ok r \<or> count > kMaxDepthLevels then Some ((False, []), r)
     else if rd_remaining r < unat count * 20 then Some ((False, []), r)
     else do { (levels, r) \<leftarrow> read_levels (unat count) r; Some ((True, levels), r) }"
  have n: "unat (of_nat (length ?ls) :: u16) = length ?ls" by (simp add: unat_of_nat take_bit_nat_eq_self)
  have small: "\<not> (of_nat (length ?ls) :: u16) > kMaxDepthLevels" unfolding word_less_nat_alt n by (simp add: kMaxDepthLevels_def)
  have fits: "list_all level_fits ?ls" using assms by (metis append_take_drop_id list_all_append)
  have "reads (?f (of_nat (length ?ls))) (concat (map level_bytes ?ls)) (True, ?ls)"
    unfolding reads_def
  proof (intro allI impI)
    fix r post assume a: "avail r (concat (map level_bytes ?ls) @ post)"
    then have "length (drop (rd_offset r) (rd_data r)) = 20 * length ?ls + length post"
      using level_bytes_length[of ?ls] by (simp add: avail_def)
    then have "rd_ok r" "\<not> rd_remaining r < length ?ls * 20" using a by (auto simp: rd_ok_def rd_remaining_def avail_def)
    then have "?f (of_nat (length ?ls)) r = do { (levels, r) \<leftarrow> read_levels (length ?ls) r; Some ((True, levels), r) }"
      unfolding n using small by simp
    moreover have "reads (\<lambda>r. do { (levels, r) \<leftarrow> read_levels (length ?ls) r; Some ((True, levels), r) }) (concat (map level_bytes ?ls)) (True, ?ls)"
      by (rule reads_last[OF reads_levels[OF fits]]) simp
    ultimately show "\<exists>r'. ?f (of_nat (length ?ls)) r = Some ((True, ?ls), r') \<and> avail r' post \<and> rd_data r' = rd_data r"
      using a unfolding reads_def by auto
  qed
  from reads_bind[where f = ?f, OF reads_u16 this] show ?thesis unfolding read_side_def[abs_def] side_bytes_def .
qed

lemma reads_depth:
  assumes "list_all level_fits (ds_bids d)" "list_all level_fits (ds_asks d)"
  shows "reads (read_depth n d0) (put_bytes (ds_instrument d) 8 @ side_bytes (ds_bids d) @ side_bytes (ds_asks d) @ [])
    (True, \<lparr>ds_instrument = ds_instrument d, ds_sequence = n, ds_bids = take 256 (ds_bids d), ds_asks = take 256 (ds_asks d)\<rparr>)"
  unfolding read_depth_def[abs_def] Let_def
  apply (rule reads_bind[OF reads_u64])
  apply (rule reads_bind[OF reads_side[OF assms(1)]])
  apply (simp only: prod.case not_True_eq_False if_False)
  apply (rule reads_bind[OF reads_side[OF assms(2)]])
  apply (simp only: prod.case)
  by (rule reads_done) (simp add: depth_clear_def)

lemma reads_then: "reads m bs v \<Longrightarrow> reads (f v) [] w \<Longrightarrow> reads (\<lambda>r. do { (a, r') \<leftarrow> m r; f a r' }) bs w"
  using reads_bind[of m bs v f "[]" w] by simp

lemma reads_message:
  assumes "message_fits m"
  shows "reads (read_message (msg_type m) (msg_sequence m) (Message_default\<lparr>msg_type := msg_type m, msg_sequence := msg_sequence m\<rparr>))
    (message_bytes m) (True, message_carried m)"
proof -
  note unf = message_fits_def read_message_def[abs_def] message_bytes_def message_carried_def Let_def
  show ?thesis
  proof (cases "msg_type m")
    case MsgHeartbeat
    then show ?thesis by (simp add: reads_done unf)
  next
    case MsgNewOrder
    then show ?thesis using assms unfolding unf by (simp only: MessageType.case) (rule reads_last[OF reads_payload(1)]; simp)
  next
    case MsgCancelOrder
    then show ?thesis using assms unfolding unf by (simp only: MessageType.case) (rule reads_last[OF reads_payload(2)]; simp)
  next
    case MsgReplaceOrder
    then show ?thesis using assms unfolding unf by (simp only: MessageType.case) (rule reads_last[OF reads_payload(3)]; simp)
  next
    case MsgOrderAccepted
    then show ?thesis using assms unfolding unf by (simp only: MessageType.case) (rule reads_last[OF reads_payload(4)]; simp)
  next
    case MsgOrderRejected
    then show ?thesis using assms unfolding unf by (simp only: MessageType.case) (rule reads_last[OF reads_payload(5)]; simp)
  next
    case MsgOrderCancelled
    then show ?thesis using assms unfolding unf by (simp only: MessageType.case) (rule reads_last[OF reads_payload(4)]; simp)
  next
    case MsgOrderReplaced
    then show ?thesis using assms unfolding unf by (simp only: MessageType.case) (rule reads_last[OF reads_payload(4)]; simp)
  next
    case MsgExecution
    then show ?thesis using assms unfolding unf by (simp only: MessageType.case) (rule reads_last[OF reads_payload(6)]; simp)
  next
    case MsgTrade
    then show ?thesis using assms unfolding unf by (simp only: MessageType.case) (rule reads_last[OF reads_payload(6)]; simp)
  next
    case MsgTopOfBook
    then show ?thesis using assms unfolding unf by (simp only: MessageType.case) (rule reads_last[OF reads_payload(7)]; simp)
  next
    case MsgDepthSnapshot
    then show ?thesis using assms unfolding unf by (simp only: MessageType.case) (rule reads_then[OF reads_depth[unfolded append_Nil2]]; simp add: reads_done)
  qed
qed

lemma decode_framed:
  assumes "length p \<le> 8192" "reads (read_message t n (Message_default\<lparr>msg_type := t, msg_sequence := n\<rparr>)) p (True, m)"
  shows "decode_message (frame_bytes (frame_of t n p) @ p @ post) =
    Some \<lparr>mr_status = MsgOk, mr_consumed = frame_size + length p, mr_message = m\<rparr>"
proof -
  let ?h = "frame_of t n p" and ?d = "frame_bytes (frame_of t n p) @ p @ post"
  have size: "length (frame_bytes ?h) = frame_size" by (simp add: frame_bytes_def frame_size_def)
  obtain rh where rh: "decode_frame_header (ByteReader_new (frame_bytes ?h)) = Some (?h, rh)"
    using reads_all[OF reads_frame[of ?h]] by auto
  obtain rb where rb: "read_message t n (Message_default\<lparr>msg_type := t, msg_sequence := n\<rparr>) (ByteReader_new p) = Some ((True, m), rb)" "fully_consumed rb"
    using reads_all[OF assms(2)] by auto
  have len: "unat (fh_payload_length ?h) = length p" using assms(1) by (simp add: frame_of_def unat_of_nat take_bit_nat_eq_self)
  have "\<not> fh_payload_length ?h > frame_max_payload" using len assms(1) by (simp add: word_less_nat_alt frame_max_payload_def)
  moreover have "take frame_size ?d = frame_bytes ?h" "take (length p) (drop frame_size ?d) = p" using size by simp_all
  moreover have "length ?d \<ge> frame_size + length p" using size by simp
  moreover have "fh_type ?h = message_type_byte t" "fh_version ?h = kProtocolVersion" "fh_sequence ?h = n" by (simp_all add: frame_of_def)
  ultimately show ?thesis using rh rb len by (simp add: decode_message_def Let_def)
qed

lemma depth_bytes_length:
  "msg_type m = MsgDepthSnapshot \<Longrightarrow> length (message_bytes m) =
     12 + 20 * (min 256 (length (ds_bids (msg_depth m))) + min 256 (length (ds_asks (msg_depth m))))"
  by (simp add: message_bytes_def side_bytes_def level_bytes_length min.commute del: length_concat)

lemma fits_length: "message_fits m \<Longrightarrow> length (message_bytes m) \<le> 8192"
proof (cases "msg_type m = MsgDepthSnapshot")
  case True
  moreover assume "message_fits m"
  ultimately show ?thesis using depth_bytes_length[OF True] by (simp add: message_fits_def)
qed (cases "msg_type m"; simp add: message_bytes_def new_order_bytes_def cancel_bytes_def replace_bytes_def ack_bytes_def reject_bytes_def
  fill_bytes_def top_bytes_def i64_bytes_def)


definition demo_depth :: Message where
  "demo_depth = Message_default\<lparr>msg_type := MsgDepthSnapshot, msg_sequence := 7, msg_depth := \<lparr>ds_instrument = 1, ds_sequence = 7,
     ds_bids = [\<lparr>dl_price = 99, dl_quantity = 5, dl_order_count = 2\<rparr>], ds_asks = [\<lparr>dl_price = 101, dl_quantity = 4, dl_order_count = 1\<rparr>]\<rparr>\<rparr>"


section \<open>Any bytes\<close>

lemma safe_test: "safe m \<Longrightarrow> safe n \<Longrightarrow> safe (\<lambda>r. if b r then m r else n r)"
  by (simp add: safe_def)

lemma safe_levels: "safe (read_levels n)"
proof (induction n)
  case (Suc n)
  have "safe read_level" unfolding read_level_def[abs_def] by (intro safe_intros)
  then have "safe (\<lambda>r. do { (level, r) \<leftarrow> read_level r; (levels, r) \<leftarrow> read_levels n r; Some (level # levels, r) })"
    using Suc by (intro safe_intros)
  then show ?case by (simp add: fun_eq_iff)
qed (simp add: safe_def)

lemma safe_side: "safe read_side"
  unfolding read_side_def[abs_def] by (intro safe_intros safe_test safe_levels)

lemma safe_depth: "safe (read_depth n d)"
proof -
  have "safe (case x of (ok, bids) \<Rightarrow> \<lambda>r. if \<not> ok then Some ((False, d'), r)
      else do { ((ok, asks), r) \<leftarrow> read_side r; Some ((ok, d'\<lparr>ds_bids := bids, ds_asks := asks\<rparr>), r) })" for x and d' :: DepthSnapshot
  proof (cases x)
    case (Pair ok bids)
    have "safe (case y of (ok, asks) \<Rightarrow> \<lambda>r. Some ((ok, d'\<lparr>ds_bids := bids, ds_asks := asks\<rparr>), r))" for y
      by (cases y) (simp add: safe_return)
    then show ?thesis unfolding Pair prod.case by (intro safe_test safe_return safe_bind[OF safe_side])
  qed
  then show ?thesis unfolding read_depth_def[abs_def] Let_def
    by (intro safe_bind safe_intros safe_side)
qed

lemma safe_message: "safe (read_message t n m)"
proof (cases t)
  case MsgDepthSnapshot
  have "safe (case y of (ok, d) \<Rightarrow> \<lambda>r. Some ((ok, m\<lparr>msg_depth := d\<rparr>), r))" for y by (cases y) (simp add: safe_return)
  then show ?thesis unfolding MsgDepthSnapshot read_message_def[abs_def] MessageType.case by (intro safe_bind[OF safe_depth])
qed (simp_all only: read_message_def[abs_def] MessageType.case read_new_order_def read_cancel_def read_replace_def
    read_ack_def read_reject_def read_fill_def read_top_def, (intro safe_intros)+)

lemma safe_frame: "safe decode_frame_header"
  unfolding decode_frame_header_def[abs_def] by (intro safe_intros)

text \<open>The decoder, once the header has been read.\<close>

definition decode_after :: "FrameHeader \<Rightarrow> u8 list \<Rightarrow> MsgDecodeResult option" where
  "decode_after h data =
     (if fh_version h \<noteq> kProtocolVersion \<or> \<not> is_known_message (fh_type h) \<or> fh_payload_length h > frame_max_payload
      then Some (MsgDecodeResult_default\<lparr>mr_status := MsgUnreadable\<rparr>)
      else if length data < frame_size + unat (fh_payload_length h) then Some (MsgDecodeResult_default\<lparr>mr_status := MsgIncomplete\<rparr>)
      else (case read_message (message_type_of_byte (fh_type h)) (fh_sequence h)
          (Message_default\<lparr>msg_type := message_type_of_byte (fh_type h), msg_sequence := fh_sequence h\<rparr>)
          (ByteReader_new (take (unat (fh_payload_length h)) (drop frame_size data))) of
        None \<Rightarrow> None
      | Some ((ok, m), r) \<Rightarrow> if \<not> ok \<or> \<not> fully_consumed r
          then Some (MsgDecodeResult_default\<lparr>mr_message := m, mr_status := MsgUnreadable\<rparr>)
          else Some \<lparr>mr_status = MsgOk, mr_consumed = frame_size + unat (fh_payload_length h), mr_message = m\<rparr>))"

lemma decode_message_header:
  assumes "frame_size \<le> length data"
  shows "\<exists>h. \<forall>post. decode_message (data @ post) = decode_after h (data @ post)"
proof -
  obtain h rh where h: "decode_frame_header (ByteReader_new (take frame_size data)) = Some (h, rh)"
    using safe_run[OF safe_frame] by blast
  have "decode_message (data @ post) = decode_after h (data @ post)" for post
    using assms h by (auto simp: decode_message_def decode_after_def Let_def split: option.split)
  then show ?thesis by blast
qed

lemma after_total:
  assumes "frame_size \<le> length data"
  shows "\<exists>res. decode_after h data = Some res \<and> mr_consumed res \<le> length data \<and>
    (mr_status res = MsgOk \<longleftrightarrow> frame_size \<le> mr_consumed res) \<and>
    (mr_status res = MsgIncomplete \<longrightarrow> length data < frame_size + unat frame_max_payload)"
proof -
  obtain ok m r where "read_message (message_type_of_byte (fh_type h)) (fh_sequence h)
      (Message_default\<lparr>msg_type := message_type_of_byte (fh_type h), msg_sequence := fh_sequence h\<rparr>)
      (ByteReader_new (take (unat (fh_payload_length h)) (drop frame_size data))) = Some ((ok, m), r)"
    using safe_run[OF safe_message] by (metis surj_pair)
  then show ?thesis by (auto simp: decode_after_def MsgDecodeResult_default_def frame_size_def word_less_nat_alt)
qed

lemma after_settled:
  assumes "frame_size \<le> length data" "decode_after h data = Some res" "mr_status res \<noteq> MsgIncomplete"
  shows "decode_after h (data @ post) = Some res"
proof (cases "length data < frame_size + unat (fh_payload_length h)")
  case False
  then have "take (unat (fh_payload_length h)) (drop frame_size (data @ post)) = take (unat (fh_payload_length h)) (drop frame_size data)"
    using assms(1) by simp
  then show ?thesis using assms(2) False by (auto simp: decode_after_def)
qed (use assms in \<open>auto simp: decode_after_def split: if_splits\<close>)

lemma decoder_total:
  "\<exists>res. decode_message data = Some res \<and> mr_consumed res \<le> length data \<and>
     (mr_status res = MsgOk \<longleftrightarrow> frame_size \<le> mr_consumed res) \<and>
     (mr_status res = MsgIncomplete \<longrightarrow> length data < frame_size + unat frame_max_payload) \<and>
     (mr_status res = MsgIncomplete \<or> (\<forall>post. decode_message (data @ post) = Some res))"
proof (cases "frame_size \<le> length data")
  case True
  from decode_message_header[OF True] obtain h where h: "decode_message (data @ post) = decode_after h (data @ post)" for post by blast
  from after_total[OF True, of h] obtain res where res: "decode_after h data = Some res" "mr_consumed res \<le> length data"
    "mr_status res = MsgOk \<longleftrightarrow> frame_size \<le> mr_consumed res"
    "mr_status res = MsgIncomplete \<longrightarrow> length data < frame_size + unat frame_max_payload" by blast
  moreover have "decode_message data = Some res" using h[of "[]"] res(1) by simp
  ultimately show ?thesis using h after_settled[OF True res(1)] by auto
next
  case False
  then show ?thesis by (simp add: decode_message_def MsgDecodeResult_default_def frame_size_def)
qed

text \<open>C35: Framing.  On any bytes the decoder returns and stays inside them.  It consumes something exactly when it
  reports a message, at least a header; it asks for more only while it has less than the largest frame; and a
  verdict, a message or unreadable bytes, is final: bytes that arrive later do not change it.\<close>
theorem framing_total:
  "\<exists>res. decode_message data = Some res \<and> mr_consumed res \<le> length data \<and>
     (mr_status res = MsgOk \<longleftrightarrow> frame_size \<le> mr_consumed res) \<and>
     (mr_status res = MsgIncomplete \<longrightarrow> length data < frame_size + unat frame_max_payload) \<and>
     (mr_status res = MsgIncomplete \<or> (\<forall>post. decode_message (data @ post) = Some res))"
  by (rule decoder_total)

theorem framing_total_witness:
  "\<exists>res. decode_message [0, 0, 48, 1, 5, 0, 0, 0, 0, 0, 0, 0, 7] = Some res \<and> mr_status res = MsgOk \<and> mr_consumed res = 12"
proof -
  let ?d = "[0, 0, 48, 1, 5, 0, 0, 0, 0, 0, 0, 0, 7] :: u8 list"
  have "map_option mr_status (decode_message ?d) = Some MsgOk \<and> map_option mr_consumed (decode_message ?d) = Some 12" by code_simp
  then show ?thesis using framing_total[of ?d] by auto
qed

section \<open>Deep books\<close>

text \<open>C40: The decoder of the project refuses its own deep snapshots.  A depth snapshot whose two sides, each cut to
  256 levels, have more than 409 levels in all is encoded as a frame that decodes as unreadable, whatever
  follows.\<close>
theorem deep_snapshot_unreadable:
  assumes "msg_type m = MsgDepthSnapshot"
    "409 < min 256 (length (ds_bids (msg_depth m))) + min 256 (length (ds_asks (msg_depth m)))"
  shows "\<exists>bytes res. encode_message m out = Some (out @ bytes) \<and> decode_message (bytes @ post) = Some res \<and> mr_status res = MsgUnreadable"
proof -
  let ?p = "message_bytes m"
  let ?h = "frame_of (msg_type m) (msg_sequence m) ?p"
  have len: "8192 < length ?p" "length ?p < 2 ^ 16" using depth_bytes_length[OF assms(1)] assms(2) by simp_all
  have size: "length (frame_bytes ?h) = frame_size" by (simp add: frame_bytes_def frame_size_def)
  obtain rh where rh: "decode_frame_header (ByteReader_new (frame_bytes ?h)) = Some (?h, rh)"
    using reads_all[OF reads_frame[of ?h]] by auto
  have "unat (fh_payload_length ?h) = length ?p" using len(2) by (simp add: frame_of_def unat_of_nat take_bit_nat_eq_self)
  then have "fh_payload_length ?h > frame_max_payload" using len(1) by (simp add: word_less_nat_alt frame_max_payload_def)
  then have "decode_message ((frame_bytes ?h @ ?p) @ post) = Some (MsgDecodeResult_default\<lparr>mr_status := MsgUnreadable\<rparr>)"
    using rh size by (simp add: decode_message_def)
  then show ?thesis using encode_message_bytes[of m out] by fastforce
qed

theorem deep_snapshot_unreadable_witness:
  "\<exists>bytes res. encode_message (demo_depth\<lparr>msg_depth := \<lparr>ds_instrument = 1, ds_sequence = 7,
     ds_bids = replicate 256 \<lparr>dl_price = 99, dl_quantity = 5, dl_order_count = 2\<rparr>,
     ds_asks = replicate 256 \<lparr>dl_price = 101, dl_quantity = 5, dl_order_count = 2\<rparr>\<rparr>\<rparr>) [] = Some ([] @ bytes) \<and>
     decode_message (bytes @ []) = Some res \<and> mr_status res = MsgUnreadable"
  by (rule deep_snapshot_unreadable) (simp_all add: demo_depth_def)

end
