(* ===== verification/Gateway_Properties.thy ===== *)
theory Gateway_Properties
  imports Tcp_Gateway Protocol_Properties
begin

text \<open>
  What the order entry gateway guarantees a connection: what is sent to it arrives in order and nothing
  is lost or repeated, its queue is bounded, and what is received from it is cut into messages of one
  account.
\<close>

section \<open>Sending\<close>

definition pending :: "Connection \<Rightarrow> u8 list" where
  "pending c = drop (cn_outbound_sent c) (cn_outbound c)"

text \<open>The bytes the kernel has taken for one descriptor.\<close>

definition wire_of :: "int \<Rightarrow> Gateway \<Rightarrow> u8 list" where
  "wire_of fd g = concat (map snd (filter (\<lambda>x. fst x = fd) (gw_wire g)))"

text \<open>A network that from any point on at some time answers a call with more than an interruption or nothing sent.\<close>

definition net_progress :: "NetEnv \<Rightarrow> bool" where
  "net_progress env \<longleftrightarrow> (\<forall>n. \<exists>m \<ge> n. env m \<noteq> NetInterrupted \<and> env m \<noteq> NetSent 0)"

text \<open>No more is marked as sent than was queued.\<close>

definition queue_ok :: "Connection \<Rightarrow> bool" where
  "queue_ok c \<longleftrightarrow> cn_outbound_sent c \<le> length (cn_outbound c)"

text \<open>Sending moves a prefix of the pending bytes onto the wire and touches nothing else.\<close>

definition moved :: "u8 list \<Rightarrow> Connection \<Rightarrow> Gateway \<Rightarrow> Connection \<Rightarrow> Gateway \<Rightarrow> bool" where
  "moved sent c g c' g' \<longleftrightarrow> pending c = sent @ pending c' \<and> (queue_ok c \<longrightarrow> queue_ok c') \<and> wire_of (cn_fd c) g' = wire_of (cn_fd c) g @ sent \<and>
     (\<forall>fd. fd \<noteq> cn_fd c \<longrightarrow> wire_of fd g' = wire_of fd g) \<and>
     cn_id c' = cn_id c \<and> cn_fd c' = cn_fd c \<and> cn_account c' = cn_account c \<and> cn_inbound c' = cn_inbound c \<and>
     gw_by_id g' = gw_by_id g \<and> gw_by_fd g' = gw_by_fd g \<and> gw_config g' = gw_config g"

lemma moved_refl: "moved [] c g c (g\<lparr>gw_time := t\<rparr>)"
  by (simp add: moved_def wire_of_def)

lemma moved_trans: "moved s c g c1 g1 \<Longrightarrow> moved s' c1 g1 c2 g2 \<Longrightarrow> moved (s @ s') c g c2 g2"
  by (simp add: moved_def)

lemma moved_step:
  assumes "k = min n (length (pending c))"
  shows "moved (take k (pending c)) c g (c\<lparr>cn_outbound_sent := cn_outbound_sent c + k\<rparr>)
     (g\<lparr>gw_time := t, gw_wire := gw_wire g @ [(cn_fd c, take k (pending c))]\<rparr>)"
proof -
  have "pending c = take k (pending c) @ drop k (pending c)" by simp
  then show ?thesis using assms by (auto simp: moved_def pending_def wire_of_def queue_ok_def add.commute)
qed

definition delay :: "NetEnv \<Rightarrow> nat \<Rightarrow> nat" where
  "delay env n = (LEAST k. env (n + k) \<noteq> NetInterrupted \<and> env (n + k) \<noteq> NetSent 0)"

lemma delay_decreases:
  assumes "net_progress env" "env n = NetInterrupted \<or> env n = NetSent 0"
  shows "delay env (Suc n) < delay env n"
proof -
  let ?P = "\<lambda>k. env (n + k) \<noteq> NetInterrupted \<and> env (n + k) \<noteq> NetSent 0"
  obtain m where "m \<ge> n" "env m \<noteq> NetInterrupted \<and> env m \<noteq> NetSent 0" using assms(1) unfolding net_progress_def by blast
  then have "?P (m - n)" by simp
  then have p: "?P (delay env n)" unfolding delay_def by (rule LeastI)
  then obtain k where k: "delay env n = Suc k" using assms(2) by (cases "delay env n") auto
  then have "delay env (Suc n) \<le> k" unfolding delay_def[of env "Suc n"] using p by (intro Least_le) simp
  then show ?thesis using k by simp
qed

lemma drain_loop_moves:
  assumes "net_progress env"
  shows "\<exists>early c' g' sent. drain_loop env c g = Some (early, c', g') \<and> moved sent c g c' g' \<and> (early = None \<longrightarrow> pending c' = [])"
proof (induction "(c, g)" arbitrary: c g rule: wf_induct[OF wf_measures[of "[\<lambda>(c, g). length (pending c), \<lambda>(c, g). delay env (gw_time g)]"]])
  case (1 c g)
  let ?t = "g\<lparr>gw_time := gw_time g + 1\<rparr>"
  have skip: ?case if "drain_loop env c g = drain_loop env c ?t" "env (gw_time g) = NetInterrupted"
  proof -
    have "delay env (Suc (gw_time g)) < delay env (gw_time g)" using delay_decreases[OF assms] that(2) by simp
    then obtain early c' g' sent where "drain_loop env c ?t = Some (early, c', g')" "moved sent c ?t c' g'" "early = None \<longrightarrow> pending c' = []"
      using 1[rule_format, OF _ refl, of c ?t] by auto
    then show ?thesis using moved_trans[OF moved_refl[of c g "gw_time g + 1"]] that(1) by fastforce
  qed
  show ?case
  proof (cases "pending c = []")
    case True
    then show ?thesis by (subst drain_loop.simps) (auto simp: pending_def moved_def intro!: exI[of _ "[]"])
  next
    case False
    then have more: "cn_outbound_sent c < length (cn_outbound c)" by (simp add: pending_def)
    show ?thesis
    proof (cases "env (gw_time g)")
      case (NetSent n)
      let ?n = "min n (length (pending c))"
      let ?c = "c\<lparr>cn_outbound_sent := cn_outbound_sent c + ?n\<rparr>"
      let ?g = "g\<lparr>gw_time := gw_time g + 1, gw_wire := gw_wire g @ [(cn_fd c, take ?n (pending c))]\<rparr>"
      have step: "drain_loop env c g = drain_loop env ?c ?g" using more NetSent
        by (subst drain_loop.simps) (simp add: net_call_def pending_def Let_def)
      have "pending ?c = drop ?n (pending c)" by (simp add: pending_def add.commute)
      then have "((?c, ?g), (c, g)) \<in> measures [\<lambda>(c, g). length (pending c), \<lambda>(c, g). delay env (gw_time g)]"
        using delay_decreases[OF assms, of "gw_time g"] NetSent False by (cases n) (auto simp: min_def)
      then obtain early c' g' sent where "drain_loop env ?c ?g = Some (early, c', g')" "moved sent ?c ?g c' g'" "early = None \<longrightarrow> pending c' = []"
        using 1[rule_format, OF _ refl, of ?c ?g] by blast
      then show ?thesis using step moved_trans[OF moved_step[OF refl, of n c g "gw_time g + 1"]] by fastforce
    next
      case NetInterrupted
      then have "drain_loop env c g = drain_loop env c ?t" using more by (subst drain_loop.simps) (simp add: net_call_def Let_def)
      then show ?thesis using skip NetInterrupted by simp
    qed (use more moved_refl[of c g "gw_time g + 1"] in \<open>subst drain_loop.simps, force simp: net_call_def Let_def\<close>)+
  qed
qed

lemma drain_moves:
  assumes "net_progress env"
  shows "\<exists>ok c' g' sent. drain env c g = Some (ok, c', g') \<and> moved sent c g c' g'"
proof -
  obtain early c' g' sent where d: "drain_loop env c g = Some (early, c', g')" "moved sent c g c' g'" "early = None \<longrightarrow> pending c' = []"
    using drain_loop_moves[OF assms] by blast
  have "moved sent c g (c'\<lparr>cn_outbound := drop (cn_outbound_sent c') (cn_outbound c'), cn_outbound_sent := 0\<rparr>) g'"
    using d(2) by (simp add: moved_def pending_def queue_ok_def)
  moreover have "cn_outbound_sent c' = length (cn_outbound c') \<Longrightarrow> moved sent c g (c'\<lparr>cn_outbound := [], cn_outbound_sent := 0\<rparr>) g'"
    using d(2) by (simp add: moved_def pending_def queue_ok_def)
  ultimately show ?thesis using d(1,2) by (auto simp: drain_def split: option.split)
qed

text \<open>The table of connections.\<close>

lemma find_put: "find_connection (put_connection c g) k = (if k = cn_id c then Some c else find_connection g k)"
  by (simp add: find_connection_def put_connection_def update_conv')

lemma put_wire [simp]: "wire_of fd (put_connection c g) = wire_of fd g"
  by (simp add: put_connection_def wire_of_def)

lemma watch_fields [simp]:
  "gw_by_id (snd (watch env ctl g)) = gw_by_id g" "gw_wire (snd (watch env ctl g)) = gw_wire g"
  by (simp_all add: watch_def net_ok_def net_call_def split: prod.split)

lemma watch_keeps: "find_connection (snd (watch env ctl g)) k = find_connection g k" "wire_of fd (snd (watch env ctl g)) = wire_of fd g"
  by (simp_all add: find_connection_def wire_of_def)

lemma close_effect:
  "find_connection (close_connection env cid reason g) k = (if k = cid then None else find_connection g k)"
  "wire_of fd (close_connection env cid reason g) = wire_of fd g"
  by (auto simp: close_connection_def Let_def find_connection_def wire_of_def delete_conv' split: option.split)

lemma interest_effect:
  assumes "find_connection g (cn_id c) = Some c"
  shows "find_connection (update_write_interest env c g) k =
      (if k = cn_id c then Some (c\<lparr>cn_watching_write := cn_outbound_sent c < length (cn_outbound c)\<rparr>) else find_connection g k)"
    "wire_of fd (update_write_interest env c g) = wire_of fd g"
proof -
  have "c\<lparr>cn_watching_write := cn_watching_write c\<rparr> = c" by simp
  then have "w = cn_watching_write c \<Longrightarrow> c\<lparr>cn_watching_write := w\<rparr> = c" for w by simp
  then show "find_connection (update_write_interest env c g) k =
      (if k = cn_id c then Some (c\<lparr>cn_watching_write := cn_outbound_sent c < length (cn_outbound c)\<rparr>) else find_connection g k)"
    using assms by (simp add: update_write_interest_def Let_def watch_keeps find_put)
  show "wire_of fd (update_write_interest env c g) = wire_of fd g" by (simp add: update_write_interest_def Let_def watch_keeps)
qed

text \<open>C36: Sending is in order and bounded.  On a network that makes progress, sending to a connection returns.  If
  the queue would exceed its limit the connection is dropped and nothing goes out.  Otherwise what the kernel takes
  followed by what stays queued is what was queued followed by the new bytes, so that nothing is lost, repeated or
  reordered; the rest of the queue is within the limit, unless the connection failed and was dropped.  No other
  connection and no other descriptor is touched.\<close>
theorem send_in_order:
  assumes "net_progress env" "find_connection g cid = Some c" "cn_id c = cid" "queue_ok c"
  shows "\<exists>ok g' sent. gateway_send env cid bytes g = Some (ok, g') \<and>
    (if length (pending c) + length bytes > gc_max_outbound_bytes (gw_config g) then \<not> ok \<and> sent = []
     else \<exists>rest. sent @ rest = pending c @ bytes \<and>
       (ok \<longrightarrow> length rest \<le> gc_max_outbound_bytes (gw_config g) \<and>
         (\<exists>c'. find_connection g' cid = Some c' \<and> pending c' = rest \<and> queue_ok c' \<and> cn_fd c' = cn_fd c \<and> cn_account c' = cn_account c))) \<and>
    (\<not> ok \<longrightarrow> find_connection g' cid = None) \<and> (\<forall>k. k \<noteq> cid \<longrightarrow> find_connection g' k = find_connection g k) \<and>
    (\<forall>fd. wire_of fd g' = wire_of fd g @ (if fd = cn_fd c then sent else []))"
proof (cases "length (pending c) + length bytes > gc_max_outbound_bytes (gw_config g)")
  case True
  let ?g = "close_connection env cid OutboundLimit (g\<lparr>gw_dropped_slow := gw_dropped_slow g + 1\<rparr>)"
  have "gateway_send env cid bytes g = Some (False, ?g)" using True assms(2) by (simp add: gateway_send_def pending_def Let_def)
  moreover have "find_connection ?g k = (if k = cid then None else find_connection g k)" "wire_of fd ?g = wire_of fd g" for k fd
    unfolding close_effect by (simp_all add: find_connection_def wire_of_def)
  ultimately show ?thesis using True by (intro exI[of _ False] exI[of _ ?g] exI[of _ "[]"]) auto
next
  case False
  let ?c = "c\<lparr>cn_outbound := cn_outbound c @ bytes\<rparr>" and ?g = "g\<lparr>gw_messages_sent := gw_messages_sent g + 1\<rparr>"
  obtain ok c2 g1 sent where d: "drain env ?c ?g = Some (ok, c2, g1)" "moved sent ?c ?g c2 g1" using drain_moves[OF assms(1)] by blast
  let ?g2 = "put_connection c2 g1"
  let ?g' = "if ok then update_write_interest env c2 ?g2 else close_connection env cid SendError ?g2"
  have run: "gateway_send env cid bytes g = Some (ok, ?g')" using False assms(2) d(1) by (simp add: gateway_send_def pending_def Let_def)
  have c2: "cn_id c2 = cid" "cn_fd c2 = cn_fd c" "cn_account c2 = cn_account c" "queue_ok c2" "sent @ pending c2 = pending c @ bytes"
    using d(2) assms(3,4) by (simp_all add: moved_def pending_def queue_ok_def)
  have g1: "find_connection g1 k = find_connection g k" "wire_of fd g1 = wire_of fd g @ (if fd = cn_fd c then sent else [])" for k fd
    using d(2) by (auto simp: moved_def find_connection_def wire_of_def)
  have here: "find_connection ?g2 (cn_id c2) = Some c2" by (simp add: find_put)
  have found: "find_connection ?g' k = (if k = cid then (if ok then Some (c2\<lparr>cn_watching_write := cn_outbound_sent c2 < length (cn_outbound c2)\<rparr>) else None)
      else find_connection g k)" for k
    using c2(1) interest_effect(1)[OF here] by (simp add: close_effect find_put g1)
  have wire: "wire_of fd ?g' = wire_of fd g @ (if fd = cn_fd c then sent else [])" for fd
    using interest_effect(2)[OF here] by (simp add: close_effect g1)
  have "length (pending c2) \<le> gc_max_outbound_bytes (gw_config g)" using False arg_cong[OF c2(5), of length] by simp
  then show ?thesis using run found wire c2 False
    by (intro exI[of _ ok] exI[of _ ?g'] exI[of _ sent]) (auto simp: pending_def queue_ok_def)
qed

definition demo_connection :: Connection where
  "demo_connection = \<lparr>cn_id = 3, cn_fd = 8, cn_account = 5, cn_inbound = [], cn_outbound = [1, 2, 3], cn_outbound_sent = 1, cn_watching_write = True\<rparr>"

definition demo_gateway :: Gateway where
  "demo_gateway = (TcpGateway_new \<lparr>gc_port = 0, gc_max_connections = 4, gc_read_chunk = 16, gc_max_outbound_bytes = 10\<rparr>)
     \<lparr>gw_by_id := [(3, demo_connection)]\<rparr>"

lemma demo_found: "find_connection demo_gateway 3 = Some demo_connection"
  by (simp add: demo_gateway_def find_connection_def)

theorem send_in_order_witness:
  "\<exists>ok g' sent rest. gateway_send (\<lambda>n. if even n then NetInterrupted else NetSent 2) 3 [4] demo_gateway = Some (ok, g') \<and>
     sent @ rest = [2, 3, 4] \<and> wire_of 8 g' = sent"
proof -
  let ?env = "\<lambda>n. if even n then NetInterrupted else NetSent 2"
  have p: "net_progress ?env" unfolding net_progress_def
  proof
    fix n :: nat
    show "\<exists>m \<ge> n. ?env m \<noteq> NetInterrupted \<and> ?env m \<noteq> NetSent 0" by (intro exI[of _ "2 * n + 1"]) simp
  qed
  have "cn_id demo_connection = 3" "queue_ok demo_connection" "pending demo_connection = [2, 3]" "cn_fd demo_connection = 8" "wire_of 8 demo_gateway = []"
    "gc_max_outbound_bytes (gw_config demo_gateway) = 10"
    by (simp_all add: demo_connection_def queue_ok_def pending_def demo_gateway_def TcpGateway_new_def wire_of_def)
  then show ?thesis using send_in_order[OF p demo_found, of "[4]"] by fastforce
qed

section \<open>Receiving\<close>

text \<open>
  A handler that returns, and keeps the connection it is called for or closes it.  It is asked to do so
  only for messages that claim no account or the one the connection is bound to.
\<close>

definition answers :: "ConnectionId \<Rightarrow> (ConnectionId \<Rightarrow> Message \<Rightarrow> 'v \<times> Gateway \<Rightarrow> ('v \<times> Gateway) option) \<Rightarrow> bool" where
  "answers cid handler \<longleftrightarrow> (\<forall>m v g c. find_connection g cid = Some c \<and> (id_valid (claimed_account m) \<longrightarrow> claimed_account m = cn_account c) \<longrightarrow>
     (\<exists>v' g'. handler cid m (v, g) = Some (v', g') \<and> (\<forall>c'. find_connection g' cid = Some c' \<longrightarrow>
       cn_id c' = cn_id c \<and> cn_inbound c' = cn_inbound c \<and> cn_account c' = cn_account c)))"

definition framed_until :: "ConnectionId \<Rightarrow> Connection \<Rightarrow> nat option \<Rightarrow> Gateway \<Rightarrow> bool" where
  "framed_until cid c reached g' \<longleftrightarrow> (case reached of
       None \<Rightarrow> find_connection g' cid = None
     | Some k \<Rightarrow> k \<le> length (cn_inbound c) \<and> length (drop k (cn_inbound c)) < 8204 \<and>
         (\<exists>c'. find_connection g' cid = Some c' \<and> cn_inbound c' = cn_inbound c \<and> (id_valid (cn_account c) \<longrightarrow> cn_account c' = cn_account c)))"

lemma decode_loop_returns:
  assumes "answers cid handler" "find_connection g cid = Some c" "cn_id c = cid" "offset \<le> length (cn_inbound c)"
  shows "\<exists>reached v' g'. decode_loop env handler cid offset (v, g) = Some (reached, v', g') \<and> framed_until cid c reached g'"
  using assms(2-4)
proof (induction "length (cn_inbound c) - offset" arbitrary: offset v g c rule: less_induct)
  case less
  obtain res where res: "decode_message (drop offset (cn_inbound c)) = Some res" "mr_consumed res \<le> length (cn_inbound c) - offset"
    "mr_status res = MsgOk \<longleftrightarrow> 12 \<le> mr_consumed res" "mr_status res = MsgIncomplete \<longrightarrow> length (drop offset (cn_inbound c)) < 8204"
    using decoder_total[of "drop offset (cn_inbound c)"] by (auto simp: frame_size_def frame_max_payload_def)
  show ?case
  proof (cases "mr_status res")
    case MsgOk
    let ?m = "mr_message res" and ?g1 = "g\<lparr>gw_messages_received := gw_messages_received g + 1\<rparr>"
    show ?thesis
    proof (cases "id_valid (claimed_account ?m) \<and> id_valid (cn_account c) \<and> cn_account c \<noteq> claimed_account ?m")
      case True
      then show ?thesis using less.prems res MsgOk
        by (subst decode_loop.simps) (simp add: framed_until_def close_effect Let_def)
    next
      case False
      let ?bind = "id_valid (claimed_account ?m) \<and> \<not> id_valid (cn_account c)"
      let ?c = "if ?bind then c\<lparr>cn_account := claimed_account ?m\<rparr> else c"
      let ?g2 = "if ?bind then put_connection (c\<lparr>cn_account := claimed_account ?m\<rparr>) ?g1 else ?g1"
      have g2: "find_connection ?g2 cid = Some ?c"
        using less.prems by (simp add: find_put) (simp add: find_connection_def)
      have c: "cn_id ?c = cid" "cn_inbound ?c = cn_inbound c" "id_valid (claimed_account ?m) \<longrightarrow> claimed_account ?m = cn_account ?c"
        using less.prems(2) False by auto
      obtain v' g3 where h: "handler cid ?m (v, ?g2) = Some (v', g3)"
        "\<forall>c'. find_connection g3 cid = Some c' \<longrightarrow> cn_id c' = cid \<and> cn_inbound c' = cn_inbound c \<and> cn_account c' = cn_account ?c"
        using assms(1)[unfolded answers_def, rule_format, of ?g2 ?c ?m v] g2 c by auto
      have step: "decode_loop env handler cid offset (v, g) = (case find_connection g3 cid of
          None \<Rightarrow> Some (None, v', g3)
        | Some _ \<Rightarrow> decode_loop env handler cid (offset + mr_consumed res) (v', g3))"
        using less.prems(1) res(1) MsgOk False h(1) by (subst decode_loop.simps) (auto simp: Let_def)
      show ?thesis
      proof (cases "find_connection g3 cid")
        case None
        then show ?thesis using step by (simp add: framed_until_def)
      next
        case (Some c3)
        then have c3: "cn_id c3 = cid" "cn_inbound c3 = cn_inbound c" "cn_account c3 = cn_account ?c" using h(2) by auto
        obtain reached v'' g' where r: "decode_loop env handler cid (offset + mr_consumed res) (v', g3) = Some (reached, v'', g')"
          "framed_until cid c3 reached g'"
          using less.hyps[of c3 "offset + mr_consumed res" g3 v'] Some c3 res(2,3) MsgOk less.prems(3) by fastforce
        have "id_valid (cn_account c) \<longrightarrow> cn_account c3 = cn_account c" using c3(3) by simp
        then have "framed_until cid c reached g'" using r(2) c3(2) by (auto simp: framed_until_def split: option.splits)
        then show ?thesis using step r(1) Some by simp
      qed
    qed
  next
    case MsgIncomplete
    then show ?thesis using less.prems res by (subst decode_loop.simps) (simp add: framed_until_def)
  next
    case MsgUnreadable
    then show ?thesis using less.prems res by (subst decode_loop.simps) (simp add: framed_until_def close_effect)
  qed
qed

text \<open>C37: Framing a connection ends.  Whatever a client has sent, the framing loop returns, with any handler that
  returns when it is given a message that claims no account or the account of the connection; so it is never given
  another.  Either the connection is closed, or less than one largest frame is left over, the bytes received are
  unchanged, and an account once bound stays bound.\<close>
theorem framing_loop_ends:
  assumes "answers cid handler" "find_connection g cid = Some c" "cn_id c = cid"
  shows "\<exists>reached v' g'. decode_loop env handler cid 0 (v, g) = Some (reached, v', g') \<and>
    (case reached of
       None \<Rightarrow> find_connection g' cid = None
     | Some k \<Rightarrow> k \<le> length (cn_inbound c) \<and> length (drop k (cn_inbound c)) < frame_size + unat frame_max_payload \<and>
         (\<exists>c'. find_connection g' cid = Some c' \<and> cn_inbound c' = cn_inbound c \<and> (id_valid (cn_account c) \<longrightarrow> cn_account c' = cn_account c)))"
proof -
  have size: "frame_size + unat frame_max_payload = 8204" by (simp add: frame_size_def frame_max_payload_def)
  show ?thesis unfolding size using decode_loop_returns[OF assms, of 0 env v] by (simp only: framed_until_def)
qed

text \<open>A handler that remembers the messages, and a connection that has received a heartbeat and a half.\<close>

definition recorder :: "ConnectionId \<Rightarrow> Message \<Rightarrow> Message list \<times> Gateway \<Rightarrow> (Message list \<times> Gateway) option" where
  "recorder cid m st = (case st of (ms, g) \<Rightarrow> Some (ms @ [m], g))"

definition demo_received :: "u8 list" where
  "demo_received = [0, 0, 48, 1, 5, 0, 0, 0, 0, 0, 0, 0, 0, 0, 48]"

theorem framing_loop_ends_witness:
  "answers 3 recorder \<and> (\<exists>reached ms g'. decode_loop (\<lambda>_. NetOk) recorder 3 0
     ([], put_connection (demo_connection\<lparr>cn_inbound := demo_received\<rparr>) demo_gateway) = Some (reached, ms, g') \<and>
     (reached = None \<longrightarrow> find_connection g' 3 = None))"
proof -
  let ?c = "demo_connection\<lparr>cn_inbound := demo_received\<rparr>"
  have a: "answers 3 recorder" by (auto simp: answers_def recorder_def)
  have "find_connection (put_connection ?c demo_gateway) 3 = Some ?c" "cn_id ?c = 3"
    by (simp_all add: find_put) (simp_all add: demo_connection_def)
  from framing_loop_ends[OF a this, of "\<lambda>_. NetOk" "[]"] show ?thesis using a by (auto split: option.splits)
qed

end
