(* ===== verification/Histogram.thy ===== *)
theory Histogram
  imports XC_Prelude "HOL-Library.Multiset"
begin

text \<open>
  The log-linear latency histogram (\<open>include/xc/util/histogram.hpp\<close>, \<open>src/util/histogram.cpp\<close>).  Values
  and counts are 64-bit words.  The rank that a percentile asks for is computed in floating point;
  it is the parameter \<open>rank\<close> of \<open>value_at\<close>, and the two comparisons of the percentile itself are
  Boolean arguments.  The mean, which only divides two members, is left out.
\<close>

unbundle bit_operations_syntax

section \<open>The code\<close>

record Histogram =
  hg_significant_bits :: nat
  hg_sub_bucket_count :: u64
  hg_sub_bucket_half_count :: u64
  hg_sub_bucket_mask :: u64
  hg_max_value :: u64
  hg_counts :: "u64 list"
  hg_count :: u64
  hg_total :: u64
  hg_min :: u64
  hg_max :: u64
  hg_overflow :: u64

definition countl_zero :: "u64 \<Rightarrow> nat" where
  "countl_zero w = length (takeWhile Not (map (bit w) (rev [0..<64])))"

definition bucket_for :: "Histogram \<Rightarrow> u64 \<Rightarrow> nat" where
  "bucket_for h v = (let masked = v OR hg_sub_bucket_mask h; magnitude = 63 - countl_zero masked
     in if magnitude \<ge> hg_significant_bits h - 1 then magnitude - (hg_significant_bits h - 1) else 0)"

definition index_for :: "Histogram \<Rightarrow> u64 \<Rightarrow> u64" where
  "index_for h v = (let bucket = bucket_for h v; sub = drop_bit bucket v
     in if bucket = 0 then sub
        else (of_nat bucket + 1) * hg_sub_bucket_half_count h + (sub - hg_sub_bucket_half_count h))"

definition clamp_bits :: "nat \<Rightarrow> nat" where
  "clamp_bits n = (if n < 2 then 2 else if n > 20 then 20 else n)"

definition Histogram_new :: "u64 \<Rightarrow> nat \<Rightarrow> Histogram" where
  "Histogram_new max_value significant_bits = (
     let bits = clamp_bits significant_bits;
         sub_bucket_count = push_bit bits 1;
         h = \<lparr>hg_significant_bits = bits, hg_sub_bucket_count = sub_bucket_count,
           hg_sub_bucket_half_count = sub_bucket_count div 2, hg_sub_bucket_mask = sub_bucket_count - 1,
           hg_max_value = (if max_value < sub_bucket_count then sub_bucket_count else max_value),
           hg_counts = [], hg_count = 0, hg_total = 0, hg_min = 0, hg_max = 0, hg_overflow = 0\<rparr>
     in h\<lparr>hg_counts := replicate (unat (index_for h (hg_max_value h)) + 1) 0\<rparr>)"

definition lowest_value_at :: "Histogram \<Rightarrow> u64 \<Rightarrow> u64" where
  "lowest_value_at h index =
     (if index < 2 * hg_sub_bucket_half_count h then index
      else let above_linear = index - 2 * hg_sub_bucket_half_count h;
               bucket = above_linear div hg_sub_bucket_half_count h + 1;
               sub = index mod hg_sub_bucket_half_count h + hg_sub_bucket_half_count h
        in if bucket \<ge> 64 then hg_max_value h else push_bit (unat bucket) sub)"

definition highest_value_at :: "Histogram \<Rightarrow> u64 \<Rightarrow> u64" where
  "highest_value_at h index =
     (if index < 2 * hg_sub_bucket_half_count h then index
      else let above_linear = index - 2 * hg_sub_bucket_half_count h;
               bucket = above_linear div hg_sub_bucket_half_count h + 1
        in if bucket \<ge> 64 then hg_max_value h else lowest_value_at h index + push_bit (unat bucket) 1 - 1)"

definition hg_record :: "u64 \<Rightarrow> Histogram \<Rightarrow> Histogram option" where
  "hg_record v h =
     (if v > hg_max_value h
      then Some (h\<lparr>hg_overflow := hg_overflow h + 1, hg_max := (if v > hg_max h then v else hg_max h)\<rparr>)
      else do {
        let i = unat (index_for h v);
        c \<leftarrow> vget (hg_counts h) i;
        counts \<leftarrow> vset (hg_counts h) i (c + 1);
        Some (h\<lparr>hg_counts := counts, hg_count := hg_count h + 1, hg_total := hg_total h + v,
          hg_max := (if v > hg_max h then v else hg_max h),
          hg_min := (if hg_count h + 1 = 1 \<or> v < hg_min h then v else hg_min h)\<rparr>)
      })"

fun scan_counts :: "u64 list \<Rightarrow> nat \<Rightarrow> u64 \<Rightarrow> u64 \<Rightarrow> nat option" where
  "scan_counts [] i seen target = None"
| "scan_counts (c # cs) i seen target = (if seen + c \<ge> target then Some i else scan_counts cs (i + 1) (seen + c) target)"

definition value_at :: "(u64 \<Rightarrow> u64) \<Rightarrow> bool \<Rightarrow> bool \<Rightarrow> Histogram \<Rightarrow> u64" where
  "value_at rank at_most_zero at_least_hundred h =
     (if hg_count h = 0 then 0
      else if at_most_zero then hg_min h
      else if at_least_hundred then hg_max h
      else let target = rank (hg_count h + hg_overflow h) in
        (case scan_counts (hg_counts h) 0 0 target of
           Some i \<Rightarrow> min (highest_value_at h (of_nat i)) (hg_max h)
         | None \<Rightarrow> hg_max h))"

definition hg_reset :: "Histogram \<Rightarrow> Histogram" where
  "hg_reset h = h\<lparr>hg_counts := replicate (length (hg_counts h)) 0, hg_count := 0, hg_total := 0, hg_min := 0, hg_max := 0,
     hg_overflow := 0\<rparr>"

definition hg_merge :: "Histogram \<Rightarrow> Histogram \<Rightarrow> Histogram option" where
  "hg_merge h other =
     (if length (hg_counts h) \<noteq> length (hg_counts other) then None
      else let count = hg_count h + hg_count other in
        Some (h\<lparr>hg_counts := map2 (+) (hg_counts h) (hg_counts other), hg_count := count,
          hg_total := hg_total h + hg_total other, hg_overflow := hg_overflow h + hg_overflow other,
          hg_max := (if hg_max other > hg_max h then hg_max other else hg_max h),
          hg_min := (if count = hg_count other \<or> (hg_count other > 0 \<and> hg_min other < hg_min h)
            then hg_min other else hg_min h)\<rparr>))"

section \<open>The leading bit\<close>

definition msb_at :: "u64 \<Rightarrow> nat \<Rightarrow> bool" where
  "msb_at w m \<longleftrightarrow> bit w m \<and> (\<forall>n > m. \<not> bit w n)"

lemma msb_at_exists:
  assumes "w \<noteq> (0 :: u64)"
  obtains m where "msb_at w m" "m < 64"
proof -
  obtain k where k: "bit w k" using assms by (metis bit_eqI bit_0_eq bot_apply bot_bool_def)
  have fin: "finite {n. bit w n}"
    by (rule finite_subset[of _ "{..<64}"]) (auto dest: bit_imp_le_length)
  define m where "m = Max {n. bit w n}"
  have "bit w m" unfolding m_def using Max_in[OF fin] k by blast
  moreover have "\<forall>n > m. \<not> bit w n"
    unfolding m_def using Max_ge[OF fin] by (metis leD mem_Collect_eq)
  ultimately have "msb_at w m" by (simp add: msb_at_def)
  moreover have "m < 64" using \<open>bit w m\<close> bit_imp_le_length[of w m] by simp
  ultimately show thesis by (rule that)
qed

lemma no_bit_above:
  assumes "\<forall>n > m. \<not> bit (w :: u64) n"
  shows "unat w < 2 ^ (m + 1)"
proof -
  have "take_bit (m + 1) w = w"
    using assms by (intro bit_eqI) (auto simp: bit_take_bit_iff not_less_eq)
  then have "unat w = take_bit (m + 1) (unat w)" by (metis unsigned_take_bit_eq)
  then show ?thesis by (metis take_bit_nat_less_exp)
qed

lemma msb_at_bounds:
  assumes "msb_at w m"
  shows "2 ^ m \<le> unat w" "unat w < 2 ^ (m + 1)"
proof -
  have "bit (unat w) m" using assms by (simp add: msb_at_def bit_unsigned_iff)
  then have "odd (unat w div 2 ^ m)" by (simp add: bit_iff_odd)
  then have "unat w div 2 ^ m \<noteq> 0" by (metis even_zero)
  then show "2 ^ m \<le> unat w" by (metis div_less not_less)
  show "unat w < 2 ^ (m + 1)" using assms no_bit_above by (simp add: msb_at_def)
qed

lemma countl_zero_msb:
  assumes "msb_at w m" "m < 64"
  shows "63 - countl_zero w = m"
proof -
  have "[0..<64] = [0..<m] @ m # [Suc m..<64]"
    using assms(2) by (metis less_imp_add_positive upt_add_eq_append upt_conv_Cons zero_le)
  then have "map (bit w) (rev [0..<64]) = map (bit w) (rev [Suc m..<64]) @ True # map (bit w) (rev [0..<m])"
    using assms(1) by (simp add: msb_at_def)
  moreover have "takeWhile Not (map (bit w) (rev [Suc m..<64]) @ True # zs) = map (bit w) (rev [Suc m..<64])" for zs
    using assms(1) by (subst takeWhile_append2) (auto simp: msb_at_def)
  ultimately show ?thesis using assms(2) by (simp add: countl_zero_def)
qed

section \<open>Buckets\<close>

definition shaped :: "Histogram \<Rightarrow> bool" where
  "shaped h \<longleftrightarrow> (let b = hg_significant_bits h in 2 \<le> b \<and> b \<le> 20 \<and> unat (hg_sub_bucket_half_count h) = 2 ^ (b - 1) \<and>
     hg_sub_bucket_mask h = mask b \<and> 2 ^ b \<le> unat (hg_max_value h))"

lemma bucket_bounds:
  assumes "shaped h" and b: "b = hg_significant_bits h" and B: "B = bucket_for h v"
  shows "B = 0 \<Longrightarrow> unat v < 2 ^ b" "B \<noteq> 0 \<Longrightarrow> 2 ^ (b - 1 + B) \<le> unat v" "B \<noteq> 0 \<Longrightarrow> unat v < 2 ^ (b + B)"
    "b - 1 + B < 64"
proof -
  let ?w = "v OR mask b"
  have b2: "2 \<le> b" "b \<le> 20" and m: "hg_sub_bucket_mask h = mask b" using assms(1) b by (simp_all add: shaped_def Let_def)
  have "b - 1 < 64" "b - 1 < b" using b2 by linarith+
  then have low: "bit ?w (b - 1)" by (simp add: bit_or_iff bit_mask_iff)
  then have "?w \<noteq> 0" by (metis bit_0_eq bot_apply bot_bool_def)
  then obtain k where k: "msb_at ?w k" "k < 64" by (rule msb_at_exists)
  have kb: "b - 1 \<le> k" using low k(1) by (metis msb_at_def not_le)
  have Bk: "B = k - (b - 1)"
    unfolding B bucket_for_def using m kb countl_zero_msb[OF k] b by (simp add: Let_def)
  have up: "unat v < 2 ^ (k + 1)"
    using k(1) by (intro no_bit_above) (simp add: msb_at_def bit_or_iff)
  show "b - 1 + B < 64" using Bk kb k(2) by simp
  have "k + 1 = b + B" using Bk kb b2 by simp
  with up have up': "unat v < 2 ^ (b + B)" by metis
  then show "unat v < 2 ^ b" if "B = 0" using that by simp
  show "unat v < 2 ^ (b + B)" if "B \<noteq> 0" by (rule up')
  show "2 ^ (b - 1 + B) \<le> unat v" if "B \<noteq> 0"
  proof -
    have kk: "b - 1 + B = k" "b \<le> k" using Bk kb that by auto
    have "bit v k" using k(1) kk(2) by (simp add: msb_at_def bit_or_iff bit_mask_iff)
    moreover have "\<not> bit v n" if "k < n" for n using k(1) that by (simp add: msb_at_def bit_or_iff)
    ultimately have "msb_at v k" by (simp add: msb_at_def)
    from msb_at_bounds(1)[OF this] show ?thesis using kk(1) by simp
  qed
qed

text \<open>A bucket's index in numbers, and the range of the values it collects.\<close>

lemma index_unat:
  assumes h: "shaped h" and b: "b = hg_significant_bits h" and B: "B = bucket_for h v"
  shows "unat (index_for h v) = (if B = 0 then unat v else (B + 1) * 2 ^ (b - 1) + (unat v div 2 ^ B - 2 ^ (b - 1)))"
    "B \<noteq> 0 \<Longrightarrow> 2 ^ (b - 1) \<le> unat v div 2 ^ B" "B \<noteq> 0 \<Longrightarrow> unat v div 2 ^ B < 2 * 2 ^ (b - 1)"
proof -
  have b2: "2 \<le> b" "b \<le> 20" and half: "unat (hg_sub_bucket_half_count h) = 2 ^ (b - 1)"
    using h b by (simp_all add: shaped_def Let_def)
  note bb = bucket_bounds[OF h b B]
  have sub: "unat (drop_bit B v) = unat v div 2 ^ B" 
    unfolding unat_drop_bit_eq by (simp add: drop_bit_eq_div)
  have lo: "2 ^ (b - 1) \<le> unat v div 2 ^ B" if "B \<noteq> 0"
    using bb(2)[OF that] by (metis div_le_mono nonzero_mult_div_cancel_right power_add power_not_zero zero_neq_numeral)
  have "b + B = Suc (b - 1 + B)" using b2 by simp
  then have "2 ^ (b + B) = (2 * 2 ^ (b - 1)) * (2 ^ B :: nat)" by (simp only: power_Suc power_add mult.assoc)
  then have hi: "unat v div 2 ^ B < 2 * 2 ^ (b - 1)" if "B \<noteq> 0"
    using bb(3)[OF that] by (simp add: less_mult_imp_div_less)
  show "B \<noteq> 0 \<Longrightarrow> 2 ^ (b - 1) \<le> unat v div 2 ^ B" "B \<noteq> 0 \<Longrightarrow> unat v div 2 ^ B < 2 * 2 ^ (b - 1)" using lo hi by auto
  have "unat (index_for h v) = (B + 1) * 2 ^ (b - 1) + (unat v div 2 ^ B - 2 ^ (b - 1))" if nz: "B \<noteq> 0"
  proof -
    have pow: "2 ^ (b - 1) \<le> (2 ^ 19 :: nat)" using b2 by (intro power_increasing) auto
    have "unat (of_nat B + 1 :: u64) = B + 1"
      using bb(4) by (simp add: unat_word_ariths unat_of_nat take_bit_nat_eq_self)
    moreover have "(B + 1) * 2 ^ (b - 1) \<le> 65 * (2 ^ 19 :: nat)"
      using pow bb(4) by (intro mult_le_mono) auto
    ultimately have m: "unat ((of_nat B + 1) * hg_sub_bucket_half_count h) = (B + 1) * 2 ^ (b - 1)"
      using half by (simp add: unat_word_ariths)
    have s: "unat (drop_bit B v - hg_sub_bucket_half_count h) = unat v div 2 ^ B - 2 ^ (b - 1)"
      using lo[OF nz] sub half by (simp add: unat_sub word_le_nat_alt)
    have "unat v div 2 ^ B - 2 ^ (b - 1) < 2 ^ 19" using hi[OF nz] pow by linarith
    then show ?thesis
      using m s \<open>(B + 1) * 2 ^ (b - 1) \<le> 65 * 2 ^ 19\<close> nz B
      by (simp add: index_for_def Let_def unat_word_ariths)
  qed
  moreover have "unat (index_for h v) = unat v" if "B = 0"
    using that B by (simp add: index_for_def Let_def)
  ultimately show "unat (index_for h v) = (if B = 0 then unat v else (B + 1) * 2 ^ (b - 1) + (unat v div 2 ^ B - 2 ^ (b - 1)))"
    by simp
qed

lemma power_pred: "2 \<le> b \<Longrightarrow> (2 :: nat) ^ b = 2 * 2 ^ (b - 1)"
  by (cases b) simp_all

lemma index_mono:
  assumes h: "shaped h" and "v \<le> w"
  shows "index_for h v \<le> index_for h w"
proof -
  let ?b = "hg_significant_bits h" and ?B = "bucket_for h v" and ?C = "bucket_for h w"
  note v = index_unat[OF h refl refl, of v] and w = index_unat[OF h refl refl, of w]
  note bv = bucket_bounds[OF h refl refl, of v] and bw = bucket_bounds[OF h refl refl, of w]
  have le: "unat v \<le> unat w" using assms(2) by (simp add: word_le_nat_alt)
  have b2: "2 \<le> ?b" using h by (simp add: shaped_def Let_def)
  then have two: "(2 :: nat) ^ ?b = 2 * 2 ^ (?b - 1)" by (rule power_pred)
  have up: "unat (index_for h v) < (?B + 2) * 2 ^ (?b - 1)"
    using v bv(1) two by (cases "?B = 0") auto
  consider "?B = ?C" | "?B < ?C"
  proof -
    have "\<not> ?C < ?B"
    proof
      assume c: "?C < ?B"
      then have "2 ^ (?b - 1 + ?B) \<le> unat w" using bv(2) le by simp
      moreover have "unat w < 2 ^ (?b + ?C)" using bw by (cases "?C = 0") auto
      ultimately have "(2 :: nat) ^ (?b - 1 + ?B) < 2 ^ (?b + ?C)" by linarith
      then have "?b - 1 + ?B < ?b + ?C" by simp
      then show False using c b2 by simp
    qed
    then show thesis using that by linarith
  qed
  then have "unat (index_for h v) \<le> unat (index_for h w)"
  proof cases
    case 1
    then show ?thesis
      using v(1) w(1) le by (auto intro: diff_le_mono div_le_mono)
  next
    case 2
    then have "(?B + 2) * 2 ^ (?b - 1) \<le> (?C + 1) * 2 ^ (?b - 1)" by (intro mult_le_mono) auto
    then show ?thesis using up w(1) 2 by simp
  qed
  then show ?thesis by (simp add: word_le_nat_alt)
qed

lemma bucket_of_index:
  assumes h: "shaped h" and B: "B = bucket_for h v" "B \<noteq> 0"
  defines "half \<equiv> hg_sub_bucket_half_count h" and "i \<equiv> index_for h v"
  shows "\<not> i < 2 * half" "unat ((i - 2 * half) div half + 1) = B" "unat (i mod half + half) = unat v div 2 ^ B"
proof -
  let ?b = "hg_significant_bits h"
  let ?H = "2 ^ (?b - 1) :: nat" and ?r = "unat v div 2 ^ B - 2 ^ (?b - 1)"
  note v = index_unat[OF h refl B(1)] and bb = bucket_bounds[OF h refl B(1)]
  have b2: "2 \<le> ?b" "?b \<le> 20" and half: "unat half = ?H"
    using h by (simp_all add: shaped_def Let_def half_def)
  have pow: "?H \<le> 2 ^ 19" using b2 by (intro power_increasing) auto
  have i: "unat i = (B + 1) * ?H + ?r" using v(1) B(2) by (simp add: i_def)
  have r: "?r < ?H" using v(2,3)[OF B(2)] by linarith
  have two: "unat (2 * half) = 2 * ?H" using half pow by (simp add: unat_word_ariths)
  have split: "(B + 1) * ?H + ?r = 2 * ?H + ((B - 1) * ?H + ?r)" using B(2) by (cases B) (simp_all add: algebra_simps)
  show "\<not> i < 2 * half" using i two split by (simp add: word_less_nat_alt)
  then have sub: "unat (i - 2 * half) = (B - 1) * ?H + ?r"
    using i two split by (simp add: unat_sub not_less word_le_nat_alt)
  have d: "unat ((i - 2 * half) div half) = B - 1"
    using sub half r by (simp add: unat_div_distrib)
  have "B - 1 < 64" using bb(4) by simp
  then show "unat ((i - 2 * half) div half + 1) = B" using d B(2) by (simp add: unat_word_ariths)
  have "unat (i mod half) = (?r + (B + 1) * ?H) mod ?H"
    using i half by (simp add: unat_mod_distrib add.commute)
  also have "\<dots> = ?r" using r by (simp only: mod_mult_self1 mod_less)
  finally have "unat (i mod half) = ?r" .
  moreover have "unat v div 2 ^ B < 2 ^ 64" using v(3)[OF B(2)] pow by simp
  ultimately show "unat (i mod half + half) = unat v div 2 ^ B"
    using half r pow v(2)[OF B(2)] by (simp add: unat_word_ariths)
qed

lemma bucket_range:
  assumes h: "shaped h" and B: "B = bucket_for h v"
  shows "unat (lowest_value_at h (index_for h v)) = 2 ^ B * (unat v div 2 ^ B)"
    "unat (highest_value_at h (index_for h v)) = 2 ^ B * (unat v div 2 ^ B) + (2 ^ B - 1)"
proof -
  let ?i = "index_for h v" and ?half = "hg_sub_bucket_half_count h" and ?b = "hg_significant_bits h"
  have b2: "2 \<le> ?b" "?b \<le> 20" and half: "unat ?half = 2 ^ (?b - 1)" using h by (simp_all add: shaped_def Let_def)
  have "unat (lowest_value_at h ?i) = 2 ^ B * (unat v div 2 ^ B) \<and>
      unat (highest_value_at h ?i) = 2 ^ B * (unat v div 2 ^ B) + (2 ^ B - 1)"
  proof (cases "B = 0")
    case True
    have "2 ^ (?b - 1) \<le> (2 ^ 19 :: nat)" using b2 by (intro power_increasing) auto
    then have "unat (2 * ?half) = 2 * 2 ^ (?b - 1)" using half by (simp add: unat_word_ariths)
    also have "\<dots> = 2 ^ ?b" using b2 by (simp add: power_pred)
    finally have "?i < 2 * ?half"
      using bucket_bounds(1)[OF h refl B True] index_unat(1)[OF h refl B] True by (simp add: word_less_nat_alt)
    then show ?thesis
      using index_unat(1)[OF h refl B] True by (simp add: lowest_value_at_def highest_value_at_def)
  next
    case False
    note bi = bucket_of_index[OF h B False] and bb = bucket_bounds[OF h refl B]
    let ?k = "(?i - 2 * ?half) div ?half + 1" and ?s = "?i mod ?half + ?half"
    have lt: "\<not> ?k \<ge> 64" using bi(2) bb(4) b2 by (simp add: word_le_nat_alt)
    have q: "2 ^ B * (unat v div 2 ^ B) + (2 ^ B - 1) < 2 ^ 64"
    proof -
      have "unat v < 2 ^ (?b + B)" using bb(3) False by simp
      then have "unat v div 2 ^ B < 2 ^ ?b" by (simp add: power_add less_mult_imp_div_less)
      then have "2 ^ B * (unat v div 2 ^ B + 1) \<le> 2 ^ B * 2 ^ ?b" by (intro mult_le_mono2) simp
      also have "\<dots> = 2 ^ (?b + B)" by (simp add: power_add)
      also have "\<dots> \<le> 2 ^ 64" using bb(4) b2 by (intro power_increasing) auto
      finally have "2 ^ B * (unat v div 2 ^ B) + 2 ^ B \<le> 2 ^ 64" by (simp add: algebra_simps)
      moreover have "0 < (2 :: nat) ^ B" by simp
      ultimately show ?thesis by linarith
    qed
    then have q': "2 ^ B * (unat v div 2 ^ B) < 2 ^ 64" by (rule le_less_trans[OF le_add1])
    have lo: "unat (push_bit B ?s) = 2 ^ B * (unat v div 2 ^ B)"
      using bi(3) q' unfolding unsigned_push_bit_eq by (simp add: push_bit_eq_mult take_bit_nat_eq_self mult.commute)
    have "B < 64" using bb(4) by simp
    then have w: "unat (push_bit B 1 :: u64) = 2 ^ B"
      unfolding unsigned_push_bit_eq by (simp add: push_bit_eq_mult take_bit_nat_eq_self)
    have "unat (lowest_value_at h ?i) = 2 ^ B * (unat v div 2 ^ B)"
      unfolding lowest_value_at_def using bi lt lo by (simp add: Let_def)
    moreover have "highest_value_at h ?i = lowest_value_at h ?i + (push_bit B 1 - 1)"
      unfolding highest_value_at_def using bi lt by (simp add: Let_def)
    moreover have "unat (push_bit B 1 - 1 :: u64) = 2 ^ B - 1"
      using w by (subst unat_sub) (simp_all add: word_le_nat_alt)
    ultimately show ?thesis using q by (simp add: unat_word_ariths)
  qed
  then show "unat (lowest_value_at h ?i) = 2 ^ B * (unat v div 2 ^ B)"
    "unat (highest_value_at h ?i) = 2 ^ B * (unat v div 2 ^ B) + (2 ^ B - 1)" by auto
qed

text \<open>The value lies in the range its bucket stands for, which is narrow beside the value.\<close>

lemma bucket_contains:
  assumes "shaped h"
  shows "lowest_value_at h (index_for h v) \<le> v" "v \<le> highest_value_at h (index_for h v)"
proof -
  let ?B = "bucket_for h v"
  have "unat v = 2 ^ ?B * (unat v div 2 ^ ?B) + unat v mod 2 ^ ?B" by simp
  moreover have "unat v mod 2 ^ ?B < 2 ^ ?B" by simp
  ultimately have "2 ^ ?B * (unat v div 2 ^ ?B) \<le> unat v" "unat v \<le> 2 ^ ?B * (unat v div 2 ^ ?B) + (2 ^ ?B - 1)" by linarith+
  then show "lowest_value_at h (index_for h v) \<le> v" "v \<le> highest_value_at h (index_for h v)"
    using bucket_range[OF assms refl, of v] by (simp_all add: word_le_nat_alt)
qed

lemma bucket_precision:
  assumes "shaped h"
  shows "(unat (highest_value_at h (index_for h v)) - unat v) * 2 ^ (hg_significant_bits h - 1) \<le> unat v"
proof -
  let ?B = "bucket_for h v" and ?b = "hg_significant_bits h"
  have w: "unat (highest_value_at h (index_for h v)) - unat v \<le> 2 ^ ?B - 1"
    using bucket_range(2)[OF assms refl, of v] by (simp add: minus_mod_eq_mult_div[symmetric])
  show ?thesis
  proof (cases "?B = 0")
    case True
    then show ?thesis using w by simp
  next
    case False
    have "(unat (highest_value_at h (index_for h v)) - unat v) * 2 ^ (?b - 1) \<le> 2 ^ ?B * 2 ^ (?b - 1)"
      using w by (intro mult_le_mono1) linarith
    also have "\<dots> = 2 ^ (?b - 1 + ?B)" by (simp add: power_add)
    also have "\<dots> \<le> unat v" using bucket_bounds(2)[OF assms refl refl False] .
    finally show ?thesis .
  qed
qed

section \<open>Recorded samples\<close>

text \<open>\<open>xs\<close> are the samples within range, \<open>ys\<close> those above it, newest first.\<close>

definition holds_samples :: "Histogram \<Rightarrow> u64 list \<Rightarrow> u64 list \<Rightarrow> bool" where
  "holds_samples h xs ys \<longleftrightarrow> shaped h \<and> length (hg_counts h) = unat (index_for h (hg_max_value h)) + 1 \<and>
     (\<forall>i < length (hg_counts h). hg_counts h ! i = of_nat (length (filter (\<lambda>x. unat (index_for h x) = i) xs))) \<and>
     (\<forall>x \<in> set xs. x \<le> hg_max_value h) \<and> (\<forall>y \<in> set ys. hg_max_value h < y) \<and>
     hg_count h = of_nat (length xs) \<and> hg_overflow h = of_nat (length ys) \<and> hg_total h = sum_list xs \<and>
     hg_max h = Max (insert 0 (set xs \<union> set ys)) \<and> (xs \<noteq> [] \<longrightarrow> hg_min h = Min (set xs))"

lemma shape_kept [simp]:
  "index_for (h\<lparr>hg_counts := c\<rparr>) v = index_for h v" "index_for (h\<lparr>hg_count := n\<rparr>) v = index_for h v"
  "index_for (h\<lparr>hg_total := t\<rparr>) v = index_for h v" "index_for (h\<lparr>hg_max := m\<rparr>) v = index_for h v"
  "index_for (h\<lparr>hg_min := m\<rparr>) v = index_for h v" "index_for (h\<lparr>hg_overflow := m\<rparr>) v = index_for h v"
  "shaped (h\<lparr>hg_counts := c\<rparr>) = shaped h" "shaped (h\<lparr>hg_count := n\<rparr>) = shaped h"
  "shaped (h\<lparr>hg_total := t\<rparr>) = shaped h" "shaped (h\<lparr>hg_max := m\<rparr>) = shaped h"
  "shaped (h\<lparr>hg_min := m\<rparr>) = shaped h" "shaped (h\<lparr>hg_overflow := m\<rparr>) = shaped h"
  by (simp_all add: index_for_def bucket_for_def shaped_def Let_def)

lemma empty_holds:
  assumes "shaped h" "hg_count h = 0" "hg_overflow h = 0" "hg_total h = 0" "hg_max h = 0"
  shows "holds_samples (h\<lparr>hg_counts := replicate (unat (index_for h (hg_max_value h)) + 1) 0\<rparr>) [] []"
  using assms by (simp add: holds_samples_def del: replicate.simps replicate_Suc)

lemma new_holds: "holds_samples (Histogram_new max_value bits) [] []"
proof -
  let ?b = "clamp_bits bits" and ?c = "push_bit (clamp_bits bits) 1 :: u64"
  have b: "2 \<le> ?b" "?b \<le> 20" by (simp_all add: clamp_bits_def)
  then have c: "unat ?c = 2 ^ ?b" unfolding unsigned_push_bit_eq by (simp add: push_bit_eq_mult take_bit_nat_eq_self)
  then have half: "unat (?c div 2) = 2 ^ (?b - 1)" using b(1) by (simp add: unat_div_distrib power_pred)
  have m: "?c - 1 = mask ?b" by (simp add: mask_eq_exp_minus_1 push_bit_eq_mult)
  have "2 ^ ?b \<le> unat (if max_value < ?c then ?c else max_value)" using c by (auto simp: word_less_nat_alt)
  then show ?thesis
    using b half m unfolding Histogram_new_def Let_def by (intro empty_holds) (simp_all add: shaped_def Let_def)
qed

lemma record_holds:
  assumes "holds_samples h xs ys" and bound: "length xs + 1 < 2 ^ 64"
  shows "\<exists>h'. hg_record v h = Some h' \<and>
    (if v \<le> hg_max_value h then holds_samples h' (v # xs) ys else holds_samples h' xs (v # ys))"
proof -
  have sh: "shaped h" and len: "length (hg_counts h) = unat (index_for h (hg_max_value h)) + 1"
    and cnt: "\<forall>i < length (hg_counts h). hg_counts h ! i = of_nat (length (filter (\<lambda>x. unat (index_for h x) = i) xs))"
    and rest: "\<forall>x \<in> set xs. x \<le> hg_max_value h" "\<forall>y \<in> set ys. hg_max_value h < y"
      "hg_count h = of_nat (length xs)" "hg_overflow h = of_nat (length ys)" "hg_total h = sum_list xs"
      "hg_max h = Max (insert 0 (set xs \<union> set ys))" "xs \<noteq> [] \<longrightarrow> hg_min h = Min (set xs)"
    using assms(1) unfolding holds_samples_def by blast+
  define M where "M = (if v > hg_max h then v else hg_max h)"
  have "Max (insert v (insert 0 (set xs \<union> set ys))) = max v (Max (insert 0 (set xs \<union> set ys)))"
    by (rule Max_insert) auto
  moreover have "(if v > m then v else m) = max v m" for m by (auto simp: max_def)
  ultimately have mx: "Max (insert 0 (insert v (set xs \<union> set ys))) = M"
    unfolding M_def rest(6) insert_commute[of 0 v] by (simp only:)
  then have M: "Max (insert 0 (set xs \<union> set (v # ys))) = M" "Max (insert 0 (set (v # xs) \<union> set ys)) = M"
    by (simp_all only: list.set Un_insert_left Un_insert_right)
  show ?thesis
  proof (cases "v \<le> hg_max_value h")
    case False
    then have "hg_record v h = Some (h\<lparr>hg_overflow := hg_overflow h + 1, hg_max := M\<rparr>)"
      by (simp add: hg_record_def M_def not_le)
    then show ?thesis
      using False sh len cnt rest unfolding holds_samples_def M by simp
  next
    case True
    let ?i = "unat (index_for h v)"
    have i: "?i < length (hg_counts h)"
      using index_mono[OF sh True] len by (simp add: word_le_nat_alt)
    have "unat (of_nat (length xs) :: u64) = length xs"
      using bound by (simp add: unat_of_nat take_bit_nat_eq_self)
    moreover have "hg_count h + 1 = 1 \<longleftrightarrow> unat (hg_count h) = 0" by (simp add: unsigned_eq_0_iff)
    ultimately have one: "hg_count h + 1 = 1 \<longleftrightarrow> xs = []" using rest(3) by simp
    have mn: "(if hg_count h + 1 = 1 \<or> v < hg_min h then v else hg_min h) = Min (insert v (set xs))"
    proof (cases "xs = []")
      case False
      then have "Min (insert v (set xs)) = min v (hg_min h)" using rest(7) by (subst Min_insert) auto
      then show ?thesis using one False by (simp only: min_def) auto
    qed (use one in simp)
    have c: "(hg_counts h)[?i := hg_counts h ! ?i + 1] ! j =
        of_nat (length (filter (\<lambda>x. unat (index_for h x) = j) (v # xs)))" if "j < length (hg_counts h)" for j
      using cnt that i by (cases "j = ?i") (simp_all add: nth_list_update)
    have "hg_record v h = Some (h\<lparr>hg_counts := (hg_counts h)[?i := hg_counts h ! ?i + 1], hg_count := hg_count h + 1,
        hg_total := hg_total h + v, hg_max := M,
        hg_min := (if hg_count h + 1 = 1 \<or> v < hg_min h then v else hg_min h)\<rparr>)"
      using True i by (simp add: hg_record_def Let_def M_def vset_def)
    then show ?thesis
      using True sh len rest c unfolding mn holds_samples_def M by (simp add: add.commute)
  qed
qed

section \<open>Percentiles\<close>

lemma scan_counts_finds:
  assumes "s + sum_list ns < 2 ^ 64" "t < 2 ^ 64" "s < t"
  shows "case scan_counts (map of_nat ns) i (of_nat s) (of_nat t) of
      None \<Rightarrow> s + sum_list ns < t
    | Some j \<Rightarrow> \<exists>k < length ns. j = i + k \<and> s + sum_list (take k ns) < t \<and> t \<le> s + sum_list (take (Suc k) ns)"
  using assms
proof (induction ns arbitrary: i s)
  case (Cons n ns)
  have le: "(of_nat s + of_nat n :: u64) \<ge> of_nat t \<longleftrightarrow> t \<le> s + n"
    using Cons.prems unfolding of_nat_add[symmetric]
    by (simp only: word_le_nat_alt unat_of_nat) (simp add: take_bit_nat_eq_self)
  show ?case
  proof (cases "t \<le> s + n")
    case True
    then show ?thesis using le Cons.prems by auto
  next
    case False
    have "case scan_counts (map of_nat ns) (i + 1) (of_nat (s + n)) (of_nat t) of
        None \<Rightarrow> s + n + sum_list ns < t
      | Some j \<Rightarrow> \<exists>k < length ns. j = i + 1 + k \<and> s + n + sum_list (take k ns) < t \<and>
          t \<le> s + n + sum_list (take (Suc k) ns)"
      using Cons.prems False by (intro Cons.IH) auto
    then show ?thesis using False le by (auto split: option.splits simp: add.assoc)
  qed
qed simp

lemma filter_below: "length (filter (\<lambda>x. f x < k) xs) = sum_list (map (\<lambda>i. length (filter (\<lambda>x. f x = (i :: nat)) xs)) [0..<k])"
proof (induction k)
  case (Suc k)
  have "length (filter (\<lambda>x. f x < Suc k) xs) = length (filter (\<lambda>x. f x < k) xs) + length (filter (\<lambda>x. f x = k) xs)"
    by (induction xs) auto
  then show ?case using Suc by simp
qed simp

text \<open>Among sorted samples, the \<open>t\<close>-th smallest falls in the first \<open>k\<close> classes once they hold \<open>t\<close>.\<close>

lemma nth_smallest_class:
  assumes mono: "\<forall>x y. x \<le> y \<longrightarrow> f x \<le> f y" and t: "0 < t" "t \<le> length (filter (\<lambda>x. f x < (k :: nat)) xs)"
  shows "f (sort xs ! (t - 1)) < k"
proof (rule ccontr)
  assume n: "\<not> f (sort xs ! (t - 1)) < k"
  let ?s = "sort xs"
  have len: "length (filter (\<lambda>x. f x < k) ?s) = length (filter (\<lambda>x. f x < k) xs)"
    by (metis mset_filter mset_sort size_mset)
  have "filter (\<lambda>x. f x < k) (drop (t - 1) ?s) = []"
  proof (rule filter_False, intro ballI)
    fix x assume "x \<in> set (drop (t - 1) ?s)"
    then obtain j where "x = ?s ! (t - 1 + j)" "t - 1 + j < length ?s" by (auto simp: in_set_conv_nth)
    then have "?s ! (t - 1) \<le> x" using sorted_nth_mono[OF sorted_sort[of xs], of "t - 1" "t - 1 + j"] by simp
    then show "\<not> f x < k" using n mono by (meson le_less_trans not_less)
  qed
  then have "filter (\<lambda>x. f x < k) ?s = filter (\<lambda>x. f x < k) (take (t - 1) ?s)"
    by (metis append_Nil2 append_take_drop_id filter_append)
  then have "length (filter (\<lambda>x. f x < k) ?s) \<le> t - 1"
    by (metis le_trans length_filter_le length_take min.cobounded2)
  then show False using t len by simp
qed

lemma nth_smallest_below:
  assumes mono: "\<forall>x y. x \<le> y \<longrightarrow> f x \<le> f y" and t: "0 < t" "t \<le> length xs" and small: "f (sort xs ! (t - 1)) < (k :: nat)"
  shows "t \<le> length (filter (\<lambda>x. f x < k) xs)"
proof -
  let ?s = "sort xs"
  have "\<forall>x \<in> set (take t ?s). f x < k"
  proof
    fix x assume "x \<in> set (take t ?s)"
    then obtain j where "x = ?s ! j" "j < t" by (auto simp: in_set_conv_nth)
    then have "x \<le> ?s ! (t - 1)" using sorted_nth_mono[OF sorted_sort[of xs], of j "t - 1"] t by simp
    then show "f x < k" using mono small by (meson le_less_trans)
  qed
  then have "filter (\<lambda>x. f x < k) (take t ?s) = take t ?s" by simp
  then have "t \<le> length (filter (\<lambda>x. f x < k) (take t ?s @ drop t ?s))"
    using t(2) unfolding filter_append length_append by simp
  then show ?thesis by (metis append_take_drop_id mset_filter mset_sort size_mset)
qed

lemma value_at_covers:
  assumes h: "holds_samples h xs ys" and xs: "xs \<noteq> []" and bound: "length xs + length ys < 2 ^ 64"
    and t: "0 < t" "t \<le> length xs + length ys" and rank: "rank (hg_count h + hg_overflow h) = of_nat t"
  shows "sort (xs @ ys) ! (t - 1) \<le> value_at rank False False h" "value_at rank False False h \<le> hg_max h"
    "t \<le> length xs \<Longrightarrow> (unat (value_at rank False False h) - unat (sort (xs @ ys) ! (t - 1))) * 2 ^ (hg_significant_bits h - 1) \<le>
      unat (sort (xs @ ys) ! (t - 1))"
proof -
  have sh: "shaped h" and len: "length (hg_counts h) = unat (index_for h (hg_max_value h)) + 1"
    and cnt: "\<forall>i < length (hg_counts h). hg_counts h ! i = of_nat (length (filter (\<lambda>x. unat (index_for h x) = i) xs))"
    and lo: "\<forall>x \<in> set xs. x \<le> hg_max_value h" and hi: "\<forall>y \<in> set ys. hg_max_value h < y"
    and n: "hg_count h = of_nat (length xs)" and mx: "hg_max h = Max (insert 0 (set xs \<union> set ys))"
    using h unfolding holds_samples_def by blast+
  have below_max: "x \<le> hg_max h" if "x \<in> set (xs @ ys)" for x
    unfolding mx using that by (intro Max_ge) auto
  let ?f = "\<lambda>x. unat (index_for h x)" and ?x = "sort (xs @ ys) ! (t - 1)"
  let ?ns = "map (\<lambda>i. length (filter (\<lambda>x. ?f x = i) xs)) [0..<length (hg_counts h)]"
  have counts: "hg_counts h = map of_nat ?ns" using cnt by (intro nth_equalityI) simp_all
  have mono: "\<forall>x y. x \<le> y \<longrightarrow> ?f x \<le> ?f y" using index_mono[OF sh] by (simp add: word_le_nat_alt)
  have take: "sum_list (take k ?ns) = length (filter (\<lambda>x. ?f x < k) xs)" if "k \<le> length (hg_counts h)" for k
    using that by (simp add: filter_below take_map)
  have xin: "?x \<in> set (xs @ ys)" 
  proof -
    have "t - 1 < length (sort (xs @ ys))" using t by simp
    then have "?x \<in> set (sort (xs @ ys))" by (rule nth_mem)
    then show ?thesis by simp
  qed
  have all: "filter (\<lambda>x. ?f x < length (hg_counts h)) xs = xs"
    using lo index_mono[OF sh] len by (intro filter_True ballI) (simp add: word_le_nat_alt less_Suc_eq_le)
  have tot: "sum_list ?ns = length xs" using take[of "length (hg_counts h)"] all by simp
  have scan: "case scan_counts (hg_counts h) 0 0 (of_nat t) of None \<Rightarrow> length xs < t
    | Some j \<Rightarrow> j < length (hg_counts h) \<and> length (filter (\<lambda>x. ?f x < j) xs) < t \<and>
        t \<le> length (filter (\<lambda>x. ?f x < Suc j) xs)"
    using scan_counts_finds[of 0 ?ns t 0] bound t tot take unfolding counts[symmetric]
    by (auto split: option.splits)
  have "unat (hg_count h) = length xs" using n bound by (simp add: unat_of_nat take_bit_nat_eq_self)
  then have "hg_count h \<noteq> 0" using xs by auto
  then have v: "value_at rank False False h = (case scan_counts (hg_counts h) 0 0 (of_nat t) of
      Some i \<Rightarrow> min (highest_value_at h (of_nat i)) (hg_max h) | None \<Rightarrow> hg_max h)"
    using rank by (simp add: value_at_def Let_def)
  then show "value_at rank False False h \<le> hg_max h" by (auto split: option.splits)
  show "?x \<le> value_at rank False False h"
  proof (cases "scan_counts (hg_counts h) 0 0 (of_nat t)")
    case None
    then show ?thesis using v below_max[OF xin] by simp
  next
    case (Some j)
    then have j: "j < length (hg_counts h)" "length (filter (\<lambda>x. ?f x < j) xs) < t"
      "t \<le> length (filter (\<lambda>x. ?f x < Suc j) xs)" using scan by auto
    have "sort (xs @ ys) = sort xs @ sort ys"
      using lo hi by (intro properties_for_sort) (auto simp: sorted_append less_imp_le intro: order_trans)
    moreover have "t - 1 < length xs" using t(1) j(3) length_filter_le[of "\<lambda>x. ?f x < Suc j" xs] by linarith
    ultimately have xs': "?x = sort xs ! (t - 1)" by (simp add: nth_append)
    have fx: "?f ?x < Suc j" unfolding xs' by (rule nth_smallest_class[OF mono t(1) j(3)])
    have "filter (\<lambda>x. ?f x = j) xs \<noteq> []"
    proof
      assume "filter (\<lambda>x. ?f x = j) xs = []"
      then have "filter (\<lambda>x. ?f x < Suc j) xs = filter (\<lambda>x. ?f x < j) xs"
        by (intro filter_cong) (auto simp: filter_empty_conv less_Suc_eq)
      then show False using j by simp
    qed
    then obtain u where u: "u \<in> set xs" "?f u = j" by (metis (mono_tags, lifting) filter_False)
    have hj: "x \<le> highest_value_at h (of_nat j)" if "?f x = j" for x
      using bucket_contains(2)[OF sh, of x] by (simp add: that[symmetric])
    have "?x \<le> highest_value_at h (of_nat j)"
    proof (cases "?f ?x = j")
      case False
      then have "?f ?x < ?f u" using fx u(2) by simp
      then have "?x \<le> u" using mono by (metis leD nle_le)
      then show ?thesis using hj[OF u(2)] by (rule order_trans)
    qed (rule hj)
    then show ?thesis using v Some below_max[OF xin] by simp
  qed
  assume within: "t \<le> length xs"
  then obtain j where j: "scan_counts (hg_counts h) 0 0 (of_nat t) = Some j" "length (filter (\<lambda>x. ?f x < j) xs) < t"
    "t \<le> length (filter (\<lambda>x. ?f x < Suc j) xs)" using scan by (auto split: option.splits)
  have "sort (xs @ ys) = sort xs @ sort ys"
    using lo hi by (intro properties_for_sort) (auto simp: sorted_append less_imp_le intro: order_trans)
  moreover have "t - 1 < length xs" using t(1) within by simp
  ultimately have xs': "?x = sort xs ! (t - 1)" by (simp add: nth_append)
  have "?f ?x = j"
    using nth_smallest_class[OF mono t(1) j(3)] nth_smallest_below[OF mono t(1) within, of j] j(2) unfolding xs' by linarith
  then have "index_for h ?x = of_nat j" by auto
  then have "unat (value_at rank False False h) \<le> unat (highest_value_at h (index_for h ?x))"
    using v j(1) by (simp add: word_le_nat_alt[symmetric])
  then have "(unat (value_at rank False False h) - unat ?x) * 2 ^ (hg_significant_bits h - 1) \<le>
      (unat (highest_value_at h (index_for h ?x)) - unat ?x) * 2 ^ (hg_significant_bits h - 1)"
    by (intro mult_le_mono1) simp
  also have "\<dots> \<le> unat ?x" by (rule bucket_precision[OF sh])
  finally show "(unat (value_at rank False False h) - unat ?x) * 2 ^ (hg_significant_bits h - 1) \<le> unat ?x" .
qed

end
