(* ===== verification/Gap_Detector.thy ===== *)
theory Gap_Detector
  imports XC_Types
begin

text \<open>
  The market data gap detector (\<open>include/xc/protocol/gap_detector.hpp\<close>), with the accounting of
  every datagram it has been shown.
\<close>

datatype SequenceCheck = InOrder | Gap | Duplicate

record GapDetector =
  gd_expected :: SeqNum
  gd_in_order :: u64
  gd_gaps :: u64
  gd_missing :: u64
  gd_duplicates :: u64

definition GapDetector_new :: "SeqNum \<Rightarrow> GapDetector" where
  "GapDetector_new expected_first =
     \<lparr>gd_expected = expected_first, gd_in_order = 0, gd_gaps = 0, gd_missing = 0, gd_duplicates = 0\<rparr>"

definition observe :: "SeqNum \<Rightarrow> GapDetector \<Rightarrow> SequenceCheck \<times> GapDetector" where
  "observe sequence g =
     (if sequence = gd_expected g
      then (InOrder, g\<lparr>gd_expected := gd_expected g + 1, gd_in_order := gd_in_order g + 1\<rparr>)
      else if sequence < gd_expected g then (Duplicate, g\<lparr>gd_duplicates := gd_duplicates g + 1\<rparr>)
      else (Gap, g\<lparr>gd_missing := gd_missing g + (sequence - gd_expected g), gd_gaps := gd_gaps g + 1,
        gd_expected := sequence + 1\<rparr>))"

definition resynchronise :: "SeqNum \<Rightarrow> GapDetector \<Rightarrow> GapDetector" where
  "resynchronise sequence g = g\<lparr>gd_expected := sequence + 1\<rparr>"

fun observe_all :: "SeqNum list \<Rightarrow> GapDetector \<Rightarrow> SequenceCheck list \<times> GapDetector" where
  "observe_all [] g = ([], g)"
| "observe_all (n # ns) g = (let (c, g1) = observe n g; (cs, g2) = observe_all ns g1 in (c # cs, g2))"

section \<open>What the checks mean\<close>

text \<open>
  The numbers the subscriber has acted on (in order or revealing a gap) and the numbers skipped.
\<close>

fun processed :: "SeqNum list \<Rightarrow> GapDetector \<Rightarrow> SeqNum list" where
  "processed [] g = []"
| "processed (n # ns) g = (case observe n g of (c, g') \<Rightarrow>
     if c = Duplicate then processed ns g' else n # processed ns g')"

lemma observe_expected:
  assumes "unat n < 2 ^ 64 - 1"
  shows "unat (gd_expected (snd (observe n g))) = max (unat (gd_expected g)) (unat n + 1)"
proof -
  have "unat (n + 1) = unat n + 1"
    using assms by (simp add: unat_word_ariths)
  then show ?thesis
    by (auto simp: observe_def word_less_nat_alt max_def not_less)
qed

lemma processed_above:
  assumes "\<forall>n \<in> set ns. unat n < 2 ^ 64 - 1"
  shows "(\<forall>m \<in> set (processed ns g). unat (gd_expected g) \<le> unat m) \<and> sorted_wrt (<) (processed ns g)"
  using assms
proof (induction ns arbitrary: g)
  case (Cons n ns)
  let ?g = "snd (observe n g)"
  have e: "unat (gd_expected ?g) = max (unat (gd_expected g)) (unat n + 1)"
    using Cons.prems by (intro observe_expected) simp
  have ih: "\<forall>m \<in> set (processed ns ?g). unat (gd_expected ?g) \<le> unat m" "sorted_wrt (<) (processed ns ?g)"
    using Cons.IH[of ?g] Cons.prems by auto
  have d: "fst (observe n g) = Duplicate \<longleftrightarrow> unat n < unat (gd_expected g)"
    by (auto simp: observe_def word_less_nat_alt)
  have p: "processed (n # ns) g = (if fst (observe n g) = Duplicate then processed ns ?g else n # processed ns ?g)"
    by (simp split: prod.split)
  show ?case
  proof (cases "fst (observe n g) = Duplicate")
    case True
    then show ?thesis unfolding p using ih e by force
  next
    case False
    then have n: "\<forall>m \<in> set (processed ns ?g). n < m" "unat (gd_expected g) \<le> unat n"
      using ih(1) e d by (force simp: word_less_nat_alt)+
    then have "\<forall>m \<in> set (processed ns ?g). unat (gd_expected g) \<le> unat m"
      by (auto simp: word_less_nat_alt)
    with n ih(2) False show ?thesis unfolding p by simp
  qed
qed simp

text \<open>
  Counting: the span the detector has moved over is what it saw in order, what it saw beyond a gap
  and what it counted missing.
\<close>

lemma observe_balance:
  "gd_expected (snd (observe n g)) - gd_expected g =
     (gd_in_order (snd (observe n g)) - gd_in_order g) + (gd_gaps (snd (observe n g)) - gd_gaps g) +
     (gd_missing (snd (observe n g)) - gd_missing g)"
  by (simp add: observe_def)

lemma observe_all_balance:
  "gd_expected (snd (observe_all ns g)) - gd_expected g =
     (gd_in_order (snd (observe_all ns g)) - gd_in_order g) + (gd_gaps (snd (observe_all ns g)) - gd_gaps g) +
     (gd_missing (snd (observe_all ns g)) - gd_missing g)"
proof (induction ns arbitrary: g)
  case (Cons n ns)
  obtain c g1 where o: "observe n g = (c, g1)" by force
  obtain cs g2 where os: "observe_all ns g1 = (cs, g2)" by force
  have "gd_expected g2 - gd_expected g1 = (gd_in_order g2 - gd_in_order g1) + (gd_gaps g2 - gd_gaps g1) +
      (gd_missing g2 - gd_missing g1)"
    using Cons.IH[of g1] os by simp
  moreover have "gd_expected g1 - gd_expected g = (gd_in_order g1 - gd_in_order g) + (gd_gaps g1 - gd_gaps g) +
      (gd_missing g1 - gd_missing g)"
    using observe_balance[of n g] o by simp
  moreover have "gd_expected g2 - gd_expected g = (gd_expected g2 - gd_expected g1) + (gd_expected g1 - gd_expected g)"
    by simp
  ultimately have "gd_expected g2 - gd_expected g = (gd_in_order g2 - gd_in_order g) + (gd_gaps g2 - gd_gaps g) +
      (gd_missing g2 - gd_missing g)"
    by (simp only:) simp
  then show ?case using o os by simp
qed simp

end
