(* ===== verification/Utility_Properties.thy ===== *)
theory Utility_Properties
  imports Histogram Gap_Detector
begin

text \<open>
  What the subscriber of the market data and the reader of the latency histogram can rely on: the
  accounting of lost datagrams, and the accuracy of percentiles.
\<close>

section \<open>Gaps\<close>

text \<open>The checks of the detector, and the numbers below the first expected one or seen again.\<close>

lemma processed_checks:
  "processed ns g = map fst (filter (\<lambda>(n, c). c \<noteq> Duplicate) (zip ns (fst (observe_all ns g))))"
  by (induction ns arbitrary: g) (auto split: prod.splits)



section \<open>Percentiles\<close>

lemma record_kept: "hg_record v h = Some h' \<Longrightarrow> hg_max_value h' = hg_max_value h \<and> hg_significant_bits h' = hg_significant_bits h"
  by (auto simp: hg_record_def Let_def bind_eq_Some_conv split: if_splits)

lemma record_all_holds:
  assumes "holds_samples h xs ys" "length xs + length vs < 2 ^ 64"
  shows "\<exists>h'. foldM hg_record vs h = Some h' \<and> holds_samples h' (rev (filter (\<lambda>v. v \<le> hg_max_value h) vs) @ xs)
      (rev (filter (\<lambda>v. \<not> v \<le> hg_max_value h) vs) @ ys) \<and> hg_significant_bits h' = hg_significant_bits h"
  using assms
proof (induction vs arbitrary: h xs ys)
  case (Cons v vs)
  obtain h1 where h1: "hg_record v h = Some h1"
    "if v \<le> hg_max_value h then holds_samples h1 (v # xs) ys else holds_samples h1 xs (v # ys)"
    using record_holds[OF Cons.prems(1), of v] Cons.prems(2) by auto
  then show ?case
    using Cons.IH[of h1 "if v \<le> hg_max_value h then v # xs else xs" "if v \<le> hg_max_value h then ys else v # ys"] Cons.prems(2)
      record_kept[OF h1(1)] by (auto split: if_splits)
qed simp



end
