(* ===== verification/Udp_Feed.thy ===== *)
theory Udp_Feed
  imports XC_Types
begin

text \<open>
  The market data sockets (\<open>include/xc/net/udp_feed.hpp\<close>, \<open>src/net/udp_feed.cpp\<close>).  The socket calls
  are parameters: \<open>inet_pton\<close> gives the host-order address of a text, and a record holds the reply of
  each call an \<open>open\<close> may make.  The texts of errors are left out.
\<close>

unbundle bit_operations_syntax

record FeedConfig =
  fc_address :: string
  fc_port :: u16
  fc_interface_address :: string
  fc_ttl :: u8
  fc_loopback :: bool
  fc_max_datagram :: nat

definition is_multicast_address :: "(string \<Rightarrow> u32 option) \<Rightarrow> string \<Rightarrow> bool" where
  "is_multicast_address inet_pton address = (case inet_pton address of
       None \<Rightarrow> False
     | Some host_order \<Rightarrow> host_order AND 0xF0000000 = 0xE0000000)"

definition fill_address :: "(string \<Rightarrow> u32 option) \<Rightarrow> string \<Rightarrow> u16 \<Rightarrow> (u32 \<times> u16) option" where
  "fill_address inet_pton text port = (case inet_pton text of None \<Rightarrow> None | Some a \<Rightarrow> Some (a, port))"

text \<open>Replies: the descriptor or a negative number, and which of the later calls succeed.\<close>

record SocketReplies =
  sk_socket :: int
  sk_reuse :: bool
  sk_bind :: bool
  sk_getsockname :: "u16 option"
  sk_multicast_if :: bool
  sk_multicast_ttl :: bool
  sk_multicast_loop :: bool
  sk_membership :: bool
  sk_non_blocking :: bool

section \<open>Publisher\<close>

record UdpPublisher =
  pub_config :: FeedConfig
  pub_fd :: int
  pub_bound_port :: u16
  pub_multicast :: bool
  pub_destination :: "(u32 \<times> u16) option"
  pub_datagrams_sent :: u64
  pub_bytes_sent :: u64
  pub_send_failures :: u64

definition UdpPublisher_new :: "FeedConfig \<Rightarrow> UdpPublisher" where
  "UdpPublisher_new config = \<lparr>pub_config = config, pub_fd = -1, pub_bound_port = 0, pub_multicast = False,
     pub_destination = None, pub_datagrams_sent = 0, pub_bytes_sent = 0, pub_send_failures = 0\<rparr>"

definition pub_close :: "UdpPublisher \<Rightarrow> UdpPublisher" where
  "pub_close p = (if pub_fd p \<ge> 0 then p\<lparr>pub_fd := -1\<rparr> else p)"

definition pub_open :: "(string \<Rightarrow> u32 option) \<Rightarrow> SocketReplies \<Rightarrow> UdpPublisher \<Rightarrow> bool \<times> UdpPublisher" where
  "pub_open inet_pton sk p0 = (
     let c = pub_config p0;
         p1 = p0\<lparr>pub_multicast := is_multicast_address inet_pton (fc_address c), pub_fd := sk_socket sk\<rparr>
     in if sk_socket sk < 0 then (False, p1)
        else (case fill_address inet_pton (fc_address c) (fc_port c) of
          None \<Rightarrow> (False, pub_close p1)
        | Some destination \<Rightarrow>
            let p2 = p1\<lparr>pub_destination := Some destination\<rparr> in
            if pub_multicast p2 \<and> (inet_pton (fc_interface_address c) = None \<or> \<not> sk_multicast_if sk \<or>
                 \<not> sk_multicast_ttl sk \<or> \<not> sk_multicast_loop sk)
            then (False, pub_close p2)
            else if \<not> sk_non_blocking sk then (False, pub_close p2)
            else (True, p2\<lparr>pub_bound_port := fc_port c\<rparr>)))"

text \<open>\<open>sent\<close> is what \<open>sendto\<close> returns.\<close>

definition publish :: "int \<Rightarrow> u8 list \<Rightarrow> UdpPublisher \<Rightarrow> bool \<times> UdpPublisher" where
  "publish sent payload p =
     (if pub_fd p < 0 then (False, p)
      else if length payload > fc_max_datagram (pub_config p)
      then (False, p\<lparr>pub_send_failures := pub_send_failures p + 1\<rparr>)
      else if sent < 0 then (False, p\<lparr>pub_send_failures := pub_send_failures p + 1\<rparr>)
      else (True, p\<lparr>pub_datagrams_sent := pub_datagrams_sent p + 1, pub_bytes_sent := pub_bytes_sent p + word_of_int sent\<rparr>))"

section \<open>Subscriber\<close>

record UdpSubscriber =
  sub_config :: FeedConfig
  sub_fd :: int
  sub_bound_port :: u16
  sub_multicast :: bool
  sub_datagrams_received :: u64

definition UdpSubscriber_new :: "FeedConfig \<Rightarrow> UdpSubscriber" where
  "UdpSubscriber_new config = \<lparr>sub_config = config, sub_fd = -1, sub_bound_port = 0, sub_multicast = False,
     sub_datagrams_received = 0\<rparr>"

definition sub_close :: "UdpSubscriber \<Rightarrow> UdpSubscriber" where
  "sub_close s = (if sub_fd s \<ge> 0 then s\<lparr>sub_fd := -1\<rparr> else s)"

definition sub_open :: "(string \<Rightarrow> u32 option) \<Rightarrow> SocketReplies \<Rightarrow> UdpSubscriber \<Rightarrow> bool \<times> UdpSubscriber" where
  "sub_open inet_pton sk s0 = (
     let c = sub_config s0;
         s1 = s0\<lparr>sub_multicast := is_multicast_address inet_pton (fc_address c), sub_fd := sk_socket sk\<rparr>
     in if sk_socket sk < 0 then (False, s1)
        else if \<not> sk_reuse sk then (False, sub_close s1)
        else if \<not> sk_bind sk then (False, sub_close s1)
        else let s2 = (case sk_getsockname sk of None \<Rightarrow> s1 | Some port \<Rightarrow> s1\<lparr>sub_bound_port := port\<rparr>) in
          if sub_multicast s2 \<and> (inet_pton (fc_address c) = None \<or> inet_pton (fc_interface_address c) = None \<or>
               \<not> sk_membership sk)
          then (False, sub_close s2)
          else if \<not> sk_non_blocking sk then (False, sub_close s2)
          else (True, s2))"

text \<open>
  The replies of successive \<open>recv\<close> calls: a datagram, cut by the kernel to the buffer, an
  interruption, or nothing.
\<close>

datatype RecvReply = Datagram "u8 list" | RecvInterrupted | RecvFailed

fun sub_receive :: "RecvReply list \<Rightarrow> u8 list \<Rightarrow> UdpSubscriber \<Rightarrow> (bool \<times> u8 list \<times> UdpSubscriber) option" where
  "sub_receive replies out s =
     (if sub_fd s < 0 then Some (False, out, s)
      else (case replies of
          [] \<Rightarrow> None
        | RecvInterrupted # rs \<Rightarrow> sub_receive rs out s
        | RecvFailed # _ \<Rightarrow> Some (False, [], s)
        | Datagram d # _ \<Rightarrow> Some (True, take (fc_max_datagram (sub_config s)) d,
            s\<lparr>sub_datagrams_received := sub_datagrams_received s + 1\<rparr>)))"

section \<open>What is sent and received\<close>

lemma open_result:
  "fst (pub_open inet_pton sk p) \<longleftrightarrow> pub_fd (snd (pub_open inet_pton sk p)) \<ge> 0"
  by (auto simp: pub_open_def Let_def pub_close_def split: option.splits)

lemma subscribe_result:
  "fst (sub_open inet_pton sk s) \<longleftrightarrow> sub_fd (snd (sub_open inet_pton sk s)) \<ge> 0"
  by (auto simp: sub_open_def Let_def sub_close_def split: option.splits)

text \<open>Every attempt on an open socket is counted once, and nothing above the limit is ever sent.\<close>

lemma publish_counted:
  assumes "pub_fd p \<ge> 0"
  shows "pub_datagrams_sent (snd (publish sent d p)) + pub_send_failures (snd (publish sent d p)) =
      pub_datagrams_sent p + pub_send_failures p + 1"
    "fst (publish sent d p) \<longleftrightarrow> length d \<le> fc_max_datagram (pub_config p) \<and> sent \<ge> 0"
  using assms by (simp_all add: publish_def)

text \<open>A subscriber configured like the publisher gets whole datagrams.\<close>

lemma receive_whole:
  assumes "fst (publish sent d p)" "fc_max_datagram (sub_config s) = fc_max_datagram (pub_config p)"
    "sub_fd s \<ge> 0" "\<forall>r \<in> set rs. r = RecvInterrupted"
  shows "\<exists>s'. sub_receive (rs @ [Datagram d]) out s = Some (True, d, s')"
  using assms(4)
proof (induction rs)
  case Nil
  then show ?case using assms by (simp add: publish_def split: if_splits)
next
  case (Cons r rs)
  then show ?case using assms(3) by simp
qed

end
