(* ===== verification/Venue.thy ===== *)
theory Venue
  imports Matching_Engine Tcp_Gateway Udp_Feed
begin

text \<open>
  The venue (\<open>include/xc/venue.hpp\<close>, \<open>src/venue.cpp\<close>): order entry, matching, risk, journal and market
  data on one thread.  The risk engine, the kill switch and the journal writer that the venue owns
  are the ones its engine holds.  The engine's calls to the venue as its listener are made while a
  command runs; none of them looks at the engine, so they are made here from the list of the
  command's events when the engine returns.  \<open>Outside\<close> is everything the venue does not control.
\<close>

section \<open>State\<close>

record Outside =
  os_disk :: Env
  os_net :: NetEnv
  os_clock :: "nat \<Rightarrow> Nanos"
  os_sendto :: "nat \<Rightarrow> int"

record VenueConfig =
  vc_gateway :: GatewayConfig
  vc_feed :: FeedConfig
  vc_journal :: "WriterConfig option"
  vc_instruments :: "Instrument list"
  vc_default_limits :: AccountLimits
  vc_default_controls :: InstrumentControls
  vc_published_depth :: nat

record Venue =
  vn_config :: VenueConfig
  vn_engine :: Engine
  vn_feed :: UdpPublisher
  vn_current_connection :: ConnectionId
  vn_feed_sequence :: SeqNum
  vn_commands_processed :: u64
  vn_depth :: DepthSnapshot
  vn_clock :: nat
  vn_publishes :: nat
  vn_datagrams :: "u8 list list"

definition Venue_new :: "VenueConfig \<Rightarrow> Venue" where
  "Venue_new config = \<lparr>vn_config = config, vn_engine = MatchingEngine_new, vn_feed = UdpPublisher_new (vc_feed config),
     vn_current_connection = 0, vn_feed_sequence = 0, vn_commands_processed = 0, vn_depth = DepthSnapshot_default,
     vn_clock = 0, vn_publishes = 0, vn_datagrams = []\<rparr>"

definition read_clock :: "Outside \<Rightarrow> Venue \<Rightarrow> Nanos \<times> Venue" where
  "read_clock os v = (os_clock os (vn_clock v), v\<lparr>vn_clock := vn_clock v + 1\<rparr>)"

section \<open>Sending\<close>

definition send_session :: "Outside \<Rightarrow> u8 list \<Rightarrow> Venue \<times> Gateway \<Rightarrow> (Venue \<times> Gateway) option" where
  "send_session os bytes st = (case st of (v, g) \<Rightarrow>
     if vn_current_connection v \<noteq> 0
     then do { (_, g') \<leftarrow> gateway_send (os_net os) (vn_current_connection v) bytes g; Some (v, g') }
     else Some (v, g))"

definition feed_publish :: "Outside \<Rightarrow> u8 list \<Rightarrow> Venue \<Rightarrow> Venue" where
  "feed_publish os bytes v = (case publish (os_sendto os (vn_publishes v)) bytes (vn_feed v) of (ok, feed) \<Rightarrow>
     v\<lparr>vn_feed := feed, vn_publishes := vn_publishes v + 1,
       vn_datagrams := (if ok then vn_datagrams v @ [bytes] else vn_datagrams v)\<rparr>)"

definition publish_market_data :: "Outside \<Rightarrow> InstrumentId \<Rightarrow> Venue \<Rightarrow> Venue option" where
  "publish_market_data os instrument v = (case book_for (vn_engine v) instrument of
       None \<Rightarrow> Some v
     | Some book \<Rightarrow>
         if vc_published_depth (vn_config v) = 0 then do {
           top \<leftarrow> top_of_book book;
           let v = v\<lparr>vn_feed_sequence := vn_feed_sequence v + 1\<rparr>;
           bytes \<leftarrow> encode_top_of_book (vn_feed_sequence v) top [];
           Some (feed_publish os bytes v)
         }
         else do {
           snapshot \<leftarrow> depth book (vc_published_depth (vn_config v)) (vn_depth v);
           let v = v\<lparr>vn_depth := snapshot, vn_feed_sequence := vn_feed_sequence v + 1\<rparr>;
           bytes \<leftarrow> encode_depth (vn_feed_sequence v) snapshot [];
           Some (feed_publish os bytes v)
         })"

section \<open>The engine's listener\<close>

definition on_order_accepted :: "Outside \<Rightarrow> Order \<Rightarrow> Venue \<times> Gateway \<Rightarrow> (Venue \<times> Gateway) option" where
  "on_order_accepted os ord st = do {
     bytes \<leftarrow> encode_accepted (ord_sequence ord) \<lparr>ack_order = ord_id ord, ack_account = ord_account ord,
       ack_instrument = ord_instrument ord, ack_filled = filled ord, ack_remaining = ord_remaining ord,
       ack_timestamp = ord_accepted_at ord\<rparr> [];
     send_session os bytes st
   }"

definition on_order_rejected :: "Outside \<Rightarrow> SeqNum \<Rightarrow> NewOrder \<Rightarrow> RejectReason \<Rightarrow> Venue \<times> Gateway \<Rightarrow> (Venue \<times> Gateway) option" where
  "on_order_rejected os sequence command reason st = (case st of (v, g) \<Rightarrow> do {
     let (now, v) = read_clock os v;
     bytes \<leftarrow> encode_rejected sequence \<lparr>rej_order = no_id command, rej_account = no_account command, rej_reason = reason,
       rej_timestamp = now\<rparr> [];
     send_session os bytes (v, g)
   })"

definition acknowledge ::
    "(OrderAck \<Rightarrow> u8 list \<Rightarrow> u8 list option) \<Rightarrow> Outside \<Rightarrow> Order \<Rightarrow> Venue \<times> Gateway \<Rightarrow> (Venue \<times> Gateway) option" where
  "acknowledge encode os ord st = (case st of (v, g) \<Rightarrow> do {
     let (now, v) = read_clock os v;
     bytes \<leftarrow> encode \<lparr>ack_order = ord_id ord, ack_account = ord_account ord, ack_instrument = ord_instrument ord,
       ack_filled = filled ord, ack_remaining = ord_remaining ord, ack_timestamp = now\<rparr> [];
     send_session os bytes (v, g)
   })"

definition on_order_cancelled :: "Outside \<Rightarrow> SeqNum \<Rightarrow> Order \<Rightarrow> Venue \<times> Gateway \<Rightarrow> (Venue \<times> Gateway) option" where
  "on_order_cancelled os sequence ord = acknowledge (encode_cancelled sequence) os ord"

definition on_order_replaced :: "Outside \<Rightarrow> SeqNum \<Rightarrow> Order \<Rightarrow> Order \<Rightarrow> Venue \<times> Gateway \<Rightarrow> (Venue \<times> Gateway) option" where
  "on_order_replaced os sequence previous amended = acknowledge (encode_replaced sequence) os amended"

definition report_fill :: "Outside \<Rightarrow> SeqNum \<Rightarrow> Fill \<Rightarrow> Venue \<times> Gateway \<Rightarrow> (Venue \<times> Gateway) option" where
  "report_fill os sequence f st = do {
     bytes \<leftarrow> encode_execution sequence f [];
     (v, g) \<leftarrow> send_session os bytes st;
     let v = v\<lparr>vn_feed_sequence := vn_feed_sequence v + 1\<rparr>;
     bytes' \<leftarrow> encode_trade (vn_feed_sequence v) f [];
     Some (feed_publish os bytes' v, g)
   }"

definition on_fills :: "Outside \<Rightarrow> SeqNum \<Rightarrow> Fill list \<Rightarrow> Venue \<times> Gateway \<Rightarrow> (Venue \<times> Gateway) option" where
  "on_fills os sequence fills = foldM (report_fill os sequence) fills"

fun on_event :: "Outside \<Rightarrow> EngineEvent \<Rightarrow> Venue \<times> Gateway \<Rightarrow> (Venue \<times> Gateway) option" where
  "on_event os (OrderAccepted sequence ord) st = on_order_accepted os ord st"
| "on_event os (OrderRejected sequence command reason) st = on_order_rejected os sequence command reason st"
| "on_event os (OrderCancelled sequence ord) st = on_order_cancelled os sequence ord st"
| "on_event os (OrderReplaced sequence previous amended) st = on_order_replaced os sequence previous amended st"
| "on_event os (FillsReported sequence fills) st = on_fills os sequence fills st"

section \<open>Commands\<close>

text \<open>The engine's new state, with the listener calls of the command made in order.\<close>

definition deliver :: "Outside \<Rightarrow> Engine \<Rightarrow> Venue \<times> Gateway \<Rightarrow> (Venue \<times> Gateway) option" where
  "deliver os e st = (case st of (v, g) \<Rightarrow>
     foldM (on_event os) (map snd (eng_events e)) (v\<lparr>vn_engine := e\<lparr>eng_events := []\<rparr>\<rparr>, g))"

definition dispatch :: "Outside \<Rightarrow> Message \<Rightarrow> Venue \<times> Gateway \<Rightarrow> (InstrumentId \<times> Venue \<times> Gateway) option" where
  "dispatch os m st = (case st of (v0, g) \<Rightarrow>
     let (now, v) = read_clock os v0; e = vn_engine v in
     (case msg_type m of
        MsgNewOrder \<Rightarrow> do {
          let c = msg_new_order m;
          let e1 = with_risk (\<lambda>r. if limits_for r (no_account c) = None
            then risk_configure (no_account c) (vc_default_limits (vn_config v)) r else r) e;
          (_, e2) \<leftarrow> engine_submit (os_disk os) c now e1;
          st' \<leftarrow> deliver os e2 (v, g);
          Some (no_instrument c, st')
        }
      | MsgCancelOrder \<Rightarrow> do {
          let c = msg_cancel_order m;
          (_, e2) \<leftarrow> engine_cancel (os_disk os) c now e;
          st' \<leftarrow> deliver os e2 (v, g);
          Some (co_instrument c, st')
        }
      | MsgReplaceOrder \<Rightarrow> do {
          let c = msg_replace_order m;
          (_, e2) \<leftarrow> engine_replace (os_disk os) c now e;
          st' \<leftarrow> deliver os e2 (v, g);
          Some (ro_instrument c, st')
        }
      | _ \<Rightarrow> Some (0, v0, g)))"

definition handle :: "Outside \<Rightarrow> ConnectionId \<Rightarrow> Message \<Rightarrow> Venue \<times> Gateway \<Rightarrow> (Venue \<times> Gateway) option" where
  "handle os cid m st = (case st of (v, g) \<Rightarrow> do {
     (instrument, v1, g1) \<leftarrow> dispatch os m
       (v\<lparr>vn_current_connection := cid, vn_commands_processed := vn_commands_processed v + 1\<rparr>, g);
     v2 \<leftarrow> (if id_valid instrument then publish_market_data os instrument v1 else Some v1);
     Some (v2\<lparr>vn_current_connection := 0\<rparr>, g1)
   })"

section \<open>Starting, polling and stopping\<close>

fun register_instruments :: "Outside \<Rightarrow> InstrumentControls \<Rightarrow> Instrument list \<Rightarrow> Venue \<Rightarrow> (bool \<times> Venue) option" where
  "register_instruments os controls [] v = Some (True, v)"
| "register_instruments os controls (ins # inss) v0 = (case read_clock os v0 of (now, v) \<Rightarrow> do {
     (ok, e) \<leftarrow> add_instrument (os_disk os) ins now (vn_engine v);
     if \<not> ok then Some (False, v\<lparr>vn_engine := e\<rparr>)
     else register_instruments os controls inss
       (v\<lparr>vn_engine := with_risk (configure_instrument (ins_id ins) controls) e\<rparr>)
   })"

text \<open>\<open>created\<close> and \<open>d\<close> are the journal directory, \<open>feed_ok\<close> and \<open>gateway_ok\<close> the outcome of opening the sockets.\<close>

definition venue_start ::
    "Outside \<Rightarrow> bool \<Rightarrow> Disk \<Rightarrow> (UdpPublisher \<Rightarrow> bool \<times> UdpPublisher) \<Rightarrow> (Gateway \<Rightarrow> bool \<times> Gateway) \<Rightarrow> Venue \<times> Gateway \<Rightarrow>
     (bool \<times> Venue \<times> Gateway) option" where
  "venue_start os created d open_feed start_gateway st = (case st of (v, g) \<Rightarrow> do {
     (ok, e) \<leftarrow> (case vc_journal (vn_config v) of
         None \<Rightarrow> Some (True, vn_engine v)
       | Some wc \<Rightarrow> do {
           (ok, w, d') \<leftarrow> jw_open (os_disk os) created (JournalWriter_new wc) d;
           Some (ok, if ok then set_journal (Some (w, d')) (vn_engine v) else vn_engine v)
         });
     if \<not> ok then Some (False, v, g)
     else do {
       let e1 = add_listener (Some 0) (set_kill_switch (Some KillSwitch_new) (set_risk_engine (Some RiskEngine_new) e));
       (ok, v1) \<leftarrow> register_instruments os (vc_default_controls (vn_config v)) (vc_instruments (vn_config v))
         (v\<lparr>vn_engine := e1\<rparr>);
       if \<not> ok then Some (False, v1, g)
       else (case open_feed (vn_feed v1) of (ok, feed) \<Rightarrow>
         let v2 = v1\<lparr>vn_feed := feed\<rparr> in
         if \<not> ok then Some (False, v2, g)
         else (case start_gateway g of (ok, g1) \<Rightarrow> Some (ok, v2, g1)))
     }
   })"

definition venue_poll :: "Outside \<Rightarrow> (int \<times> u32) WaitReply \<Rightarrow> Venue \<times> Gateway \<Rightarrow> (bool \<times> Venue \<times> Gateway) option" where
  "venue_poll os reply st = gateway_poll (os_net os) (handle os) reply st"

definition venue_stop :: "Outside \<Rightarrow> Venue \<times> Gateway \<Rightarrow> (Venue \<times> Gateway) option" where
  "venue_stop os st = (case st of (v, g) \<Rightarrow> do {
     let g1 = gateway_stop (os_net os) g;
     let v1 = v\<lparr>vn_feed := pub_close (vn_feed v)\<rparr>;
     (case eng_journal (vn_engine v1) of
        None \<Rightarrow> Some (v1, g1)
      | Some (w, d) \<Rightarrow> do {
          (w', d') \<leftarrow> jw_close (os_disk os) w d;
          Some (v1\<lparr>vn_engine := set_journal (Some (w', d')) (vn_engine v1)\<rparr>, g1)
        })
   })"

end
