(* ===== verification/Node_Pool.thy ===== *)
theory Node_Pool
  imports XC_Prelude
begin

text \<open>
  The fixed-size block pool (\<open>include/xc/util/node_pool.hpp\<close>).  Blocks are numbered in the order
  their chunks were taken, and the link that a free block holds is the memory \<open>np_links\<close>; a block
  of another size comes from the global allocator, whose pointers are the parameter \<open>fresh\<close>.
\<close>

datatype Block = Pooled nat | Foreign nat

record NodePool =
  np_chunks :: nat
  np_links :: "nat \<Rightarrow> nat option"
  np_free_list :: "nat option"
  np_block_size :: nat
  np_blocks_per_chunk :: nat
  np_live :: nat
  np_available :: nat
  np_foreign_allocations :: nat

definition NodePool_new :: "nat \<Rightarrow> NodePool" where
  "NodePool_new blocks_per_chunk = \<lparr>np_chunks = 0, np_links = (\<lambda>_. None), np_free_list = None, np_block_size = 0,
     np_blocks_per_chunk = (if blocks_per_chunk = 0 then 1 else blocks_per_chunk), np_live = 0, np_available = 0,
     np_foreign_allocations = 0\<rparr>"

text \<open>The slots of a new chunk go onto the free list one by one.\<close>

definition push_slot :: "nat \<Rightarrow> NodePool \<Rightarrow> NodePool" where
  "push_slot slot p = p\<lparr>np_links := (np_links p)(slot := np_free_list p), np_free_list := Some slot\<rparr>"

definition add_chunk :: "NodePool \<Rightarrow> NodePool" where
  "add_chunk p = (let base = np_chunks p * np_blocks_per_chunk p;
     p1 = fold (\<lambda>i. push_slot (base + i)) [0..<np_blocks_per_chunk p] p
   in p1\<lparr>np_available := np_available p1 + np_blocks_per_chunk p, np_chunks := np_chunks p1 + 1\<rparr>)"

definition np_allocate :: "nat \<Rightarrow> nat \<Rightarrow> NodePool \<Rightarrow> (Block \<times> NodePool) option" where
  "np_allocate fresh bytes p0 = (
     let p1 = (if np_block_size p0 = 0 then p0\<lparr>np_block_size := bytes\<rparr> else p0)
     in if bytes \<noteq> np_block_size p1
        then Some (Foreign fresh, p1\<lparr>np_foreign_allocations := np_foreign_allocations p1 + 1\<rparr>)
        else let p2 = (if np_free_list p1 = None then add_chunk p1 else p1) in
          (case np_free_list p2 of
             None \<Rightarrow> None
           | Some block \<Rightarrow> Some (Pooled block, p2\<lparr>np_free_list := np_links p2 block, np_live := np_live p2 + 1\<rparr>)))"

text \<open>A block returned with another size than it was allocated with is a misuse and goes wrong.\<close>

definition np_deallocate :: "Block option \<Rightarrow> nat \<Rightarrow> NodePool \<Rightarrow> NodePool option" where
  "np_deallocate blk bytes p = (case blk of
       None \<Rightarrow> Some p
     | Some (Foreign f) \<Rightarrow> if bytes \<noteq> np_block_size p then Some p else None
     | Some (Pooled i) \<Rightarrow> if bytes \<noteq> np_block_size p then None
         else Some (p\<lparr>np_links := (np_links p)(i := np_free_list p), np_free_list := Some i, np_live := np_live p - 1\<rparr>))"

partial_function (option) reserve_loop :: "nat \<Rightarrow> nat \<Rightarrow> NodePool \<Rightarrow> NodePool option" where
  "reserve_loop block_size count p =
     (if np_block_size p = block_size \<and> np_available p < count then reserve_loop block_size count (add_chunk p) else Some p)"

definition np_reserve :: "nat \<Rightarrow> nat \<Rightarrow> NodePool \<Rightarrow> NodePool option" where
  "np_reserve block_size count p =
     reserve_loop block_size count (if np_block_size p = 0 then p\<lparr>np_block_size := block_size\<rparr> else p)"

section \<open>The free list\<close>

fun links_to :: "(nat \<Rightarrow> nat option) \<Rightarrow> nat option \<Rightarrow> nat list \<Rightarrow> bool" where
  "links_to m head [] = (head = None)"
| "links_to m head (x # xs) = (head = Some x \<and> links_to m (m x) xs)"

text \<open>The free blocks and the live ones share out the slots of the chunks.\<close>

definition np_inv :: "nat set \<Rightarrow> NodePool \<Rightarrow> bool" where
  "np_inv L p \<longleftrightarrow> (\<exists>free. links_to (np_links p) (np_free_list p) free \<and> distinct free \<and>
     set free \<inter> L = {} \<and> set free \<union> L = {..< np_chunks p * np_blocks_per_chunk p}) \<and> finite L \<and>
     card L = np_live p \<and> 0 < np_blocks_per_chunk p \<and> np_available p = np_chunks p * np_blocks_per_chunk p"

lemma links_to_upd: "x \<notin> set xs \<Longrightarrow> links_to (m(x := v)) h xs = links_to m h xs"
  by (induction xs arbitrary: h) auto

lemma push_slots:
  assumes "links_to (np_links p) (np_free_list p) free" "distinct free" "\<forall>x \<in> set free. x < base"
  shows "\<exists>q. fold (\<lambda>i. push_slot (base + i)) [0..<n] p = q \<and>
    links_to (np_links q) (np_free_list q) (rev (map ((+) base) [0..<n]) @ free) \<and>
    np_chunks q = np_chunks p \<and> np_blocks_per_chunk q = np_blocks_per_chunk p \<and> np_live q = np_live p \<and>
    np_available q = np_available p \<and> np_block_size q = np_block_size p"
proof (induction n)
  case 0
  then show ?case using assms by simp
next
  case (Suc n)
  have "base + n \<notin> set (rev (map ((+) base) [0..<n]) @ free)" using assms(3) by auto
  then show ?case using Suc by (auto simp: push_slot_def links_to_upd)
qed

lemma add_chunk_inv:
  assumes "np_inv L p"
  shows "np_inv L (add_chunk p)" "np_free_list (add_chunk p) \<noteq> None"
    "np_block_size (add_chunk p) = np_block_size p" "np_available (add_chunk p) = np_available p + np_blocks_per_chunk p"
    "np_blocks_per_chunk (add_chunk p) = np_blocks_per_chunk p"
proof -
  let ?base = "np_chunks p * np_blocks_per_chunk p" and ?n = "np_blocks_per_chunk p"
  obtain free where f: "links_to (np_links p) (np_free_list p) free" "distinct free" "set free \<inter> L = {}"
      "set free \<union> L = {..< ?base}" and L: "finite L" "card L = np_live p" "0 < ?n" "np_available p = ?base"
    using assms unfolding np_inv_def by blast
  have lt: "\<forall>x \<in> set free. x < ?base" "\<forall>x \<in> L. x < ?base" using f(4) by auto
  let ?q = "fold (\<lambda>i. push_slot (?base + i)) [0..<?n] p" and ?new = "rev (map ((+) ?base) [0..<?n]) @ free"
  from push_slots[OF f(1,2) lt(1), of ?n]
  have q: "links_to (np_links ?q) (np_free_list ?q) ?new"
    "np_chunks ?q = np_chunks p" "np_blocks_per_chunk ?q = ?n" "np_live ?q = np_live p" "np_available ?q = np_available p"
    "np_block_size ?q = np_block_size p" by auto
  have new: "distinct ?new" "set ?new \<inter> L = {}"
    using f(2,3) lt by (auto simp: distinct_map inj_on_def)
  have "set (map ((+) ?base) [0..<?n]) = {?base ..< ?base + ?n}" by (simp add: image_add_atLeastLessThan add.commute)
  then have "set ?new \<union> L = {?base ..< ?base + ?n} \<union> {..< ?base}" using f(4) by (simp add: Un_assoc)
  then have cover: "set ?new \<union> L = {..< ?base + ?n}" by (simp add: ivl_disj_un Un_commute)
  have un: "add_chunk p = ?q\<lparr>np_available := np_available ?q + ?n, np_chunks := np_chunks ?q + 1\<rparr>"
    by (simp add: add_chunk_def Let_def)
  have "links_to (np_links (add_chunk p)) (np_free_list (add_chunk p)) ?new" using q(1) by (simp add: un)
  then show "np_inv L (add_chunk p)"
    using new cover q L unfolding np_inv_def un by (auto simp: add.commute intro!: exI[of _ ?new])
  show "np_free_list (add_chunk p) \<noteq> None"
    using q(1) L(3) by (cases ?new) (auto simp: un)
  show "np_block_size (add_chunk p) = np_block_size p" "np_available (add_chunk p) = np_available p + ?n"
    "np_blocks_per_chunk (add_chunk p) = ?n"
    using q by (simp_all add: un)
qed

section \<open>The operations\<close>

lemma np_inv_new: "np_inv {} (NodePool_new n)"
  by (auto simp: np_inv_def NodePool_new_def intro: exI[of _ "[]"])

lemma np_inv_size: "np_inv L (p\<lparr>np_block_size := b\<rparr>) = np_inv L p" "np_inv L (p\<lparr>np_foreign_allocations := f\<rparr>) = np_inv L p"
  by (simp_all add: np_inv_def)

lemma allocate_pooled:
  assumes "np_inv L p" "bytes \<noteq> 0" "np_block_size p = 0 \<or> np_block_size p = bytes"
  obtains i q where "np_allocate fresh bytes p = Some (Pooled i, q)" "i \<notin> L" "np_inv (insert i L) q"
    "np_block_size q = bytes"
proof -
  let ?p1 = "if np_block_size p = 0 then p\<lparr>np_block_size := bytes\<rparr> else p"
  let ?p2 = "if np_free_list ?p1 = None then add_chunk ?p1 else ?p1"
  have i1: "np_inv L ?p1" "np_block_size ?p1 = bytes" using assms by (auto simp: np_inv_size)
  have i2: "np_inv L ?p2" "np_free_list ?p2 \<noteq> None" "np_block_size ?p2 = bytes"
    using i1 add_chunk_inv[OF i1(1)] by auto
  then obtain i free where f: "np_free_list ?p2 = Some i" "links_to (np_links ?p2) (np_links ?p2 i) free" "distinct (i # free)"
      "set (i # free) \<inter> L = {}" "set (i # free) \<union> L = {..< np_chunks ?p2 * np_blocks_per_chunk ?p2}"
    and L: "finite L" "card L = np_live ?p2" "0 < np_blocks_per_chunk ?p2" "np_available ?p2 = np_chunks ?p2 * np_blocks_per_chunk ?p2"
    unfolding np_inv_def by (metis links_to.elims(2))
  let ?q = "?p2\<lparr>np_free_list := np_links ?p2 i, np_live := np_live ?p2 + 1\<rparr>"
  show thesis
  proof (rule that)
    show "np_allocate fresh bytes p = Some (Pooled i, ?q)"
      using f(1) i1(2) by (simp add: np_allocate_def Let_def)
    show "i \<notin> L" using f(4) by simp
    then show "np_inv (insert i L) ?q"
      using f L unfolding np_inv_def by (intro conjI exI[of _ free]) auto
    show "np_block_size ?q = bytes" using i2(3) by simp
  qed
qed

lemma allocate_foreign:
  assumes "np_block_size p \<noteq> 0" "bytes \<noteq> np_block_size p"
  shows "np_allocate fresh bytes p = Some (Foreign fresh, p\<lparr>np_foreign_allocations := np_foreign_allocations p + 1\<rparr>)"
  using assms by (simp add: np_allocate_def Let_def)

lemma deallocate_pooled:
  assumes "np_inv L p" "i \<in> L"
  shows "\<exists>q. np_deallocate (Some (Pooled i)) (np_block_size p) p = Some q \<and> np_inv (L - {i}) q \<and> np_free_list q = Some i"
proof -
  obtain free where f: "links_to (np_links p) (np_free_list p) free" "distinct free" "set free \<inter> L = {}"
      "set free \<union> L = {..< np_chunks p * np_blocks_per_chunk p}" and L: "finite L" "card L = np_live p"
      "0 < np_blocks_per_chunk p" "np_available p = np_chunks p * np_blocks_per_chunk p"
    using assms(1) unfolding np_inv_def by blast
  let ?q = "p\<lparr>np_links := (np_links p)(i := np_free_list p), np_free_list := Some i, np_live := np_live p - 1\<rparr>"
  have "i \<notin> set free" using assms(2) f(3) by auto
  then have "np_inv (L - {i}) ?q"
    using f L assms(2) unfolding np_inv_def by (intro conjI exI[of _ "i # free"]) (auto simp: links_to_upd)
  then show ?thesis by (simp add: np_deallocate_def)
qed

text \<open>Reserving stops, after which the pool has carved at least \<open>count\<close> blocks in all.\<close>

lemma reserve_done:
  assumes "np_inv L p"
  shows "\<exists>q. reserve_loop b count p = Some q \<and> np_inv L q \<and> np_block_size q = np_block_size p \<and>
    (np_block_size p = b \<longrightarrow> count \<le> np_available q) \<and> np_live q = np_live p"
  using assms
proof (induction "count - np_available p" arbitrary: p rule: less_induct)
  case less
  show ?case
  proof (cases "np_block_size p = b \<and> np_available p < count")
    case True
    note c = add_chunk_inv[OF less.prems]
    have live: "np_live (add_chunk p) = np_live p"
      using c(1) less.prems by (simp add: np_inv_def)
    have "0 < np_blocks_per_chunk p" using less.prems by (simp add: np_inv_def)
    then have "count - np_available (add_chunk p) < count - np_available p" using True c(4) by linarith
    from less.hyps[OF this c(1)] show ?thesis using True c(3) live by (subst reserve_loop.simps) simp
  next
    case False
    then show ?thesis using less.prems by (subst reserve_loop.simps) auto
  qed
qed

end
