(* ===== verification/Spec2Isabelle.thy ===== *)
theory Spec2Isabelle
  imports Book_Rules Book_Lifecycle Book_Views Structure_Properties Engine_Recovery Engine_Properties
    Risk_Properties Gateway_Properties Utility_Properties Venue Node_Pool
begin

text \<open>
  A verification development for exchange-core, a single-node electronic exchange in C++20.

  \<^bold>\<open>The program.\<close>  Clients connect over TCP (\<open>src/net/tcp_gateway.cpp\<close> on \<open>src/net/event_loop.cpp\<close>) and send
  framed binary messages (\<open>src/protocol/messages.cpp\<close>).  The venue (\<open>src/venue.cpp\<close>) turns each message into
  a command for the matching engine (\<open>src/core/matching_engine.cpp\<close>).  The engine checks the kill switch
  (\<open>src/risk/kill_switch.cpp\<close>) and the risk engine (\<open>src/risk/risk_engine.cpp\<close>), numbers the command, writes it
  to the journal (\<open>src/journal/writer.cpp\<close>, records of \<open>src/journal/record.cpp\<close>) and executes it on the order
  book of its instrument (\<open>src/core/order_book.cpp\<close>).  The book keeps its orders in a slab
  (\<open>src/core/order_pool.cpp\<close>), linked into one queue per price (\<open>src/core/price_level.cpp\<close>), the prices in a
  bitmap-indexed ladder per side (\<open>include/xc/core/price_ladder.hpp\<close>) and the order ids in an open-addressing
  hash table (\<open>include/xc/util/flat_hash_map.hpp\<close>).  Results go back to the client and, as market data, to a
  UDP feed (\<open>src/net/udp_feed.cpp\<close>) whose subscribers watch for gaps
  (\<open>include/xc/protocol/gap_detector.hpp\<close>).  After a crash the journal is read back
  (\<open>src/journal/reader.cpp\<close>) and replayed (\<open>src/journal/replayer.cpp\<close>); a digest
  (\<open>src/core/state_digest.cpp\<close>) fingerprints the result.

  \<^bold>\<open>The model.\<close>  Quantities, ids, sequence numbers and counters that may wrap are words of their width;
  prices and times are integers; sizes are natural numbers.  A C++ operation is a function on
  explicit state whose result is optional: None means that the code would go wrong (an access
  outside an array, a failed assertion) or would not return.  Loops whose end is not structural
  are \<open>partial_function (option)\<close>, so that termination is a theorem and not an assumption; there is no
  fuel.  The operating system is a stream of replies to successive calls, an argument of the
  definitions that make them.

  \<^bold>\<open>The theories.\<close>
  \<^item> \<open>XC_Prelude\<close>: checked array access, the option fold, the interface of a machine that is safe to run.
  \<^item> \<open>XC_Types\<close>: the vocabulary types of \<open>include/xc/core\<close>.
  \<^item> \<open>Order_Pool\<close>, \<open>Price_Level\<close>, \<open>Price_Ladder\<close>, \<open>Flat_Hash_Map\<close>: the data structures of the book, each with a
    representation invariant and what its operations do to the abstract value.
  \<^item> \<open>Order_Book\<close>: the code of the book.  \<open>Book_Spec\<close>: its specification over sorted lists of levels.
    \<open>Book_Matching\<close>, \<open>Book_Fok\<close>, \<open>Book_Invariant\<close>, \<open>Book_Effects\<close>: what the specification does (priority,
    conservation, fill-or-kill, well-formedness).  \<open>Book_Refinement\<close>, \<open>Book_Operations\<close>,
    \<open>Book_Match_Refinement\<close>, \<open>Book_Queries\<close>, \<open>Book_Commands\<close>, \<open>Book_Amend\<close>, \<open>Book_Machine\<close>: the code refines it.
    \<open>Book_Example\<close>: a concrete book.  \<open>Book_Properties\<close>, \<open>Book_Rules\<close>, \<open>Book_Lifecycle\<close>, \<open>Book_Views\<close>: the
    theorems about the code.  \<open>Structure_Properties\<close>: the theorems about the hash table and the ladder.
  \<^item> \<open>Byte_Codec\<close>, \<open>Crc32c\<close>, \<open>Journal_Record\<close>, \<open>Journal_Writer\<close>, \<open>Journal_Reader\<close>, \<open>State_Digest\<close>, \<open>Replayer\<close>:
    encoding, durability and recovery.  \<open>Journal_Properties\<close>: the record format.  \<open>Journal_Log\<close>: what the writer
    keeps on disk and what the reader finds there after a crash.  \<open>Journal_Recovery\<close>: the writer returns, and what
    was appended is recovered.
  \<^item> \<open>Kill_Switch\<close>, \<open>Risk_Engine\<close>, \<open>Matching_Engine\<close>: the gates and the engine.  \<open>Risk_Properties\<close>: limits, collar,
    rate and positions.  \<open>Engine_Replay\<close>: a command writes a record whose replay has the same effect.
    \<open>Engine_Safety\<close>: the engine never goes wrong.  \<open>Engine_Recovery\<close>: a crashed engine is rebuilt from its journal.
    \<open>Engine_Properties\<close>: halts, ownership and write-ahead logging.
  \<^item> \<open>Protocol_Messages\<close>, \<open>Gap_Detector\<close>, \<open>Event_Loop\<close>, \<open>Udp_Feed\<close>, \<open>Tcp_Gateway\<close>, \<open>Venue\<close>: the network side.
    \<open>Protocol_Properties\<close>: messages survive the wire and frames are cut reliably.  \<open>Gateway_Properties\<close>: what is sent
    arrives in order within a bounded queue, and what is received is cut into messages of one account.
  \<^item> \<open>Histogram\<close>, \<open>Node_Pool\<close>: the utilities of the measurements.  \<open>Utility_Properties\<close>: the accounting of lost
    datagrams and the accuracy of percentiles.

  \<^bold>\<open>Bounds.\<close>  The theorems about the book ask of a command that it fits: the total quantity of a side
  stays below two to the 64 and the number of resting orders below the null handle.  Beyond the
  first the code's level totals wrap, beyond the second its slab runs out of handles.  The theorems about
  the journal and the gateway that claim a return ask of the system that from any point on it at some time
  answers with more than an interruption or nothing transferred.  A crash may leave any file shorter, but not
  shorter than what was synced.  A record has no room for prices and times beyond 64 bits and restores the
  capacity hint of an instrument to its default, so the commands that are replayed exactly are those that fit.

  \<^bold>\<open>Not modelled.\<close>  Error texts, the socket option setters, the allocation counter and build
  information, the command line programs, the browser bridge, the benchmarks and the fuzz
  drivers.
\<close>

end
